(* ===== verification/Prelude.thy ===== *)
theory Prelude
  imports Main "HOL-Library.Word" "HOL-Library.Char_ord" "HOL-Library.List_Lexorder"
begin

text \<open>
  Shared vocabulary of the development: the faults a C++ operation can end in, the fragments of
  the C++ standard library the sources use (strings, character classes, decimal output), and the
  named collections of rewrite rules the component theories fill.
\<close>

section \<open>Hint collections\<close>

named_theorems om_simps \<open>equations of the ordered association list that models std::map\<close>
named_theorems string_simps \<open>equations of the std::string fragment\<close>
named_theorems lock_simps \<open>equations of the lock primitives\<close>

section \<open>Faults\<close>

text \<open>
  An operation that does not return normally ends in a \<open>fault\<close>. \<open>Throw\<close> carries a C++ exception
  (the sources tell exceptions derived from std::exception from all others by their catch
  clauses); the other constructors end the process or never return: a failed assert, a method
  call on a null shared pointer, a second acquisition of a lock the caller already holds, a read
  of memory the standard leaves unspecified, a recursion deeper than the stack.
\<close>

datatype exn = Std_Exception string | Other_Exception

datatype fault =
    Throw exn
  | Assert_Fail string
  | Null_Deref string
  | Deadlock string
  | Unspecified string
  | Stack_Overflow

text \<open>The fault of a record whose date does not fit the 64 bytes its formatter has for it.\<close>

abbreviation date_fault :: fault where
  "date_fault \<equiv> Unspecified ''strftime buffer''"

type_synonym 'a res = "fault + 'a"

definition rbind :: "'a res \<Rightarrow> ('a \<Rightarrow> 'b res) \<Rightarrow> 'b res" where
  "rbind r f = (case r of Inl e \<Rightarrow> Inl e | Inr a \<Rightarrow> f a)"

lemma rbind_Inl [simp]: "rbind (Inl e) f = Inl e"
  by (simp add: rbind_def)

lemma rbind_Inr [simp]: "rbind (Inr a) f = f a"
  by (simp add: rbind_def)

lemma rbind_eq_Inr: "rbind r f = Inr b \<longleftrightarrow> (\<exists>a. r = Inr a \<and> f a = Inr b)"
  by (cases r) auto

lemma rbind_assoc: "rbind (rbind r f) g = rbind r (\<lambda>a. rbind (f a) g)"
  by (cases r) auto

lemma rbind_cong [fundef_cong]:
  "r = r' \<Longrightarrow> (\<And>a. r' = Inr a \<Longrightarrow> f a = f' a) \<Longrightarrow> rbind r f = rbind r' f'"
  by (cases r') auto

text \<open>A loop whose body may fault: the fold stops at the first fault.\<close>

fun rfold :: "('x \<Rightarrow> 's \<Rightarrow> 's res) \<Rightarrow> 'x list \<Rightarrow> 's \<Rightarrow> 's res" where
  "rfold f [] s = Inr s"
| "rfold f (x # xs) s = rbind (f x s) (rfold f xs)"

lemma rfold_append: "rfold f (xs @ ys) s = rbind (rfold f xs s) (rfold f ys)"
  by (induction xs arbitrary: s) (simp_all add: rbind_assoc fun_eq_iff cong: rbind_cong)

lemma rfold_invariant:
  assumes "\<And>x s s'. x \<in> set xs \<Longrightarrow> P s \<Longrightarrow> f x s = Inr s' \<Longrightarrow> P s'"
    and "P s" and "rfold f xs s = Inr s'"
  shows "P s'"
  using assms by (induction xs arbitrary: s) (auto simp: rbind_eq_Inr)

lemma rfold_total:
  assumes "\<And>x s. x \<in> set xs \<Longrightarrow> P s \<Longrightarrow> \<exists>s'. f x s = Inr s' \<and> P s'"
    and "P s"
  shows "\<exists>s'. rfold f xs s = Inr s' \<and> P s'"
  using assms
proof (induction xs arbitrary: s)
  case Nil
  then show ?case by simp
next
  case (Cons x xs)
  then obtain s' where "f x s = Inr s'" and "P s'" by (meson list.set_intros(1))
  with Cons show ?case by simp
qed

lemma rfold_pure:
  assumes "\<And>x s. x \<in> set xs \<Longrightarrow> f x s = Inr (g x s)"
  shows "rfold f xs s = Inr (fold g xs s)"
  using assms by (induction xs arbitrary: s) auto

section \<open>Strings and characters\<close>

text \<open>
  std::string is a byte string; \<open>isalpha\<close> and \<open>tolower\<close> are those of the C locale, the one a
  process runs in that never calls setlocale (the sources do not).
\<close>

definition upper_letters :: string where
  "upper_letters = ''ABCDEFGHIJKLMNOPQRSTUVWXYZ''"

definition lower_letters :: string where
  "lower_letters = ''abcdefghijklmnopqrstuvwxyz''"

definition isalpha :: "char \<Rightarrow> bool" where
  "isalpha c = (c \<in> set upper_letters \<or> c \<in> set lower_letters)"

definition tolower :: "char \<Rightarrow> char" where
  "tolower c = (case map_of (zip upper_letters lower_letters) c of Some d \<Rightarrow> d | None \<Rightarrow> c)"

lemmas letter_defs = upper_letters_def lower_letters_def

lemma tolower_id: "c \<notin> set upper_letters \<Longrightarrow> tolower c = c"
  unfolding tolower_def letter_defs by simp

definition substr :: "string \<Rightarrow> nat \<Rightarrow> nat \<Rightarrow> string" where
  "substr s pos n = take n (drop pos s)"

definition substr_from :: "string \<Rightarrow> nat \<Rightarrow> string" where
  "substr_from s pos = drop pos s"

text \<open>\<open>None\<close> is std::string::npos.\<close>

fun find_first_not_of :: "string \<Rightarrow> string \<Rightarrow> nat option" where
  "find_first_not_of [] allowed = None"
| "find_first_not_of (c # cs) allowed =
     (if c \<in> set allowed then map_option Suc (find_first_not_of cs allowed) else Some 0)"

lemma find_first_not_of_None [string_simps]:
  "find_first_not_of s allowed = None \<longleftrightarrow> set s \<subseteq> set allowed"
  by (induction s) auto

lemma find_first_not_of_Some:
  "find_first_not_of s allowed = Some i \<Longrightarrow>
     i < length s \<and> s ! i \<notin> set allowed \<and> set (take i s) \<subseteq> set allowed"
  by (induction s arbitrary: i) (auto split: if_splits)

text \<open>Decimal output of an integer, as operator<< prints it.\<close>

fun show_nat :: "nat \<Rightarrow> string" where
  "show_nat n = (if n < 10 then [char_of (48 + n)] else show_nat (n div 10) @ [char_of (48 + n mod 10)])"

declare show_nat.simps [simp del]

definition show_int :: "int \<Rightarrow> string" where
  "show_int i = (if i < 0 then CHR ''-'' # show_nat (nat (- i)) else show_nat (nat i))"

definition nl :: string where
  "nl = [CHR 0x0A]"

definition tab :: string where
  "tab = [CHR 0x09]"

section \<open>Sums over threads\<close>

lemma sum_one_changes:
  fixes f g :: "nat \<Rightarrow> 'a::comm_monoid_add"
  assumes "i < n" and "\<forall>j. j \<noteq> i \<longrightarrow> g j = f j" and "x + g i = y + f i"
  shows "x + (\<Sum>j<n. g j) = y + (\<Sum>j<n. f j)"
proof -
  have "(\<Sum>j\<in>{..<n} - {i}. g j) = (\<Sum>j\<in>{..<n} - {i}. f j)" using assms(2) by (intro sum.cong) auto
  with assms(1,3) show ?thesis by (simp add: sum.remove [of "{..<n}" i] add.assoc [symmetric])
qed

end
