(* ===== verification/Log_Level.thy ===== *)
theory Log_Level
  imports Prelude
begin

text \<open>
  LogLevel of log.h and log.cpp: the enumeration, its order, and the conversions to and from text.
  LEVEL_100 is the value (LogLevel::Level)100 that the configuration listener casts to when it
  disables a logger; no enumerator of the source has it.
\<close>

datatype Level = UNKNOW | DEBUG | INFO | WARN | ERROR | FATAL | LEVEL_100

fun level_code :: "Level \<Rightarrow> nat" where
  "level_code UNKNOW = 0"
| "level_code DEBUG = 1"
| "level_code INFO = 2"
| "level_code WARN = 3"
| "level_code ERROR = 4"
| "level_code FATAL = 5"
| "level_code LEVEL_100 = 100"

lemma level_code_inject [simp]: "level_code a = level_code b \<longleftrightarrow> a = b"
  by (cases a; cases b) auto

instantiation Level :: linorder
begin
definition less_eq_Level :: "Level \<Rightarrow> Level \<Rightarrow> bool" where
  "less_eq_Level a b = (level_code a \<le> level_code b)"
definition less_Level :: "Level \<Rightarrow> Level \<Rightarrow> bool" where
  "less_Level a b = (level_code a < level_code b)"
instance by standard (auto simp: less_eq_Level_def less_Level_def)
end

definition ToString :: "Level \<Rightarrow> string" where
  "ToString level = (case level of
       DEBUG \<Rightarrow> ''DEBUG''
     | INFO \<Rightarrow> ''INFO''
     | WARN \<Rightarrow> ''WARN''
     | ERROR \<Rightarrow> ''ERROR''
     | FATAL \<Rightarrow> ''FATAL''
     | _ \<Rightarrow> ''UNKNOW'')"

definition FromString :: "string \<Rightarrow> Level" where
  "FromString str =
     (if str = ''debug'' then DEBUG
      else if str = ''info'' then INFO
      else if str = ''warn'' then WARN
      else if str = ''error'' then ERROR
      else if str = ''fatal'' then FATAL
      else if str = ''DEBUG'' then DEBUG
      else if str = ''INFO'' then INFO
      else if str = ''WARN'' then WARN
      else if str = ''ERROR'' then ERROR
      else if str = ''FATAL'' then FATAL
      else UNKNOW)"

lemma FromString_ToString: "FromString (ToString l) = (if l = LEVEL_100 then UNKNOW else l)"
  by (cases l) (simp_all add: FromString_def ToString_def)

lemma FromString_lower_ToString:
  "l \<notin> {UNKNOW, LEVEL_100} \<Longrightarrow> FromString (map tolower (ToString l)) = l"
  by (cases l) (simp_all add: FromString_def ToString_def tolower_def letter_defs)

text \<open>Only the all-lower and the all-upper spelling of a level name are recognised.\<close>

lemma FromString_known:
  "FromString s \<noteq> UNKNOW \<Longrightarrow> s = ToString (FromString s) \<or> s = map tolower (ToString (FromString s))"
  by (auto simp: FromString_def ToString_def tolower_def letter_defs)

lemma FromString_not_LEVEL_100 [simp]: "FromString s \<noteq> LEVEL_100"
  by (simp add: FromString_def)

text \<open>
  Every enumerator round-trips through ToString and FromString, in upper and in lower case; the values
  0 and 100 come back as UNKNOW. No other text reads as a level.
\<close>

lemma level_roundtrip:
  "FromString (ToString l) = (if l = LEVEL_100 then UNKNOW else l) \<and>
   FromString (map tolower (ToString l)) = (if l = LEVEL_100 then UNKNOW else l) \<and>
   (FromString s = UNKNOW \<or> s = ToString (FromString s) \<or> s = map tolower (ToString (FromString s)))"
proof -
  have "FromString (map tolower (ToString l)) = (if l = LEVEL_100 then UNKNOW else l)"
    by (cases l) (simp_all add: FromString_def ToString_def tolower_def letter_defs)
  with FromString_ToString FromString_known show ?thesis by blast
qed

end
