(* ===== verification/Log_Format.thy ===== *)
theory Log_Format
  imports Log_Level
begin

text \<open>
  LogEvent, the FormatItem classes and LogFormatter (log.h, log.cpp): the pattern parser
  LogFormatter::init with its two nested index loops, and the rendering of an event. The parser is
  proved equal to a reference tokenizer over the rest of the pattern; its other properties are read
  off that tokenizer.
\<close>

section \<open>Events\<close>

text \<open>
  A logger is named by the number of its object (a shared_ptr); None is the null pointer. The
  content stream m_ss is the text written to it so far.
\<close>

record event =
  ev_file :: string
  ev_line :: "32 word"
  ev_elapse :: "32 word"
  ev_threadId :: "32 word"
  ev_fiberId :: "32 word"
  ev_time :: "64 word"
  ev_threadName :: string
  ev_ss :: string
  ev_logger :: "nat option"
  ev_level :: Level

definition mk_event ::
  "nat option \<Rightarrow> Level \<Rightarrow> string \<Rightarrow> 32 word \<Rightarrow> 32 word \<Rightarrow> 32 word \<Rightarrow> 32 word \<Rightarrow> 64 word \<Rightarrow> string \<Rightarrow> event" where
  "mk_event logger level file line elapse thread_id fiber_id time thread_name =
     \<lparr>ev_file = file, ev_line = line, ev_elapse = elapse, ev_threadId = thread_id,
      ev_fiberId = fiber_id, ev_time = time, ev_threadName = thread_name, ev_ss = [],
      ev_logger = logger, ev_level = level\<rparr>"

text \<open>Streaming into getSS() appends.\<close>

definition ev_write :: "string \<Rightarrow> event \<Rightarrow> event" where
  "ev_write s e = e\<lparr>ev_ss := ev_ss e @ s\<rparr>"

text \<open>
  LogEvent::format: the argument is what vasprintf made of the format and its arguments, None for
  its failure value -1.
\<close>

definition ev_format :: "string option \<Rightarrow> event \<Rightarrow> event" where
  "ev_format buf e = (case buf of None \<Rightarrow> e | Some s \<Rightarrow> ev_write s e)"

section \<open>Format items\<close>

datatype fmt_item =
    MessageFormatItem
  | LevelFormatItem
  | ElapseFormatItem
  | NameFormatItem
  | ThreadIdFormatItem
  | FiberIdFormatItem
  | ThreadNameFormatItem
  | DateTimeFormatItem string
  | FilenameFormatItem
  | LineFormatItem
  | NewLineFormatItem
  | StringFormatItem string
  | TabFormatItem

definition default_date :: string where
  "default_date = ''%Y-%m-%d %H:%M:%S''"

definition mk_DateTimeFormatItem :: "string \<Rightarrow> fmt_item" where
  "mk_DateTimeFormatItem f = DateTimeFormatItem (if f = [] then default_date else f)"

text \<open>
  The environment of rendering: \<open>env_strftime\<close> is the text that localtime_r and strftime make of a
  format and a time when the buffer is long enough (it depends on the process's time zone and
  locale), \<open>env_name\<close> the name of a logger object.
\<close>

record fmt_env =
  env_strftime :: "string \<Rightarrow> 64 word \<Rightarrow> string"
  env_name :: "nat \<Rightarrow> string"

text \<open>
  The buffer of DateTimeFormatItem::format has 64 bytes. When the text and its terminating NUL do
  not fit, strftime returns 0 and the contents of the buffer are unspecified; the code does not
  look at the result and prints the buffer.
\<close>

fun item_format :: "fmt_env \<Rightarrow> Level \<Rightarrow> event \<Rightarrow> fmt_item \<Rightarrow> string res" where
  "item_format env level e MessageFormatItem = Inr (ev_ss e)"
| "item_format env level e LevelFormatItem = Inr (ToString level)"
| "item_format env level e ElapseFormatItem = Inr (show_nat (unat (ev_elapse e)))"
| "item_format env level e NameFormatItem =
     (case ev_logger e of None \<Rightarrow> Inl (Null_Deref ''event->getLogger()'') | Some l \<Rightarrow> Inr (env_name env l))"
| "item_format env level e ThreadIdFormatItem = Inr (show_nat (unat (ev_threadId e)))"
| "item_format env level e FiberIdFormatItem = Inr (show_nat (unat (ev_fiberId e)))"
| "item_format env level e ThreadNameFormatItem = Inr (ev_threadName e)"
| "item_format env level e (DateTimeFormatItem f) =
     (let s = env_strftime env f (ev_time e) in
      if length s < 64 then Inr s else Inl date_fault)"
| "item_format env level e FilenameFormatItem = Inr (ev_file e)"
| "item_format env level e LineFormatItem = Inr (show_int (sint (ev_line e)))"
| "item_format env level e NewLineFormatItem = Inr nl"
| "item_format env level e (StringFormatItem s) = Inr s"
| "item_format env level e TabFormatItem = Inr tab"

section \<open>LogFormatter\<close>

record formatter =
  f_pattern :: string
  f_items :: "fmt_item list"
  f_error :: bool

text \<open>One entry of the local vector vec: (string, format, type).\<close>

type_synonym entry = "string \<times> string \<times> nat"

text \<open>
  The inner while loop of init. The result is (pos, fmt_status, iwstr, iwfmt) where the loop ends.
\<close>

function scan :: "string \<Rightarrow> nat \<Rightarrow> nat \<Rightarrow> nat \<Rightarrow> nat \<Rightarrow> string \<Rightarrow> string \<Rightarrow> nat \<times> nat \<times> string \<times> string" where
  "scan p i pos fmt_begin fmt_status iwstr iwfmt =
     (if pos < length p then
        if fmt_status = 0 \<and> (\<not> isalpha (p ! pos) \<and> p ! pos \<noteq> CHR ''{'' \<and> p ! pos \<noteq> CHR ''}'') then
          (pos, fmt_status, substr p (i + 1) (pos - i - 1), iwfmt)
        else if fmt_status = 0 \<and> p ! pos = CHR ''{'' then
          scan p i (pos + 1) pos 1 (substr p (i + 1) (pos - i - 1)) iwfmt
        else if fmt_status = 1 \<and> p ! pos = CHR ''}'' then
          (pos + 1, 0, iwstr, substr p (fmt_begin + 1) (pos - fmt_begin - 1))
        else
          scan p i (pos + 1) fmt_begin fmt_status
            (if pos + 1 = length p \<and> iwstr = [] then substr_from p (i + 1) else iwstr) iwfmt
      else (pos, fmt_status, iwstr, iwfmt))"
  by pat_completeness auto
termination
  by (relation "measure (\<lambda>(p, i, pos, fb, st, ws, fm). length p - pos)") auto

declare scan.simps [simp del]

lemma scan_pos_ge: "scan p i pos fb st ws fm = (pos', st', ws', fm') \<Longrightarrow> pos \<le> pos'"
proof (induction p i pos fb st ws fm rule: scan.induct)
  case (1 p i pos fb st ws fm)
  from "1.prems" show ?case
    unfolding scan.simps [of p i pos fb st ws fm] using "1.IH" by (auto split: if_splits dest: Suc_leD)
qed

text \<open>The text collected before an entry is pushed as an entry of type 0.\<close>

definition flush :: "string \<Rightarrow> entry list" where
  "flush str = (if str = [] then [] else [(str, [], 0)])"

definition pattern_error :: string where
  "pattern_error = ''<< pattern_error >> ''"

text \<open>The outer for loop of init. The result is (vec, str, m_error).\<close>

function init_loop :: "string \<Rightarrow> nat \<Rightarrow> string \<Rightarrow> entry list \<Rightarrow> bool \<Rightarrow> entry list \<times> string \<times> bool" where
  "init_loop p i str vec err =
     (if i < length p then
        if p ! i \<noteq> CHR ''%'' then init_loop p (i + 1) (str @ [p ! i]) vec err
        else if i + 1 < length p \<and> p ! (i + 1) = CHR ''%'' then
          init_loop p (i + 1) (str @ ''%'') vec err
        else
          (case scan p i (i + 1) 0 0 [] [] of (pos, fmt_status, iwstr, iwfmt) \<Rightarrow>
             if fmt_status = 0 then
               init_loop p pos [] (vec @ flush str @ [(iwstr, iwfmt, 1)]) err
             else init_loop p (i + 1) str (vec @ [(pattern_error, iwfmt, 0)]) True)
      else (vec, str, err))"
  by pat_completeness auto
termination
  by (relation "measure (\<lambda>(p, i, str, vec, err). length p - i)")
    (auto dest!: scan_pos_ge [OF sym])

declare init_loop.simps [simp del]

text \<open>
  What the same loop writes to std::cout: one line for each directive it cannot parse.
\<close>

function init_report :: "string \<Rightarrow> nat \<Rightarrow> string" where
  "init_report p i =
     (if i < length p then
        if p ! i \<noteq> CHR ''%'' then init_report p (i + 1)
        else if i + 1 < length p \<and> p ! (i + 1) = CHR ''%'' then init_report p (i + 1)
        else
          (case scan p i (i + 1) 0 0 [] [] of (pos, fmt_status, iwstr, iwfmt) \<Rightarrow>
             if fmt_status = 0 then init_report p pos
             else (''pattern parse error: '' @ p @ ''-'' @ substr_from p i @ nl) @ init_report p (i + 1))
      else [])"
  by pat_completeness auto
termination
  by (relation "measure (\<lambda>(p, i). length p - i)") (auto dest!: scan_pos_ge [OF sym])

declare init_report.simps [simp del]

definition parse_report :: "string \<Rightarrow> string" where
  "parse_report p = init_report p 0"

lemma init_report_error:
  "init_loop p i str vec err = (v, u, e) \<Longrightarrow> e \<longleftrightarrow> err \<or> init_report p i \<noteq> []"
proof (induction p i str vec err arbitrary: v u e rule: init_loop.induct)
  case (1 p i str vec err)
  from "1.prems" show ?case
    by (subst (asm) init_loop.simps, subst init_report.simps)
      (use "1.IH" in \<open>auto split: if_splits prod.splits\<close>)
qed

definition init_vec :: "string \<Rightarrow> entry list \<times> bool" where
  "init_vec p = (case init_loop p 0 [] [] False of (vec, str, err) \<Rightarrow> (vec @ flush str, err))"

text \<open>The static table s_format_items, from a key to the constructor of its item.\<close>

definition s_format_items :: "string \<Rightarrow> (string \<Rightarrow> fmt_item) option" where
  "s_format_items key = map_of
     [(''m'', \<lambda>fmt. MessageFormatItem),
      (''p'', \<lambda>fmt. LevelFormatItem),
      (''r'', \<lambda>fmt. ElapseFormatItem),
      (''c'', \<lambda>fmt. NameFormatItem),
      (''t'', \<lambda>fmt. ThreadIdFormatItem),
      (''n'', \<lambda>fmt. NewLineFormatItem),
      (''d'', mk_DateTimeFormatItem),
      (''f'', \<lambda>fmt. FilenameFormatItem),
      (''l'', \<lambda>fmt. LineFormatItem),
      (''T'', \<lambda>fmt. TabFormatItem),
      (''F'', \<lambda>fmt. FiberIdFormatItem),
      (''N'', \<lambda>fmt. ThreadNameFormatItem)] key"

definition error_format :: "string \<Rightarrow> string" where
  "error_format key = ''<<error_format %'' @ key @ ''>>''"

definition entry_item :: "entry \<Rightarrow> fmt_item" where
  "entry_item x = (case x of (s, f, t) \<Rightarrow>
     if t = 0 then StringFormatItem s
     else (case s_format_items s of
             None \<Rightarrow> StringFormatItem (error_format s)
           | Some c \<Rightarrow> c f))"

definition entry_bad :: "entry \<Rightarrow> bool" where
  "entry_bad x = (case x of (s, f, t) \<Rightarrow> t \<noteq> 0 \<and> s_format_items s = None)"

text \<open>The constructor: init, then one item per entry.\<close>

definition LogFormatter :: "string \<Rightarrow> formatter" where
  "LogFormatter p = (case init_vec p of (vec, err) \<Rightarrow>
     \<lparr>f_pattern = p, f_items = map entry_item vec, f_error = (err \<or> list_ex entry_bad vec)\<rparr>)"

definition default_pattern :: string where
  "default_pattern = ''%d{%Y-%m-%d %H:%M:%S}%T%t%T%N%T%F%T[%p]%T[%c]%T%f:%l%T%m%n''"

text \<open>
  The two overloads of LogFormatter::format: into a fresh string stream, and into a given stream,
  whose text so far is the argument \<open>ofs\<close>. Each item is rendered after the output of the ones
  before it.
\<close>

definition fmt_step :: "fmt_env \<Rightarrow> Level \<Rightarrow> event \<Rightarrow> fmt_item \<Rightarrow> string \<Rightarrow> string res" where
  "fmt_step env level e it os = rbind (item_format env level e it) (\<lambda>s. Inr (os @ s))"

definition format_str :: "fmt_env \<Rightarrow> formatter \<Rightarrow> Level \<Rightarrow> event \<Rightarrow> string res" where
  "format_str env fm level e = rfold (fmt_step env level e) (f_items fm) []"

definition format_os :: "fmt_env \<Rightarrow> string \<Rightarrow> formatter \<Rightarrow> Level \<Rightarrow> event \<Rightarrow> string res" where
  "format_os env ofs fm level e = rfold (fmt_step env level e) (f_items fm) ofs"

section \<open>The reference tokenizer\<close>

definition word_char :: "char \<Rightarrow> bool" where
  "word_char c = (isalpha c \<or> c = CHR ''}'')"

lemma length_after_braces: "length (dropWhile P (tl (dropWhile Q xs))) - Suc 0 \<le> length xs"
  using length_dropWhile_le [of P "tl (dropWhile Q xs)"] length_dropWhile_le [of Q xs]
  by (simp add: length_tl)

function tokens :: "string \<Rightarrow> string \<Rightarrow> entry list \<times> bool" where
  "tokens lit [] = (flush lit, False)"
| "tokens lit (c # cs) =
     (if c \<noteq> CHR ''%'' then tokens (lit @ [c]) cs
      else if cs \<noteq> [] \<and> hd cs = CHR ''%'' then tokens (lit @ ''%'') cs
      else (let w = takeWhile word_char cs; r = dropWhile word_char cs in
        if r \<noteq> [] \<and> hd r = CHR ''{'' then
          (if CHR ''}'' \<in> set (tl r) then
             (case tokens [] (tl (dropWhile (\<lambda>x. x \<noteq> CHR ''}'') (tl r))) of (es, e) \<Rightarrow>
                (flush lit @ (w, takeWhile (\<lambda>x. x \<noteq> CHR ''}'') (tl r), 1) # es, e))
           else (case tokens lit cs of (es, e) \<Rightarrow> ((pattern_error, [], 0) # es, True)))
        else (case tokens [] r of (es, e) \<Rightarrow> (flush lit @ (w, [], 1) # es, e))))"
  by pat_completeness auto

termination
  by (relation "measure (\<lambda>(lit, s). length s)")
    (simp_all add: less_Suc_eq_le length_dropWhile_le length_after_braces)

declare tokens.simps [simp del]

lemma tokens_lit: "c \<noteq> CHR ''%'' \<Longrightarrow> tokens lit (c # cs) = tokens (lit @ [c]) cs"
  by (simp add: tokens.simps(2))

lemma tokens_double: "tokens lit (CHR ''%'' # CHR ''%'' # cs) = tokens (lit @ ''%'') (CHR ''%'' # cs)"
  by (subst tokens.simps(2)) simp

lemma tokens_closed:
  assumes "\<not> (cs \<noteq> [] \<and> hd cs = CHR ''%'')" and "dropWhile word_char cs = CHR ''{'' # r"
    and "CHR ''}'' \<in> set r"
  shows "tokens lit (CHR ''%'' # cs) =
    (case tokens [] (tl (dropWhile (\<lambda>x. x \<noteq> CHR ''}'') r)) of (es, e) \<Rightarrow>
       (flush lit @ (takeWhile word_char cs, takeWhile (\<lambda>x. x \<noteq> CHR ''}'') r, 1) # es, e))"
  using assms by (subst tokens.simps(2)) auto

lemma tokens_open:
  assumes "\<not> (cs \<noteq> [] \<and> hd cs = CHR ''%'')" and "dropWhile word_char cs = CHR ''{'' # r"
    and "CHR ''}'' \<notin> set r"
  shows "tokens lit (CHR ''%'' # cs) =
    (case tokens lit cs of (es, e) \<Rightarrow> ((pattern_error, [], 0) # es, True))"
  using assms by (subst tokens.simps(2)) auto

lemma tokens_plain:
  assumes "\<not> (cs \<noteq> [] \<and> hd cs = CHR ''%'')"
    and "\<not> (dropWhile word_char cs \<noteq> [] \<and> hd (dropWhile word_char cs) = CHR ''{'')"
  shows "tokens lit (CHR ''%'' # cs) =
    (case tokens [] (dropWhile word_char cs) of (es, e) \<Rightarrow>
       (flush lit @ (takeWhile word_char cs, [], 1) # es, e))"
  using assms by (subst tokens.simps(2)) auto

section \<open>The parser is the tokenizer\<close>

text \<open>Inside the braces: the loop looks for the closing brace.\<close>

lemma scan_in_braces_found:
  assumes "pos \<le> length p" and "CHR ''}'' \<in> set (drop pos p)"
  shows "scan p i pos fb 1 ws fm =
    (let k = pos + length (takeWhile (\<lambda>x. x \<noteq> CHR ''}'') (drop pos p))
     in (k + 1, 0, ws, substr p (fb + 1) (k - fb - 1)))"
  using assms
proof (induction "length p - pos" arbitrary: pos)
  case 0
  then show ?case by simp
next
  case (Suc n)
  then have lt: "pos < length p" by simp
  then have d: "drop pos p = p ! pos # drop (Suc pos) p" by (simp add: Cons_nth_drop_Suc)
  show ?case
  proof (cases "p ! pos = CHR ''}''")
    case True
    with lt d show ?thesis by (subst scan.simps) simp
  next
    case False
    with Suc.prems d have in_rest: "CHR ''}'' \<in> set (drop (Suc pos) p)" by auto
    then have "Suc pos < length p" by (cases "Suc pos < length p") auto
    moreover from Suc.hyps(2) have "n = length p - Suc pos" by simp
    ultimately have "scan p i (Suc pos) fb 1 ws fm =
      (let k = Suc pos + length (takeWhile (\<lambda>x. x \<noteq> CHR ''}'') (drop (Suc pos) p))
       in (k + 1, 0, ws, substr p (fb + 1) (k - fb - 1)))"
      using Suc.hyps(1) in_rest by simp
    with False lt d \<open>Suc pos < length p\<close> show ?thesis
      by (subst scan.simps) simp
  qed
qed

lemma scan_in_braces_missing:
  assumes "pos \<le> length p" and "CHR ''}'' \<notin> set (drop pos p)"
  shows "\<exists>ws'. scan p i pos fb 1 ws fm = (length p, 1, ws', fm)"
  using assms
proof (induction "length p - pos" arbitrary: pos ws)
  case 0
  then show ?case by (subst scan.simps) simp
next
  case (Suc n)
  then have lt: "pos < length p" by simp
  then have d: "drop pos p = p ! pos # drop (Suc pos) p" by (simp add: Cons_nth_drop_Suc)
  have "n = length p - Suc pos" and "CHR ''}'' \<notin> set (drop (Suc pos) p)"
    and ne: "p ! pos \<noteq> CHR ''}''"
    using Suc.hyps(2) Suc.prems d by auto
  then have "\<exists>ws''. scan p i (Suc pos) fb 1 ws' fm = (length p, 1, ws'', fm)" for ws'
    using Suc.hyps(1) lt by simp
  with lt ne show ?case by (subst scan.simps) simp
qed

text \<open>Before a brace: the loop runs over the word.\<close>

lemma scan_word:
  assumes "i < pos" and "pos < length p"
    and "k = pos + length (takeWhile word_char (drop pos p))"
  shows "scan p i pos fb 0 [] fm =
    (if k < length p \<and> p ! k = CHR ''{'' then scan p i (k + 1) k 1 (substr p (i + 1) (k - i - 1)) fm
     else (k, 0, substr p (i + 1) (k - i - 1), fm))"
  using assms
proof (induction "length p - pos" arbitrary: pos)
  case 0
  then show ?case by simp
next
  case (Suc n)
  have d: "drop pos p = p ! pos # drop (Suc pos) p"
    using Suc.prems by (simp add: Cons_nth_drop_Suc)
  show ?case
  proof (cases "word_char (p ! pos)")
    case False
    with Suc.prems d have "k = pos" by simp
    with False Suc.prems show ?thesis
      by (subst scan.simps) (auto simp: word_char_def)
  next
    case True
    then have nb: "p ! pos \<noteq> CHR ''{''"
      by (auto simp: word_char_def isalpha_def letter_defs)
    from True d Suc.prems have k: "k = Suc pos + length (takeWhile word_char (drop (Suc pos) p))" by simp
    show ?thesis
    proof (cases "Suc pos < length p")
      case False
      with Suc.prems have end1: "Suc pos = length p" by simp
      with k have "k = length p" by simp
      moreover have "scan p i pos fb 0 [] fm = (length p, 0, substr_from p (i + 1), fm)"
        using True nb Suc.prems end1
        by (subst scan.simps, subst scan.simps) (simp add: word_char_def)
      ultimately show ?thesis by (simp add: substr_def substr_from_def)
    next
      case lt: True
      have "n = length p - Suc pos" using Suc.hyps(2) by simp
      note IH = Suc.hyps(1) [OF this less_SucI [OF Suc.prems(1)] lt k]
      have "scan p i pos fb 0 [] fm = scan p i (Suc pos) fb 0 [] fm"
        using True nb Suc.prems lt by (subst scan.simps) (auto simp: word_char_def)
      with IH show ?thesis by simp
    qed
  qed
qed

text \<open>One directive, by the shape of the text after its percent sign.\<close>

lemma substr_takeWhile:
  "k = j + length (takeWhile P (drop j p)) \<Longrightarrow> substr p j (k - j) = takeWhile P (drop j p)"
  by (simp add: substr_def takeWhile_eq_take [symmetric])

lemma drop_dropWhile:
  "k = j + length (takeWhile P (drop j p)) \<Longrightarrow> drop k p = dropWhile P (drop j p)"
  by (simp add: dropWhile_eq_drop [of P] add.commute)

lemma scan_directive:
  assumes "i < length p" and cs: "cs = drop (i + 1) p"
    and w: "w = takeWhile word_char cs" and r: "r = dropWhile word_char cs"
  shows "scan p i (i + 1) 0 0 [] [] =
    (if r \<noteq> [] \<and> hd r = CHR ''{'' then scan p i (i + length w + 2) (i + length w + 1) 1 w []
     else (i + length w + 1, 0, w, []))"
proof (cases "i + 1 < length p")
  case False
  with assms show ?thesis by (subst scan.simps) simp
next
  case True
  define k where "k = i + 1 + length (takeWhile word_char (drop (i + 1) p))"
  have kw: "k = i + length w + 1" by (simp add: k_def w cs)
  have sub: "substr p (i + 1) (k - i - 1) = w"
    using substr_takeWhile [OF k_def] by (simp add: w cs)
  have dr: "drop k p = r"
    using drop_dropWhile [OF k_def] by (simp add: r cs)
  then have guard: "(k < length p \<and> p ! k = CHR ''{'') = (r \<noteq> [] \<and> hd r = CHR ''{'')"
    by (metis drop_eq_Nil hd_drop_conv_nth linorder_not_le)
  from scan_word [OF _ True k_def, of i 0 "[]"] guard sub kw show ?thesis by simp
qed

lemma scan_directive_braces:
  assumes "i < length p" and cs: "cs = drop (i + 1) p"
    and w: "w = takeWhile word_char cs" and r: "r = dropWhile word_char cs"
    and brace: "r \<noteq> []" "hd r = CHR ''{''" and close: "CHR ''}'' \<in> set (tl r)"
  shows "\<exists>pos. scan p i (i + 1) 0 0 [] [] = (pos, 0, w, takeWhile (\<lambda>x. x \<noteq> CHR ''}'') (tl r)) \<and>
    drop pos p = tl (dropWhile (\<lambda>x. x \<noteq> CHR ''}'') (tl r)) \<and> i < pos \<and> pos \<le> length p"
proof -
  define j where "j = i + length w + 2"
  have dk: "drop (i + 1 + length w) p = r"
    using drop_dropWhile [of "i + 1 + length w" "i + 1" word_char p] by (simp add: w r cs)
  have dj: "drop j p = tl r"
    by (simp add: j_def dk [symmetric] drop_Suc [symmetric] tl_drop)
  have jl: "j \<le> length p"
    using close dj by (cases "j \<le> length p") auto
  define k where "k = j + length (takeWhile (\<lambda>x. x \<noteq> CHR ''}'') (drop j p))"
  have "scan p i (i + 1) 0 0 [] [] = scan p i j (j - 1) 1 w []"
    using scan_directive [OF assms(1) cs w r] brace by (simp add: j_def)
  also have "\<dots> = (k + 1, 0, w, substr p j (k - j))"
    using scan_in_braces_found [OF jl, of i "j - 1" w "[]"] close dj
    by (simp add: k_def j_def Let_def)
  also have "substr p j (k - j) = takeWhile (\<lambda>x. x \<noteq> CHR ''}'') (tl r)"
    using substr_takeWhile [OF k_def] dj by simp
  finally have sc: "scan p i (i + 1) 0 0 [] [] = (k + 1, 0, w, takeWhile (\<lambda>x. x \<noteq> CHR ''}'') (tl r))" .
  have dkk: "drop k p = dropWhile (\<lambda>x. x \<noteq> CHR ''}'') (tl r)"
    using drop_dropWhile [OF k_def] dj by simp
  then have "drop k p \<noteq> []" using close by (simp add: dropWhile_eq_Nil_conv)
  then have "k < length p" by simp
  moreover have "drop (k + 1) p = tl (drop k p)" by (simp add: drop_Suc tl_drop)
  ultimately show ?thesis using sc dkk by (auto simp: k_def j_def)
qed

lemma scan_directive_open:
  assumes "i < length p" and cs: "cs = drop (i + 1) p"
    and w: "w = takeWhile word_char cs" and r: "r = dropWhile word_char cs"
    and brace: "r \<noteq> []" "hd r = CHR ''{''" and close: "CHR ''}'' \<notin> set (tl r)"
  shows "\<exists>ws. scan p i (i + 1) 0 0 [] [] = (length p, 1, ws, [])"
proof -
  define j where "j = i + length w + 2"
  have dk: "drop (i + 1 + length w) p = r"
    using drop_dropWhile [of "i + 1 + length w" "i + 1" word_char p] by (simp add: w r cs)
  then have "i + 1 + length w < length p" using brace(1) by (metis drop_eq_Nil not_le)
  then have jl: "j \<le> length p" by (simp add: j_def)
  have dj: "drop j p = tl r"
    by (simp add: j_def dk [symmetric] drop_Suc [symmetric] tl_drop)
  have "scan p i (i + 1) 0 0 [] [] = scan p i j (j - 1) 1 w []"
    using scan_directive [OF assms(1) cs w r] brace by (simp add: j_def)
  with scan_in_braces_missing [OF jl, of i "j - 1" w "[]"] close dj show ?thesis by simp
qed

abbreviation finish :: "entry list \<times> string \<times> bool \<Rightarrow> entry list \<times> bool" where
  "finish x \<equiv> (case x of (vec, str, err) \<Rightarrow> (vec @ flush str, err))"

abbreviation prepend :: "entry list \<Rightarrow> bool \<Rightarrow> entry list \<times> bool \<Rightarrow> entry list \<times> bool" where
  "prepend vec err x \<equiv> (case x of (es, e) \<Rightarrow> (vec @ es, err \<or> e))"

text \<open>One turn of the outer loop, by the shape of the rest of the pattern.\<close>

lemma init_loop_lit:
  assumes "drop i p = c # cs" and "c \<noteq> CHR ''%''"
  shows "init_loop p i str vec err = init_loop p (i + 1) (str @ [c]) vec err"
proof -
  from assms(1) have "i < length p" and "p ! i = c"
    by (auto simp: Cons_nth_drop_Suc intro: ccontr dest: nth_via_drop)
  with assms(2) show ?thesis by (subst init_loop.simps) simp
qed

lemma init_loop_double:
  assumes "drop i p = CHR ''%'' # CHR ''%'' # cs"
  shows "init_loop p i str vec err = init_loop p (i + 1) (str @ ''%'') vec err"
proof -
  from assms have "drop (i + 1) p = CHR ''%'' # cs" by (metis add.commute drop_drop drop_Suc drop0 list.sel(3) plus_1_eq_Suc)
  then have "i + 1 < length p" and "p ! (i + 1) = CHR ''%''"
    by (auto intro: ccontr dest: nth_via_drop)
  moreover from assms have "p ! i = CHR ''%''" by (rule nth_via_drop)
  ultimately show ?thesis by (subst init_loop.simps) simp
qed

lemma init_loop_directive:
  assumes d: "drop i p = CHR ''%'' # cs" and single: "\<not> (cs \<noteq> [] \<and> hd cs = CHR ''%'')"
  shows "init_loop p i str vec err =
    (case scan p i (i + 1) 0 0 [] [] of (pos, st, ws, fm) \<Rightarrow>
       if st = 0 then init_loop p pos [] (vec @ flush str @ [(ws, fm, 1)]) err
       else init_loop p (i + 1) str (vec @ [(pattern_error, fm, 0)]) True)"
proof -
  from d have lt: "i < length p" and pc: "p ! i = CHR ''%''"
    by (auto intro: ccontr dest: nth_via_drop)
  from d have cs: "cs = drop (i + 1) p" by (metis add.commute drop_drop drop_Suc drop0 list.sel(3) plus_1_eq_Suc)
  have "\<not> (i + 1 < length p \<and> p ! (i + 1) = CHR ''%'')"
    using single unfolding cs by (metis drop_eq_Nil hd_drop_conv_nth linorder_not_le)
  with lt pc show ?thesis by (subst init_loop.simps) auto
qed

lemma init_loop_tokens:
  "i \<le> length p \<Longrightarrow> finish (init_loop p i str vec err) = prepend vec err (tokens str (drop i p))"
proof (induction "length p - i" arbitrary: i str vec err rule: less_induct)
  case less
  show ?case
  proof (cases "drop i p")
    case Nil
    with less.prems show ?thesis by (subst init_loop.simps) (simp add: tokens.simps)
  next
    case (Cons c cs)
    then have lt: "i < length p" by (auto intro: ccontr)
    from Cons have cs: "cs = drop (i + 1) p"
      by (metis add.commute drop_drop drop_Suc drop0 list.sel(3) plus_1_eq_Suc)
    note IH = less.hyps [rule_format]
    define w where "w = takeWhile word_char cs"
    define r where "r = dropWhile word_char cs"
    note ex = lt cs w_def r_def
    consider (lit) "c \<noteq> CHR ''%''"
      | (double) cs' where "c = CHR ''%''" "cs = CHR ''%'' # cs'"
      | (single) "c = CHR ''%''" "\<not> (cs \<noteq> [] \<and> hd cs = CHR ''%'')"
      by (cases cs) auto
    then show ?thesis
    proof cases
      case lit
      with Cons IH [of "i + 1" "str @ [c]" vec err] lt cs show ?thesis
        by (simp add: init_loop_lit tokens_lit)
    next
      case double
      note d = Cons [unfolded double]
      from double cs have "drop (i + 1) p = CHR ''%'' # cs'" by simp
      with IH [of "i + 1" "str @ ''%''" vec err] lt show ?thesis
        by (simp add: d init_loop_double [OF d] tokens_double)
    next
      case single
      note d = Cons [unfolded single(1)]
      note turn = init_loop_directive [OF d single(2), of str vec err]
      consider (closed) t where "r = CHR ''{'' # t" "CHR ''}'' \<in> set t"
        | (opened) t where "r = CHR ''{'' # t" "CHR ''}'' \<notin> set t"
        | (plain) "\<not> (r \<noteq> [] \<and> hd r = CHR ''{'')"
        by (cases r) auto
      then show ?thesis
      proof cases
        case closed
        then obtain pos where "scan p i (i + 1) 0 0 [] [] = (pos, 0, w, takeWhile (\<lambda>x. x \<noteq> CHR ''}'') t)"
          and "drop pos p = tl (dropWhile (\<lambda>x. x \<noteq> CHR ''}'') t)" and "i < pos" and "pos \<le> length p"
          using scan_directive_braces [OF ex] by auto
        with turn d IH [of pos "[]" "vec @ flush str @ [(w, takeWhile (\<lambda>x. x \<noteq> CHR ''}'') t, 1)]" err] lt
        show ?thesis
          by (simp add: tokens_closed [OF single(2) closed(1) [unfolded r_def] closed(2)] w_def split: prod.splits)
      next
        case opened
        then obtain ws where "scan p i (i + 1) 0 0 [] [] = (length p, 1, ws, [])"
          using scan_directive_open [OF ex] by auto
        with turn d IH [of "i + 1" str "vec @ [(pattern_error, [], 0)]" True] lt cs
          tokens_open [OF single(2) opened(1) [unfolded r_def] opened(2), of str]
        show ?thesis by (simp split: prod.splits)
      next
        case plain
        then have "scan p i (i + 1) 0 0 [] [] = (i + length w + 1, 0, w, [])"
          unfolding scan_directive [OF ex] by (simp only: if_False)
        moreover have "drop (i + length w + 1) p = r"
          using drop_dropWhile [of "i + 1 + length w" "i + 1" word_char p] by (simp add: w_def r_def cs)
        moreover have "i + length w + 1 \<le> length p"
          using length_takeWhile_le [of word_char cs] lt by (simp add: w_def cs)
        ultimately show ?thesis
          using turn d IH [of "i + length w + 1" "[]" "vec @ flush str @ [(w, [], 1)]" err] lt
            tokens_plain [OF single(2) plain [unfolded r_def], of str]
          by (simp add: w_def r_def split: prod.splits)
      qed
    qed
  qed
qed

lemma init_vec_tokens: "init_vec p = tokens [] p"
  using init_loop_tokens [of 0 p "[]" "[]" False] by (simp add: init_vec_def split: prod.splits)

section \<open>Consequences for the formatter\<close>

lemma LogFormatter_tokens:
  "LogFormatter p = (case tokens [] p of (es, err) \<Rightarrow>
     \<lparr>f_pattern = p, f_items = map entry_item es, f_error = (err \<or> list_ex entry_bad es)\<rparr>)"
  by (simp add: LogFormatter_def init_vec_tokens)

lemma LogFormatter_pattern [simp]: "f_pattern (LogFormatter p) = p"
  by (simp add: LogFormatter_def split: prod.splits)

text \<open>A pattern that parses is not reported.\<close>

lemma parse_report_quiet: "\<not> f_error (LogFormatter p) \<Longrightarrow> parse_report p = []"
proof -
  assume ok: "\<not> f_error (LogFormatter p)"
  obtain v u e where l: "init_loop p 0 [] [] False = (v, u, e)" by (cases "init_loop p 0 [] [] False")
  with ok have "\<not> e" by (simp add: LogFormatter_def init_vec_def)
  with init_report_error [OF l] show ?thesis by (simp add: parse_report_def)
qed

lemma tokens_text: "CHR ''%'' \<notin> set s \<Longrightarrow> tokens lit (s @ cs) = tokens (lit @ s) cs"
  by (induction s arbitrary: lit) (auto simp: tokens_lit)

lemma tokens_nil [simp]: "tokens lit [] = (flush lit, False)"
  by (simp add: tokens.simps)

text \<open>Writing entries back as a pattern, and the entries for which this is unambiguous.\<close>

definition entry_text :: "entry \<Rightarrow> string" where
  "entry_text x = (case x of (s, f, t) \<Rightarrow>
     if t = 0 then s else ''%'' @ s @ (if f = [] then [] else ''{'' @ f @ ''}''))"

fun entries_wf :: "entry list \<Rightarrow> bool" where
  "entries_wf [] = True"
| "entries_wf ((s, f, t) # es) =
     ((if t = 0 then s \<noteq> [] \<and> f = [] \<and> CHR ''%'' \<notin> set s \<and> (case es of [] \<Rightarrow> True | (_, _, t') # _ \<Rightarrow> t' \<noteq> 0)
      else t = 1 \<and> s \<noteq> [] \<and> list_all isalpha s \<and> CHR ''}'' \<notin> set f \<and>
        (f = [] \<longrightarrow> (case es of [] \<Rightarrow> True
                   | (s', _, t') # _ \<Rightarrow> t' = 0 \<longrightarrow> \<not> word_char (hd s') \<and> hd s' \<noteq> CHR ''{''))) \<and>
      entries_wf es)"

lemma isalpha_not_special:
  "isalpha c \<Longrightarrow> c \<noteq> CHR ''%'' \<and> c \<noteq> CHR ''{'' \<and> c \<noteq> CHR ''}''"
  by (auto simp: isalpha_def letter_defs)

lemma takeWhile_word:
  assumes "list_all isalpha s" and "cs = [] \<or> \<not> word_char (hd cs)"
  shows "takeWhile word_char (s @ cs) = s" and "dropWhile word_char (s @ cs) = cs"
proof -
  have "\<forall>c \<in> set s. word_char c" using assms(1) by (auto simp: list_all_iff word_char_def)
  moreover have "takeWhile word_char cs = []" "dropWhile word_char cs = cs"
    using assms(2) by (cases cs; simp)+
  ultimately show "takeWhile word_char (s @ cs) = s" and "dropWhile word_char (s @ cs) = cs"
    by (simp_all add: takeWhile_append2 dropWhile_append2)
qed

lemma alpha_word_single:
  "list_all isalpha s \<Longrightarrow> s \<noteq> [] \<Longrightarrow> \<not> (s @ cs \<noteq> [] \<and> hd (s @ cs) = CHR ''%'')"
  by (cases s) (auto dest: isalpha_not_special)

lemma tokens_directive:
  assumes "list_all isalpha s" and "s \<noteq> []"
    and "cs = [] \<or> (\<not> word_char (hd cs) \<and> hd cs \<noteq> CHR ''{'')"
  shows "tokens lit (''%'' @ s @ cs) = (case tokens [] cs of (es, e) \<Rightarrow> (flush lit @ (s, [], 1) # es, e))"
proof -
  have tw: "takeWhile word_char (s @ cs) = s" "dropWhile word_char (s @ cs) = cs"
    using takeWhile_word assms by blast+
  from tokens_plain [OF alpha_word_single [OF assms(1,2)], of cs lit] tw assms(3)
  show ?thesis by auto
qed

lemma tokens_directive_braces:
  assumes "list_all isalpha s" and "s \<noteq> []" and "CHR ''}'' \<notin> set f"
  shows "tokens lit (''%'' @ s @ ''{'' @ f @ ''}'' @ cs) =
    (case tokens [] cs of (es, e) \<Rightarrow> (flush lit @ (s, f, 1) # es, e))"
proof -
  let ?r = "f @ ''}'' @ cs"
  have "\<not> word_char CHR ''{''" by (simp add: word_char_def isalpha_def letter_defs)
  then have tw: "takeWhile word_char (s @ CHR ''{'' # ?r) = s" "dropWhile word_char (s @ CHR ''{'' # ?r) = CHR ''{'' # ?r"
    using takeWhile_word [OF assms(1), of "CHR ''{'' # ?r"] by auto
  have "\<forall>x \<in> set f. x \<noteq> CHR ''}''" using assms(3) by auto
  then have "takeWhile (\<lambda>x. x \<noteq> CHR ''}'') ?r = f" "dropWhile (\<lambda>x. x \<noteq> CHR ''}'') ?r = ''}'' @ cs"
    by (simp_all add: takeWhile_append2 dropWhile_append2)
  with tokens_closed [OF alpha_word_single [OF assms(1,2)] tw(2), of lit] tw(1)
  show ?thesis by simp
qed

lemma entry_text_simps [simp]:
  "entry_text (s, f, 0) = s"
  "entry_text (s, f, Suc n) = ''%'' @ s @ (if f = [] then [] else ''{'' @ f @ ''}'')"
  by (simp_all add: entry_text_def)

text \<open>Parsing inverts writing.\<close>

lemma percent_not_word: "\<not> word_char CHR ''%''"
  by (simp add: word_char_def isalpha_def letter_defs)

lemma entries_wf_next:
  assumes "entries_wf ((s, [], Suc n) # es)"
  shows "concat (map entry_text es) = [] \<or>
    (\<not> word_char (hd (concat (map entry_text es))) \<and> hd (concat (map entry_text es)) \<noteq> CHR ''{'')"
proof (cases es)
  case (Cons y es')
  obtain s' f' t' where y: "y = (s', f', t')" by (cases y)
  show ?thesis
  proof (cases t')
    case 0
    with assms Cons y show ?thesis by (cases s') auto
  next
    case (Suc m)
    with Cons y show ?thesis by (simp add: percent_not_word)
  qed
qed simp

lemma tokens_entry_text:
  assumes "entries_wf es" and "lit = [] \<or> (case es of [] \<Rightarrow> True | (_, _, t') # _ \<Rightarrow> t' \<noteq> 0)"
  shows "tokens lit (concat (map entry_text es)) = (flush lit @ es, False)"
  using assms
proof (induction es arbitrary: lit)
  case Nil
  then show ?case by simp
next
  case (Cons x es)
  obtain s f t where x: "x = (s, f, t)" by (cases x)
  let ?rest = "concat (map entry_text es)"
  show ?case
  proof (cases t)
    case 0
    with Cons.prems x have s: "lit = []" "s \<noteq> []" "f = []" "CHR ''%'' \<notin> set s" "entries_wf es"
      and nx: "case es of [] \<Rightarrow> True | (_, _, t') # _ \<Rightarrow> t' \<noteq> 0" by auto
    with Cons.IH [of s] x 0 show ?thesis by (simp add: tokens_text flush_def)
  next
    case (Suc n)
    with Cons.prems x have t: "n = 0" and s: "s \<noteq> []" "list_all isalpha s" "CHR ''}'' \<notin> set f" and es: "entries_wf es"
      by auto
    from es Cons.IH [of "[]"] have IH: "tokens [] ?rest = (es, False)" by (simp add: flush_def)
    show ?thesis
    proof (cases "f = []")
      case False
      with tokens_directive_braces [OF s(2,1,3), of lit ?rest] IH x Suc t show ?thesis by simp
    next
      case True
      with Cons.prems x Suc have "entries_wf ((s, [], Suc n) # es)" by simp
      from tokens_directive [OF s(2,1) entries_wf_next [OF this], of lit] IH x Suc t True
      show ?thesis by simp
    qed
  qed
qed

text \<open>
  A percent sign not followed by a letter, a closing brace or another percent sign never forms a
  known directive: the parser reads an empty key there.
\<close>

lemma s_format_items_empty [simp]: "s_format_items [] = None"
  by (simp add: s_format_items_def)

lemma tokens_bare_percent:
  assumes "cs = [] \<or> (\<not> word_char (hd cs) \<and> hd cs \<noteq> CHR ''%'')"
  shows "case tokens lit (CHR ''%'' # cs) of (es, err) \<Rightarrow> err \<or> list_ex entry_bad es"
proof -
  have single: "\<not> (cs \<noteq> [] \<and> hd cs = CHR ''%'')" using assms by auto
  have tw: "takeWhile word_char cs = []" "dropWhile word_char cs = cs"
    using assms by (cases cs; auto)+
  consider (opened) r where "cs = CHR ''{'' # r" "CHR ''}'' \<notin> set r"
    | (closed) r where "cs = CHR ''{'' # r" "CHR ''}'' \<in> set r"
    | (plain) "\<not> (cs \<noteq> [] \<and> hd cs = CHR ''{'')"
    by (cases cs) auto
  then show ?thesis
  proof cases
    case opened
    with tw tokens_open [OF single, of r lit] show ?thesis by (simp split: prod.splits)
  next
    case closed
    with tw tokens_closed [OF single, of r lit] show ?thesis by (simp add: entry_bad_def split: prod.splits)
  next
    case plain
    with tw tokens_plain [OF single, of lit] show ?thesis by (simp add: entry_bad_def split: prod.splits)
  qed
qed

lemma double_percent_is_error:
  assumes "CHR ''%'' \<notin> set s" and "cs = [] \<or> (\<not> word_char (hd cs) \<and> hd cs \<noteq> CHR ''%'')"
  shows "f_error (LogFormatter (s @ ''%%'' @ cs))"
  using tokens_bare_percent [OF assms(2), of "s @ ''%''"]
  by (simp add: LogFormatter_tokens tokens_text [OF assms(1)] tokens_double split: prod.splits)

text \<open>
  A brace that is never closed: the error entry is pushed before the text that stands in front of
  the directive, and the directive itself comes out as text.
\<close>

lemma unclosed_brace_items:
  assumes "CHR ''%'' \<notin> set s" and "list_all isalpha w" and "w \<noteq> []"
    and "CHR ''%'' \<notin> set r" and "CHR ''}'' \<notin> set r"
  shows "tokens [] (s @ ''%'' @ w @ ''{'' @ r) = ([(pattern_error, [], 0), (s @ w @ ''{'' @ r, [], 0)], True)"
proof -
  let ?cs = "w @ CHR ''{'' # r"
  have nb: "\<not> word_char CHR ''{''" by (simp add: word_char_def isalpha_def letter_defs)
  then have tw: "dropWhile word_char ?cs = CHR ''{'' # r"
    using takeWhile_word(2) [OF assms(2), of "CHR ''{'' # r"] by simp
  have "CHR ''%'' \<notin> set ?cs"
    using assms(2,4) by (auto simp: list_all_iff dest: isalpha_not_special)
  then have "tokens s ?cs = (flush (s @ ?cs), False)"
    using tokens_text [of ?cs s "[]"] by simp
  moreover have "tokens s (CHR ''%'' # ?cs) = (case tokens s ?cs of (es, e) \<Rightarrow> ((pattern_error, [], 0) # es, True))"
    using tokens_open [OF alpha_word_single [OF assms(2,3)] tw assms(5)] .
  ultimately show ?thesis
    using tokens_text [OF assms(1), of "[]" "CHR ''%'' # ?cs"] assms(3) by (simp add: flush_def)
qed

text \<open>Rendering into a stream appends what rendering into a string gives.\<close>

lemma rfold_fmt_step:
  "rfold (fmt_step env level e) its os = rbind (rfold (fmt_step env level e) its []) (\<lambda>s. Inr (os @ s))"
proof (induction its arbitrary: os)
  case Nil
  then show ?case by simp
next
  case (Cons it its)
  show ?case
  proof (cases "item_format env level e it")
    case (Inl x)
    then show ?thesis by (simp add: fmt_step_def)
  next
    case (Inr s)
    have "rfold (fmt_step env level e) its (os @ s) =
        rbind (rfold (fmt_step env level e) its []) (\<lambda>u. Inr ((os @ s) @ u))"
      by (rule Cons.IH)
    moreover have "rfold (fmt_step env level e) its s =
        rbind (rfold (fmt_step env level e) its []) (\<lambda>u. Inr (s @ u))"
      by (rule Cons.IH)
    moreover have "fmt_step env level e it u = Inr (u @ s)" for u
      using Inr by (simp add: fmt_step_def)
    ultimately show ?thesis
      by (cases "rfold (fmt_step env level e) its []") simp_all
  qed
qed

lemma format_os_format_str: "format_os env ofs fm level e = rbind (format_str env fm level e) (\<lambda>s. Inr (ofs @ s))"
  unfolding format_os_def format_str_def by (rule rfold_fmt_step)

lemma default_pattern_items:
  "LogFormatter default_pattern =
     \<lparr>f_pattern = default_pattern,
      f_items = [DateTimeFormatItem default_date, TabFormatItem, ThreadIdFormatItem, TabFormatItem,
        ThreadNameFormatItem, TabFormatItem, FiberIdFormatItem, TabFormatItem, StringFormatItem ''['',
        LevelFormatItem, StringFormatItem '']'', TabFormatItem, StringFormatItem ''['', NameFormatItem,
        StringFormatItem '']'', TabFormatItem, FilenameFormatItem, StringFormatItem '':'', LineFormatItem,
        TabFormatItem, MessageFormatItem, NewLineFormatItem],
      f_error = False\<rparr>"
  by code_simp

section \<open>Properties\<close>

text \<open>
  C1. LogFormatter::init parses by its specification: for every pattern, the index-driven parser
  with its two nested loops ends and collects exactly the entries, and exactly the error flag, that
  the reference tokenizer reads off the pattern from left to right.
\<close>

theorem parser_is_tokenizer: "init_vec p = tokens [] p"
  by (rule init_vec_tokens)

text \<open>
  C21. Patterns round-trip: writing a well-formed list of literal texts and directives as a pattern
  and constructing a LogFormatter from it gives one item per entry, in order, and the error flag is
  set exactly when some directive is not in the table of format items.
\<close>

theorem pattern_roundtrip:
  assumes "entries_wf es"
  shows "LogFormatter (concat (map entry_text es)) =
    \<lparr>f_pattern = concat (map entry_text es), f_items = map entry_item es, f_error = list_ex entry_bad es\<rparr>"
  using tokens_entry_text [OF assms, of "[]"] by (simp add: LogFormatter_tokens flush_def)

theorem pattern_roundtrip_witness:
  "f_items (LogFormatter ''[%p] %d{%H:%M}%n'') =
     [StringFormatItem ''['', LevelFormatItem, StringFormatItem ''] '', DateTimeFormatItem ''%H:%M'', NewLineFormatItem]"
proof -
  let ?es = "[(''['', [], 0), (''p'', [], 1), (''] '', [], 0), (''d'', ''%H:%M'', 1), (''n'', [], 1)]"
  have "entries_wf ?es" by code_simp
  from pattern_roundtrip [OF this] have "f_items (LogFormatter (concat (map entry_text ?es))) = map entry_item ?es"
    by simp
  moreover have "concat (map entry_text ?es) = ''[%p] %d{%H:%M}%n''" by code_simp
  moreover have "map entry_item ?es =
    [StringFormatItem ''['', LevelFormatItem, StringFormatItem ''] '', DateTimeFormatItem ''%H:%M'', NewLineFormatItem]"
    by code_simp
  ultimately show ?thesis by simp
qed

definition demo_event :: event where
  "demo_event = ev_write ''hello'' (mk_event (Some 0) INFO ''a.cpp'' 7 0 12 3 99 ''main'')"

text \<open>
  C40. Two errors of patterns that the comments of the parser do not announce. A double percent sign is
  not an escape: a pattern in which it is followed by the end, or by anything but a letter, a closing
  brace or a further percent sign, has its error flag set. For an opening brace that is never closed
  the formatter is in error, the error text stands in front of the text that precedes the directive,
  and the directive itself is printed as text.
\<close>

theorem pattern_errors:
  assumes "CHR ''%'' \<notin> set s"
  shows "(cs = [] \<or> (\<not> word_char (hd cs) \<and> hd cs \<noteq> CHR ''%'') \<longrightarrow> f_error (LogFormatter (s @ ''%%'' @ cs))) \<and>
    (list_all isalpha w \<and> w \<noteq> [] \<and> CHR ''%'' \<notin> set r \<and> CHR ''}'' \<notin> set r \<longrightarrow>
      LogFormatter (s @ ''%'' @ w @ ''{'' @ r) =
        \<lparr>f_pattern = s @ ''%'' @ w @ ''{'' @ r,
         f_items = [StringFormatItem pattern_error, StringFormatItem (s @ w @ ''{'' @ r)], f_error = True\<rparr>)"
proof (intro conjI impI)
  show "f_error (LogFormatter (s @ ''%%'' @ cs))" if "cs = [] \<or> (\<not> word_char (hd cs) \<and> hd cs \<noteq> CHR ''%'')"
    using assms that by (rule double_percent_is_error)
next
  assume w: "list_all isalpha w \<and> w \<noteq> [] \<and> CHR ''%'' \<notin> set r \<and> CHR ''}'' \<notin> set r"
  show "LogFormatter (s @ ''%'' @ w @ ''{'' @ r) =
      \<lparr>f_pattern = s @ ''%'' @ w @ ''{'' @ r,
       f_items = [StringFormatItem pattern_error, StringFormatItem (s @ w @ ''{'' @ r)], f_error = True\<rparr>"
    unfolding LogFormatter_tokens using unclosed_brace_items [of s w r] assms w by (simp add: entry_item_def)
qed

theorem pattern_errors_witness:
  "f_error (LogFormatter ''100%% of %m'') \<and>
   f_items (LogFormatter ''at %d{now'') = [StringFormatItem pattern_error, StringFormatItem ''at d{now'']"
  using pattern_errors [of "''100''" "'' of %m''"] pattern_errors [of "''at ''" _ "''d''" "''now''"]
  by (simp add: word_char_def isalpha_def letter_defs)

end
