(* ===== verification/Locks.thy ===== *)
theory Locks
  imports Prelude
begin

text \<open>
  The lock classes of thread.h: Mutex, NullMutex, RWMutex, NullRWMutex, Spinlock, CASLock, and the
  scoped guards ScopedLockImpl, ReadScopedLockImpl and WriteScopedLockImpl. A lock is the state of
  its pthread object as one thread sees it; an acquisition gives None where the call does not return
  unless another thread acts. The guards are verified once, against the laws of two locales, and
  the locales are interpreted on every lock class.
\<close>

section \<open>The lock classes\<close>

text \<open>A default pthread mutex: a second lock by the owner blocks.\<close>

definition Mutex_init :: bool where
  "Mutex_init = False"

definition Mutex_lock :: "bool \<Rightarrow> bool option" where
  "Mutex_lock locked = (if locked then None else Some True)"

definition Mutex_unlock :: "bool \<Rightarrow> bool" where
  "Mutex_unlock locked = False"

definition Spinlock_init :: bool where
  [simp]: "Spinlock_init = False"

definition Spinlock_lock :: "bool \<Rightarrow> bool option" where
  "Spinlock_lock locked = (if locked then None else Some True)"

definition Spinlock_unlock :: "bool \<Rightarrow> bool" where
  "Spinlock_unlock locked = False"

definition NullMutex_lock :: "unit \<Rightarrow> unit option" where
  "NullMutex_lock m = Some m"

definition NullMutex_unlock :: "unit \<Rightarrow> unit" where
  "NullMutex_unlock m = m"

text \<open>pthread_rwlock_t: the number of read holds, and whether it is held for writing.\<close>

record rwlock =
  rw_readers :: nat
  rw_writer :: bool

definition RWMutex_init :: rwlock where
  "RWMutex_init = \<lparr>rw_readers = 0, rw_writer = False\<rparr>"

definition RWMutex_rdlock :: "rwlock \<Rightarrow> rwlock option" where
  "RWMutex_rdlock m = (if rw_writer m then None else Some (m\<lparr>rw_readers := rw_readers m + 1\<rparr>))"

definition RWMutex_wrlock :: "rwlock \<Rightarrow> rwlock option" where
  "RWMutex_wrlock m =
     (if rw_writer m \<or> rw_readers m \<noteq> 0 then None else Some (m\<lparr>rw_writer := True\<rparr>))"

definition RWMutex_unlock :: "rwlock \<Rightarrow> rwlock" where
  "RWMutex_unlock m =
     (if rw_writer m then m\<lparr>rw_writer := False\<rparr> else m\<lparr>rw_readers := rw_readers m - 1\<rparr>)"

definition NullRWMutex_rdlock :: "unit \<Rightarrow> unit option" where
  "NullRWMutex_rdlock m = Some m"

definition NullRWMutex_wrlock :: "unit \<Rightarrow> unit option" where
  "NullRWMutex_wrlock m = Some m"

definition NullRWMutex_unlock :: "unit \<Rightarrow> unit" where
  "NullRWMutex_unlock m = m"

text \<open>
  CASLock: test-and-set returns the old value of the flag and sets it; lock repeats it while the
  old value was set. With no other thread to clear the flag the loop may run forever, which is the
  value None.
\<close>

definition atomic_flag_test_and_set :: "bool \<Rightarrow> bool \<times> bool" where
  "atomic_flag_test_and_set flag = (flag, True)"

definition CASLock_init :: bool where
  "CASLock_init = False"

partial_function (option) CASLock_lock :: "bool \<Rightarrow> bool option" where
  "CASLock_lock flag =
     (case atomic_flag_test_and_set flag of (old, flag') \<Rightarrow>
        if old then CASLock_lock flag' else Some flag')"

definition CASLock_unlock :: "bool \<Rightarrow> bool" where
  "CASLock_unlock flag = False"

lemma CASLock_lock_free: "CASLock_lock False = Some True"
  by (subst CASLock_lock.simps) (simp add: atomic_flag_test_and_set_def)

lemma CASLock_lock_returns:
  assumes "CASLock_lock flag = Some r"
  shows "\<not> flag \<and> r"
proof (rule CASLock_lock.raw_induct [where P = "\<lambda>flag r. \<not> flag \<and> r", OF _ assms])
  fix f flag r
  assume IH: "\<And>flag r. f flag = Some r \<Longrightarrow> \<not> flag \<and> r"
    and eq: "(case atomic_flag_test_and_set flag of (old, flag') \<Rightarrow> if old then f flag' else Some flag') = Some r"
  show "\<not> flag \<and> r"
    using eq IH [of True r] by (auto simp: atomic_flag_test_and_set_def split: if_splits)
qed

lemma CASLock_lock_held: "CASLock_lock True = None"
  using CASLock_lock_returns [of True] by (cases "CASLock_lock True") auto

section \<open>Scoped guards\<close>

text \<open>
  A guard holds a reference to a mutex, here the mutex's state, and the flag m_locked. The three
  class templates differ only in the acquiring method they call: lock, rdlock or wrlock.
\<close>

record 'm guard =
  g_mutex :: 'm
  g_locked :: bool

definition ScopedLockImpl :: "('m \<Rightarrow> 'm option) \<Rightarrow> 'm \<Rightarrow> 'm guard option" where
  "ScopedLockImpl lock m = map_option (\<lambda>m'. \<lparr>g_mutex = m', g_locked = True\<rparr>) (lock m)"

definition ScopedLockImpl_lock :: "('m \<Rightarrow> 'm option) \<Rightarrow> 'm guard \<Rightarrow> 'm guard option" where
  "ScopedLockImpl_lock lock g =
     (if \<not> g_locked g then map_option (\<lambda>m'. \<lparr>g_mutex = m', g_locked = True\<rparr>) (lock (g_mutex g))
      else Some g)"

definition ScopedLockImpl_unlock :: "('m \<Rightarrow> 'm) \<Rightarrow> 'm guard \<Rightarrow> 'm guard" where
  "ScopedLockImpl_unlock unlock g =
     (if g_locked g then \<lparr>g_mutex = unlock (g_mutex g), g_locked = False\<rparr> else g)"

definition ScopedLockImpl_dtor :: "('m \<Rightarrow> 'm) \<Rightarrow> 'm guard \<Rightarrow> 'm" where
  "ScopedLockImpl_dtor unlock g = g_mutex (ScopedLockImpl_unlock unlock g)"

text \<open>The methods of a read-write mutex class, and the two guards over them.\<close>

record 'm rw_class =
  m_rdlock :: "'m \<Rightarrow> 'm option"
  m_wrlock :: "'m \<Rightarrow> 'm option"
  m_unlock :: "'m \<Rightarrow> 'm"

definition RWMutex :: "rwlock rw_class" where
  "RWMutex = \<lparr>m_rdlock = RWMutex_rdlock, m_wrlock = RWMutex_wrlock, m_unlock = RWMutex_unlock\<rparr>"

definition NullRWMutex :: "unit rw_class" where
  "NullRWMutex = \<lparr>m_rdlock = NullRWMutex_rdlock, m_wrlock = NullRWMutex_wrlock, m_unlock = NullRWMutex_unlock\<rparr>"

definition ReadScopedLockImpl :: "'m rw_class \<Rightarrow> 'm \<Rightarrow> 'm guard option" where
  "ReadScopedLockImpl c m = ScopedLockImpl (m_rdlock c) m"

definition ReadScopedLockImpl_lock :: "'m rw_class \<Rightarrow> 'm guard \<Rightarrow> 'm guard option" where
  "ReadScopedLockImpl_lock c g = ScopedLockImpl_lock (m_rdlock c) g"

definition ReadScopedLockImpl_unlock :: "'m rw_class \<Rightarrow> 'm guard \<Rightarrow> 'm guard" where
  "ReadScopedLockImpl_unlock c g = ScopedLockImpl_unlock (m_unlock c) g"

definition ReadScopedLockImpl_dtor :: "'m rw_class \<Rightarrow> 'm guard \<Rightarrow> 'm" where
  "ReadScopedLockImpl_dtor c g = g_mutex (ReadScopedLockImpl_unlock c g)"

definition WriteScopedLockImpl :: "'m rw_class \<Rightarrow> 'm \<Rightarrow> 'm guard option" where
  "WriteScopedLockImpl c m = ScopedLockImpl (m_wrlock c) m"

definition WriteScopedLockImpl_lock :: "'m rw_class \<Rightarrow> 'm guard \<Rightarrow> 'm guard option" where
  "WriteScopedLockImpl_lock c g = ScopedLockImpl_lock (m_wrlock c) g"

definition WriteScopedLockImpl_unlock :: "'m rw_class \<Rightarrow> 'm guard \<Rightarrow> 'm guard" where
  "WriteScopedLockImpl_unlock c g = ScopedLockImpl_unlock (m_unlock c) g"

definition WriteScopedLockImpl_dtor :: "'m rw_class \<Rightarrow> 'm guard \<Rightarrow> 'm" where
  "WriteScopedLockImpl_dtor c g = g_mutex (WriteScopedLockImpl_unlock c g)"

text \<open>A body that calls lock and unlock on its guard any number of times.\<close>

datatype guard_call = Call_lock | Call_unlock

fun guard_body :: "('g \<Rightarrow> 'g option) \<Rightarrow> ('g \<Rightarrow> 'g) \<Rightarrow> guard_call list \<Rightarrow> 'g \<Rightarrow> 'g option" where
  "guard_body lock unlock [] g = Some g"
| "guard_body lock unlock (Call_lock # cs) g = Option.bind (lock g) (guard_body lock unlock cs)"
| "guard_body lock unlock (Call_unlock # cs) g = guard_body lock unlock cs (unlock g)"

text \<open>A scope: construct the guard, run the body, destroy the guard; for each of the three guards.\<close>

definition scope :: "('m \<Rightarrow> 'm option) \<Rightarrow> ('m \<Rightarrow> 'm) \<Rightarrow> guard_call list \<Rightarrow> 'm \<Rightarrow> 'm option" where
  "scope lock unlock cs m = Option.bind (ScopedLockImpl lock m) (\<lambda>g. map_option (ScopedLockImpl_dtor unlock)
     (guard_body (ScopedLockImpl_lock lock) (ScopedLockImpl_unlock unlock) cs g))"

definition read_scope :: "'m rw_class \<Rightarrow> guard_call list \<Rightarrow> 'm \<Rightarrow> 'm option" where
  "read_scope c cs m = Option.bind (ReadScopedLockImpl c m) (\<lambda>g. map_option (ReadScopedLockImpl_dtor c)
     (guard_body (ReadScopedLockImpl_lock c) (ReadScopedLockImpl_unlock c) cs g))"

definition write_scope :: "'m rw_class \<Rightarrow> guard_call list \<Rightarrow> 'm \<Rightarrow> 'm option" where
  "write_scope c cs m = Option.bind (WriteScopedLockImpl c m) (\<lambda>g. map_option (WriteScopedLockImpl_dtor c)
     (guard_body (WriteScopedLockImpl_lock c) (WriteScopedLockImpl_unlock c) cs g))"

text \<open>The templates differ only in the acquiring method, so the laws of one serve all three.\<close>

lemma read_scope_eq: "read_scope c cs m = scope (m_rdlock c) (m_unlock c) cs m"
proof -
  have "ReadScopedLockImpl_dtor c = ScopedLockImpl_dtor (m_unlock c)"
    "ReadScopedLockImpl_lock c = ScopedLockImpl_lock (m_rdlock c)"
    "ReadScopedLockImpl_unlock c = ScopedLockImpl_unlock (m_unlock c)"
    by (simp_all add: fun_eq_iff ReadScopedLockImpl_dtor_def ScopedLockImpl_dtor_def ReadScopedLockImpl_lock_def
        ReadScopedLockImpl_unlock_def)
  then show ?thesis by (simp add: read_scope_def scope_def ReadScopedLockImpl_def)
qed

lemma write_scope_eq: "write_scope c cs m = scope (m_wrlock c) (m_unlock c) cs m"
proof -
  have "WriteScopedLockImpl_dtor c = ScopedLockImpl_dtor (m_unlock c)"
    "WriteScopedLockImpl_lock c = ScopedLockImpl_lock (m_wrlock c)"
    "WriteScopedLockImpl_unlock c = ScopedLockImpl_unlock (m_unlock c)"
    by (simp_all add: fun_eq_iff WriteScopedLockImpl_dtor_def ScopedLockImpl_dtor_def WriteScopedLockImpl_lock_def
        WriteScopedLockImpl_unlock_def)
  then show ?thesis by (simp add: write_scope_def scope_def WriteScopedLockImpl_def)
qed

section \<open>What a guard needs of a lock\<close>

locale lockable =
  fixes acquire :: "'m \<Rightarrow> 'm option"
    and release :: "'m \<Rightarrow> 'm"
  assumes release_acquire: "acquire m = Some m' \<Longrightarrow> release m' = m"
begin

text \<open>The guard of a scope entered at m always refers to m itself or to m acquired once.\<close>

definition guards :: "'m \<Rightarrow> 'm guard \<Rightarrow> bool" where
  "guards m g = (if g_locked g then acquire m = Some (g_mutex g) else g_mutex g = m)"

lemma guards_ctor: "ScopedLockImpl acquire m = Some g \<Longrightarrow> guards m g"
  by (auto simp: ScopedLockImpl_def guards_def)

lemma guards_unlock: "guards m g \<Longrightarrow> guards m (ScopedLockImpl_unlock release g)"
  by (auto simp: guards_def ScopedLockImpl_unlock_def release_acquire split: if_splits)

lemma guards_lock:
  "guards m g \<Longrightarrow> acquire m = Some m' \<Longrightarrow>
     \<exists>g'. ScopedLockImpl_lock acquire g = Some g' \<and> guards m g'"
  by (auto simp: guards_def ScopedLockImpl_lock_def split: if_splits)

lemma guards_dtor: "guards m g \<Longrightarrow> ScopedLockImpl_dtor release g = m"
  by (auto simp: guards_def ScopedLockImpl_dtor_def ScopedLockImpl_unlock_def release_acquire split: if_splits)

lemma guards_body:
  "guards m g \<Longrightarrow> acquire m = Some m' \<Longrightarrow>
     \<exists>g'. guard_body (ScopedLockImpl_lock acquire) (ScopedLockImpl_unlock release) cs g = Some g' \<and> guards m g'"
proof (induction cs arbitrary: g)
  case (Cons c cs)
  show ?case
  proof (cases c)
    case Call_lock
    from guards_lock [OF Cons.prems] obtain g' where "ScopedLockImpl_lock acquire g = Some g'" "guards m g'"
      by blast
    with Cons.IH Cons.prems(2) Call_lock show ?thesis by simp
  next
    case Call_unlock
    with Cons guards_unlock show ?thesis by simp
  qed
qed simp

text \<open>A scope returns wherever the lock could be taken, and leaves the lock as it found it.\<close>

lemma scope_balanced: "acquire m = Some m' \<Longrightarrow> scope acquire release cs m = Some m"
proof -
  assume a: "acquire m = Some m'"
  then obtain g where g: "ScopedLockImpl acquire m = Some g" by (simp add: ScopedLockImpl_def)
  with a obtain g' where "guard_body (ScopedLockImpl_lock acquire) (ScopedLockImpl_unlock release) cs g = Some g'" "guards m g'"
    using guards_ctor guards_body by blast
  with g show ?thesis by (simp add: scope_def guards_dtor)
qed

lemma scope_blocks: "acquire m = None \<Longrightarrow> scope acquire release cs m = None"
  by (simp add: scope_def ScopedLockImpl_def)

end

text \<open>A lock that admits one holder: taking it again inside the scope does not return.\<close>

locale exclusive_lock = lockable +
  assumes acquire_held: "acquire m = Some m' \<Longrightarrow> acquire m' = None"
begin

lemma nested_scope_blocks: "ScopedLockImpl acquire m = Some g \<Longrightarrow> ScopedLockImpl acquire (g_mutex g) = None"
  by (auto simp: ScopedLockImpl_def dest: acquire_held)

lemma reacquire_after_unlock:
  "ScopedLockImpl acquire m = Some g \<Longrightarrow>
     ScopedLockImpl_lock acquire (ScopedLockImpl_unlock release g) = Some g"
  by (auto simp: ScopedLockImpl_def ScopedLockImpl_lock_def ScopedLockImpl_unlock_def release_acquire)

end

interpretation mutex: exclusive_lock Mutex_lock Mutex_unlock
  by unfold_locales (auto simp: Mutex_lock_def Mutex_unlock_def split: if_splits)

interpretation spin: exclusive_lock Spinlock_lock Spinlock_unlock
  by unfold_locales (auto simp: Spinlock_lock_def Spinlock_unlock_def split: if_splits)

interpretation cas: exclusive_lock CASLock_lock CASLock_unlock
  by unfold_locales (auto simp: CASLock_unlock_def CASLock_lock_held dest: CASLock_lock_returns)

interpretation rdlock: lockable RWMutex_rdlock RWMutex_unlock
  by unfold_locales (auto simp: RWMutex_rdlock_def RWMutex_unlock_def split: if_splits)

interpretation wrlock: exclusive_lock RWMutex_wrlock RWMutex_unlock
  by unfold_locales (auto simp: RWMutex_wrlock_def RWMutex_unlock_def split: if_splits)

interpretation nullmutex: lockable NullMutex_lock NullMutex_unlock
  by unfold_locales (auto simp: NullMutex_lock_def NullMutex_unlock_def)

interpretation nullrd: lockable NullRWMutex_rdlock NullRWMutex_unlock
  by unfold_locales (auto simp: NullRWMutex_rdlock_def NullRWMutex_unlock_def)

interpretation nullwr: lockable NullRWMutex_wrlock NullRWMutex_unlock
  by unfold_locales (auto simp: NullRWMutex_wrlock_def NullRWMutex_unlock_def)

section \<open>Families of locks under contention\<close>

text \<open>\<open>owns lock res f\<close>: a lock is taken exactly when some thread's point of control has it, and one only.\<close>

definition owns :: "(nat \<Rightarrow> bool) \<Rightarrow> ('p \<Rightarrow> nat set) \<Rightarrow> (nat \<Rightarrow> 'p) \<Rightarrow> bool" where
  "owns lock res f \<longleftrightarrow> (\<forall>x. lock x \<longleftrightarrow> (\<exists>i. x \<in> res (f i))) \<and> (\<forall>i j x. x \<in> res (f i) \<longrightarrow> x \<in> res (f j) \<longrightarrow> i = j)"

lemma owns_same: "owns lock res f \<Longrightarrow> res q = res (f i) \<Longrightarrow> owns lock res (f(i := q))"
proof -
  assume own: "owns lock res f" and "res q = res (f i)"
  then have "res ((f(i := q)) j) = res (f j)" for j by simp
  with own show ?thesis unfolding owns_def by presburger
qed

text \<open>
  What a waiting lock promises its users: it is given to one that finds it free, and free after the
  release. \<open>taken\<close> reads the state of the lock.
\<close>

locale waiting_lock =
  fixes acquire :: "'m \<Rightarrow> 'm option" and release :: "'m \<Rightarrow> 'm" and taken :: "'m \<Rightarrow> bool"
  assumes acquire_takes: "acquire m = Some m' \<Longrightarrow> \<not> taken m \<and> taken m'"
    and acquire_free: "\<not> taken m \<Longrightarrow> \<exists>m'. acquire m = Some m'"
    and release_frees: "\<not> taken (release m)"
begin

lemma free_not_held: "owns (\<lambda>y. taken (lock y)) res f \<Longrightarrow> acquire (lock x) = Some b \<Longrightarrow> x \<notin> res (f i)"
  using acquire_takes unfolding owns_def by blast

lemma owns_take:
  assumes own: "owns (\<lambda>y. taken (lock y)) res f" and "acquire (lock x) = Some b" and "res q = insert x (res (f i))"
  shows "owns (\<lambda>y. taken ((lock(x := b)) y)) res (f(i := q))"
proof -
  note free = free_not_held [OF own assms(2)]
  have b: "taken b" using acquire_takes [OF assms(2)] by simp
  have at: "y \<in> res ((f(i := q)) j) \<longleftrightarrow> y \<in> res (f j) \<or> (j = i \<and> y = x)" for y j using assms(3) by auto
  have "taken ((lock(x := b)) y) \<longleftrightarrow> (\<exists>j. y \<in> res ((f(i := q)) j))" for y
    unfolding at using own b by (auto simp: owns_def)
  moreover have "j = j'" if "y \<in> res ((f(i := q)) j)" "y \<in> res ((f(i := q)) j')" for y j j'
    using that own free unfolding at owns_def by blast
  ultimately show ?thesis unfolding owns_def by blast
qed

lemma owns_drop:
  assumes own: "owns (\<lambda>y. taken (lock y)) res f" and "x \<in> res (f i)" and "res q = res (f i) - {x}"
  shows "owns (\<lambda>y. taken ((lock(x := release (lock x))) y)) res (f(i := q))"
proof -
  have at: "y \<in> res ((f(i := q)) j) \<longleftrightarrow> y \<in> res (f j) \<and> y \<noteq> x" for y j
    using assms unfolding owns_def by (cases "j = i") auto
  have "taken ((lock(x := release (lock x))) y) \<longleftrightarrow> (\<exists>j. y \<in> res ((f(i := q)) j))" for y
    unfolding at using own release_frees by (auto simp: owns_def)
  moreover have "j = j'" if "y \<in> res ((f(i := q)) j)" "y \<in> res ((f(i := q)) j')" for y j j'
    using that own unfolding at owns_def by blast
  ultimately show ?thesis unfolding owns_def by blast
qed

end

interpretation spin_wait: waiting_lock Spinlock_lock Spinlock_unlock "\<lambda>b. b"
  by unfold_locales (auto simp: Spinlock_lock_def Spinlock_unlock_def split: if_splits)

interpretation mutex_wait: waiting_lock Mutex_lock Mutex_unlock "\<lambda>b. b"
  by unfold_locales (auto simp: Mutex_lock_def Mutex_unlock_def split: if_splits)

interpretation cas_wait: waiting_lock CASLock_lock CASLock_unlock "\<lambda>b. b"
  by unfold_locales (auto simp: CASLock_unlock_def CASLock_lock_held CASLock_lock_free dest: CASLock_lock_returns)

section \<open>CASLock under contention\<close>

text \<open>
  Threads 0 to n - 1 each run a loop that locks, adds one to a shared counter by a load and a
  store, and unlocks (the loop of test_thread.cpp with this lock class). Every atomic operation is
  one step, and any thread may move.
\<close>

datatype cpc = Idle | Spinning | Entered | Loaded | Stored

record contention =
  c_flag :: bool
  c_count :: nat
  c_pc :: "nat \<Rightarrow> cpc"
  c_tmp :: "nat \<Rightarrow> nat"
  c_left :: "nat \<Rightarrow> nat"

definition contention_init :: "(nat \<Rightarrow> nat) \<Rightarrow> contention" where
  "contention_init work =
     \<lparr>c_flag = CASLock_init, c_count = 0, c_pc = (\<lambda>_. Idle), c_tmp = (\<lambda>_. 0), c_left = work\<rparr>"

inductive cas_step :: "nat \<Rightarrow> contention \<Rightarrow> contention \<Rightarrow> bool" for n where
  begin_lock: "i < n \<Longrightarrow> c_pc s i = Idle \<Longrightarrow> c_left s i \<noteq> 0 \<Longrightarrow>
    cas_step n s (s\<lparr>c_pc := (c_pc s)(i := Spinning)\<rparr>)"
| test_and_set: "i < n \<Longrightarrow> c_pc s i = Spinning \<Longrightarrow> atomic_flag_test_and_set (c_flag s) = (old, flag') \<Longrightarrow>
    cas_step n s (s\<lparr>c_flag := flag', c_pc := (c_pc s)(i := (if old then Spinning else Entered))\<rparr>)"
| load: "i < n \<Longrightarrow> c_pc s i = Entered \<Longrightarrow>
    cas_step n s (s\<lparr>c_tmp := (c_tmp s)(i := c_count s), c_pc := (c_pc s)(i := Loaded)\<rparr>)"
| store: "i < n \<Longrightarrow> c_pc s i = Loaded \<Longrightarrow>
    cas_step n s (s\<lparr>c_count := c_tmp s i + 1, c_left := (c_left s)(i := c_left s i - 1),
      c_pc := (c_pc s)(i := Stored)\<rparr>)"
| clear: "i < n \<Longrightarrow> c_pc s i = Stored \<Longrightarrow>
    cas_step n s (s\<lparr>c_flag := CASLock_unlock (c_flag s), c_pc := (c_pc s)(i := Idle)\<rparr>)"

inductive cas_reach :: "nat \<Rightarrow> (nat \<Rightarrow> nat) \<Rightarrow> contention \<Rightarrow> bool" for n work where
  cas_start: "cas_reach n work (contention_init work)"
| cas_next: "cas_reach n work s \<Longrightarrow> cas_step n s t \<Longrightarrow> cas_reach n work t"

definition in_section :: "cpc \<Rightarrow> bool" where
  "in_section p = (p = Entered \<or> p = Loaded \<or> p = Stored)"

lemma in_section_simps [simp]:
  "in_section Entered" "in_section Loaded" "in_section Stored"
  "\<not> in_section Idle" "\<not> in_section Spinning"
  by (simp_all add: in_section_def)

definition cas_inv :: "nat \<Rightarrow> (nat \<Rightarrow> nat) \<Rightarrow> contention \<Rightarrow> bool" where
  "cas_inv n work s \<longleftrightarrow>
     (\<forall>i. in_section (c_pc s i) \<longrightarrow> i < n \<and> c_flag s) \<and>
     (\<forall>i j. in_section (c_pc s i) \<longrightarrow> in_section (c_pc s j) \<longrightarrow> i = j) \<and>
     (\<forall>i. c_pc s i = Loaded \<longrightarrow> c_tmp s i = c_count s) \<and>
     (\<forall>i. c_pc s i \<in> {Spinning, Entered, Loaded} \<longrightarrow> c_left s i \<noteq> 0) \<and>
     c_count s + (\<Sum>i<n. c_left s i) = (\<Sum>i<n. work i)"

lemma cas_inv_init: "cas_inv n work (contention_init work)"
  by (simp add: cas_inv_def contention_init_def)

lemma sum_decrement:
  fixes f :: "nat \<Rightarrow> nat"
  assumes "i < n" and "f i \<noteq> 0"
  shows "Suc (\<Sum>j<n. (f(i := f i - 1)) j) = (\<Sum>j<n. f j)"
proof -
  have "(\<Sum>j<n. (f(i := f i - 1)) j) = (f i - 1) + (\<Sum>j\<in>{..<n} - {i}. f j)"
    using assms(1) by (simp add: sum.remove [of "{..<n}" i])
  moreover have "(\<Sum>j<n. f j) = f i + (\<Sum>j\<in>{..<n} - {i}. f j)"
    using assms(1) by (simp add: sum.remove [of "{..<n}" i])
  ultimately show ?thesis using assms(2) by simp
qed

lemma cas_step_inv: "cas_step n s t \<Longrightarrow> cas_inv n work s \<Longrightarrow> cas_inv n work t"
proof (induction rule: cas_step.induct)
  case (begin_lock i s)
  then show ?case by (auto simp: cas_inv_def)
next
  case (test_and_set i s old flag')
  then show ?case
    by (fastforce simp: cas_inv_def atomic_flag_test_and_set_def)
next
  case (load i s)
  then have "c_flag s" by (metis cas_inv_def in_section_simps(1))
  with load show ?case by (auto simp: cas_inv_def)
next
  case (store i s)
  then have nz: "c_left s i \<noteq> 0" and tmp: "c_tmp s i = c_count s"
    and others: "\<And>j. in_section (c_pc s j) \<Longrightarrow> j = i" and fl: "c_flag s"
    using in_section_simps(2) by (auto simp: cas_inv_def simp del: in_section_simps) metis+
  then have nl: "\<And>j. j \<noteq> i \<Longrightarrow> c_pc s j \<noteq> Loaded" by (metis in_section_simps(2))
  have total: "c_count s + (\<Sum>j<n. c_left s j) = (\<Sum>j<n. work j)"
    using store.prems by (simp add: cas_inv_def)
  from sum_decrement [of i n "c_left s", OF store.hyps(1) nz] tmp total nl fl store show ?case
    by (auto simp: cas_inv_def)
next
  case (clear i s)
  then have "\<And>j. in_section (c_pc s j) \<Longrightarrow> j = i" by (metis cas_inv_def in_section_simps(3))
  with clear show ?case by (auto simp: cas_inv_def)
qed

lemma cas_reach_inv: "cas_reach n work s \<Longrightarrow> cas_inv n work s"
  by (induction rule: cas_reach.induct) (auto intro: cas_inv_init cas_step_inv)

text \<open>
  Progress. \<open>todo\<close> counts the atomic operations still to come, those of failed attempts to take the
  lock apart.
\<close>

lemma cas_reach_held: "cas_reach n work s \<Longrightarrow> c_flag s \<Longrightarrow> \<exists>i. in_section (c_pc s i)"
proof (induction rule: cas_reach.induct)
  case (cas_next s t)
  note inv = cas_reach_inv [OF cas_next.hyps(1), unfolded cas_inv_def]
  from cas_next.hyps(2) cas_next.IH cas_next.prems inv show ?case
  proof (cases rule: cas_step.cases)
    case (begin_lock i)
    with cas_next obtain j where "in_section (c_pc s j)" by auto
    with begin_lock show ?thesis by (intro exI [of _ j]) auto
  next
    case (test_and_set i old flag')
    show ?thesis
    proof (cases old)
      case True
      with test_and_set cas_next.IH have "\<exists>j. in_section (c_pc s j)" by (simp add: atomic_flag_test_and_set_def)
      then obtain j where "in_section (c_pc s j)" ..
      with test_and_set True show ?thesis by (intro exI [of _ j]) auto
    next
      case False
      with test_and_set show ?thesis by (intro exI [of _ i]) simp
    qed
  qed (auto simp: CASLock_unlock_def)
qed (simp add: contention_init_def CASLock_init_def)

fun steps_left :: "cpc \<Rightarrow> nat \<Rightarrow> nat" where
  "steps_left Idle m = 5 * m"
| "steps_left Spinning m = 5 * m - 1"
| "steps_left Entered m = 5 * m - 2"
| "steps_left Loaded m = 5 * m - 3"
| "steps_left Stored m = 5 * m + 1"

definition todo :: "nat \<Rightarrow> contention \<Rightarrow> nat" where
  "todo n s = (\<Sum>i<n. steps_left (c_pc s i) (c_left s i))"

lemma todo_less:
  assumes "i < n" and "steps_left (c_pc t i) (c_left t i) < steps_left (c_pc s i) (c_left s i)"
    and "\<And>j. j \<noteq> i \<Longrightarrow> c_pc t j = c_pc s j \<and> c_left t j = c_left s j"
  shows "todo n t < todo n s"
  unfolding todo_def using assms by (intro sum_strict_mono_ex1) (auto simp: le_less, metis le_less)

lemma cas_step_todo:
  assumes "cas_inv n work s" and "cas_step n s t"
  shows "t = s \<or> todo n t < todo n s"
  using assms(2)
proof (cases rule: cas_step.cases)
  case (begin_lock i)
  then show ?thesis by (intro disjI2 todo_less [of i]) auto
next
  case (test_and_set i old flag')
  show ?thesis
  proof (cases old)
    case True
    with test_and_set have "t = s" by (cases s) (auto simp: atomic_flag_test_and_set_def)
    then show ?thesis ..
  next
    case False
    from assms(1) test_and_set have "c_left s i \<noteq> 0" by (simp add: cas_inv_def)
    with test_and_set False show ?thesis by (intro disjI2 todo_less [of i]) auto
  qed
next
  case (load i)
  with assms(1) have "c_left s i \<noteq> 0" by (simp add: cas_inv_def)
  with load show ?thesis by (intro disjI2 todo_less [of i]) auto
next
  case (store i)
  with assms(1) have "c_left s i \<noteq> 0" by (simp add: cas_inv_def)
  with store show ?thesis by (intro disjI2 todo_less [of i]) auto
next
  case (clear i)
  then show ?thesis by (intro disjI2 todo_less [of i]) auto
qed

text \<open>A thread in the section can always move; with the flag clear, so can any thread that is not done.\<close>

lemma movesI: "cas_step n s t \<Longrightarrow> c_pc t i \<noteq> c_pc s i \<Longrightarrow> \<exists>t. cas_step n s t \<and> t \<noteq> s"
  by auto

lemma section_moves:
  assumes "cas_inv n work s" and "in_section (c_pc s i)"
  shows "\<exists>t. cas_step n s t \<and> t \<noteq> s"
proof -
  from assms have i: "i < n" by (auto simp: cas_inv_def)
  from assms(2) consider "c_pc s i = Entered" | "c_pc s i = Loaded" | "c_pc s i = Stored" by (auto simp: in_section_def)
  then show ?thesis
  proof cases
    case 1
    show ?thesis by (rule movesI [OF cas_step.load [OF i 1], of i]) (simp add: 1)
  next
    case 2
    show ?thesis by (rule movesI [OF cas_step.store [OF i 2], of i]) (simp add: 2)
  next
    case 3
    show ?thesis by (rule movesI [OF cas_step.clear [OF i 3], of i]) (simp add: 3)
  qed
qed

lemma unfinished_moves:
  assumes "cas_reach n work s" and "todo n s \<noteq> 0"
  shows "\<exists>t. cas_step n s t \<and> t \<noteq> s"
proof (cases "\<exists>i. in_section (c_pc s i)")
  case True
  with section_moves [OF cas_reach_inv [OF assms(1)]] show ?thesis by blast
next
  case False
  with cas_reach_held [OF assms(1)] have free: "\<not> c_flag s" by blast
  from assms(2) obtain i where i: "i < n" and left: "steps_left (c_pc s i) (c_left s i) \<noteq> 0"
    by (auto simp: todo_def)
  from False have "c_pc s i = Idle \<or> c_pc s i = Spinning" by (cases "c_pc s i") (auto simp: in_section_def)
  then show ?thesis
  proof
    assume pc: "c_pc s i = Idle"
    with left have nz: "c_left s i \<noteq> 0" by simp
    show ?thesis by (rule movesI [OF cas_step.begin_lock [OF i pc nz], of i]) (simp add: pc)
  next
    assume pc: "c_pc s i = Spinning"
    have free': "atomic_flag_test_and_set (c_flag s) = (False, True)" using free by (simp add: atomic_flag_test_and_set_def)
    show ?thesis by (rule movesI [OF cas_step.test_and_set [OF i pc free'], of i]) (simp add: pc)
  qed
qed

lemma finished_state:
  assumes "cas_reach n work s" and "todo n s = 0"
  shows "c_count s = (\<Sum>k<n. work k) \<and> \<not> c_flag s"
proof -
  note inv = cas_reach_inv [OF assms(1), unfolded cas_inv_def]
  have zero: "steps_left (c_pc s i) (c_left s i) = 0" if "i < n" for i
    using assms(2) that by (simp add: todo_def)
  have idle: "c_left s i = 0 \<and> \<not> in_section (c_pc s i)" if "i < n" for i
    using zero [OF that] inv by (cases "c_pc s i") auto
  with inv have "\<not> in_section (c_pc s i)" for i by blast
  with cas_reach_held [OF assms(1)] have "\<not> c_flag s" by blast
  with inv idle show ?thesis by simp
qed

section \<open>Properties\<close>

text \<open>
  C31. Scoped guards are balanced, for every lock class: whatever sequence of lock and unlock calls
  the body makes on its guard, a scope over a lock that can be taken ends with the lock as it was
  before the scope, and a scope over a lock that cannot be taken does not start.
\<close>

theorem scopes_balanced:
  "scope Mutex_lock Mutex_unlock cs m = (if m then None else Some m) \<and>
   scope Spinlock_lock Spinlock_unlock cs m = (if m then None else Some m) \<and>
   scope CASLock_lock CASLock_unlock cs m = (if m then None else Some m) \<and>
   read_scope RWMutex cs rw = (if rw_writer rw then None else Some rw) \<and>
   write_scope RWMutex cs rw =
     (if \<not> rw_writer rw \<and> rw_readers rw = 0 then Some rw else None) \<and>
   scope NullMutex_lock NullMutex_unlock cs u = Some u \<and>
   read_scope NullRWMutex cs u = Some u \<and>
   write_scope NullRWMutex cs u = Some u"
proof (intro conjI)
  show "scope Mutex_lock Mutex_unlock cs m = (if m then None else Some m)"
    by (cases m) (simp_all add: mutex.scope_balanced mutex.scope_blocks Mutex_lock_def)
  show "scope Spinlock_lock Spinlock_unlock cs m = (if m then None else Some m)"
    by (cases m) (simp_all add: spin.scope_balanced spin.scope_blocks Spinlock_lock_def)
  show "scope CASLock_lock CASLock_unlock cs m = (if m then None else Some m)"
    by (cases m) (simp_all add: cas.scope_balanced cas.scope_blocks CASLock_lock_free CASLock_lock_held)
  show "read_scope RWMutex cs rw = (if rw_writer rw then None else Some rw)"
    by (cases "rw_writer rw") (simp_all add: read_scope_eq RWMutex_def rdlock.scope_balanced rdlock.scope_blocks RWMutex_rdlock_def)
  show "write_scope RWMutex cs rw =
      (if \<not> rw_writer rw \<and> rw_readers rw = 0 then Some rw else None)"
    by (cases "\<not> rw_writer rw \<and> rw_readers rw = 0")
      (simp_all add: write_scope_eq RWMutex_def wrlock.scope_balanced wrlock.scope_blocks RWMutex_wrlock_def)
  show "scope NullMutex_lock NullMutex_unlock cs u = Some u"
    by (rule nullmutex.scope_balanced) (simp add: NullMutex_lock_def)
  show "read_scope NullRWMutex cs u = Some u"
    unfolding read_scope_eq NullRWMutex_def rw_class.simps by (rule nullrd.scope_balanced) (simp add: NullRWMutex_rdlock_def)
  show "write_scope NullRWMutex cs u = Some u"
    unfolding write_scope_eq NullRWMutex_def rw_class.simps by (rule nullwr.scope_balanced) (simp add: NullRWMutex_wrlock_def)
qed

text \<open>One thread of the loop, run once from start to end.\<close>

definition one_unit :: "nat \<Rightarrow> nat" where
  "one_unit i = (if i = 0 then 1 else 0)"

lemma one_unit_entered:
  "cas_reach 1 one_unit ((contention_init one_unit)
     \<lparr>c_pc := (\<lambda>_. Idle)(0 := Spinning, 0 := Entered), c_flag := True\<rparr>)"
proof -
  let ?s0 = "contention_init one_unit"
  let ?s1 = "?s0\<lparr>c_pc := (c_pc ?s0)(0 := Spinning)\<rparr>"
  let ?s2 = "?s1\<lparr>c_flag := True, c_pc := (c_pc ?s1)(0 := (if False then Spinning else Entered))\<rparr>"
  note init = contention_init_def one_unit_def CASLock_init_def
  have "cas_reach 1 one_unit ?s0" by (rule cas_start)
  also have "cas_step 1 ?s0 ?s1" by (rule begin_lock) (simp_all add: init)
  finally (cas_next) have "cas_reach 1 one_unit ?s1" .
  also have "cas_step 1 ?s1 ?s2" by (rule test_and_set) (simp_all add: init atomic_flag_test_and_set_def)
  finally (cas_next) have "cas_reach 1 one_unit ?s2" .
  then show ?thesis by (simp add: init)
qed

lemma one_unit_done:
  "cas_reach 1 one_unit ((contention_init one_unit)
     \<lparr>c_count := 1, c_pc := (\<lambda>_. Idle)(0 := Spinning, 0 := Entered, 0 := Loaded, 0 := Stored, 0 := Idle),
      c_tmp := (\<lambda>_. 0)(0 := 0), c_left := one_unit(0 := 0), c_flag := False\<rparr>)"
proof -
  let ?s2 = "(contention_init one_unit)\<lparr>c_pc := (\<lambda>_. Idle)(0 := Spinning, 0 := Entered), c_flag := True\<rparr>"
  let ?s3 = "?s2\<lparr>c_tmp := (c_tmp ?s2)(0 := c_count ?s2), c_pc := (c_pc ?s2)(0 := Loaded)\<rparr>"
  let ?s4 = "?s3\<lparr>c_count := c_tmp ?s3 0 + 1, c_left := (c_left ?s3)(0 := c_left ?s3 0 - 1), c_pc := (c_pc ?s3)(0 := Stored)\<rparr>"
  let ?s5 = "?s4\<lparr>c_flag := CASLock_unlock (c_flag ?s4), c_pc := (c_pc ?s4)(0 := Idle)\<rparr>"
  note init = contention_init_def one_unit_def
  have "cas_reach 1 one_unit ?s2" by (rule one_unit_entered)
  also have "cas_step 1 ?s2 ?s3" by (rule load) (simp_all add: init)
  finally (cas_next) have "cas_reach 1 one_unit ?s3" .
  also have "cas_step 1 ?s3 ?s4" by (rule store) (simp_all add: init)
  finally (cas_next) have "cas_reach 1 one_unit ?s4" .
  also have "cas_step 1 ?s4 ?s5" by (rule clear) (simp_all add: init)
  finally (cas_next) have "cas_reach 1 one_unit ?s5" .
  then show ?thesis by (simp add: init CASLock_unlock_def)
qed

text \<open>
  C10. CASLock excludes: for any number of threads that lock, read and write a shared counter and
  unlock, any number of times each and in any interleaving, at most one thread is between its lock
  and its unlock, and no increment is lost: the counter and the increments still to make add up to
  the total of work, so that the counter is the total once every thread is done.
\<close>

theorem CASLock_excludes:
  assumes "cas_reach n work s"
  shows "(\<forall>i j. in_section (c_pc s i) \<longrightarrow> in_section (c_pc s j) \<longrightarrow> i = j) \<and>
    c_count s + (\<Sum>k<n. c_left s k) = (\<Sum>k<n. work k) \<and>
    ((\<forall>k<n. c_left s k = 0) \<longrightarrow> c_count s = (\<Sum>k<n. work k))"
proof -
  note inv = cas_reach_inv [OF assms, unfolded cas_inv_def]
  have "c_count s = (\<Sum>k<n. work k)" if "\<forall>k<n. c_left s k = 0"
    using inv that by simp
  with inv show ?thesis by blast
qed

theorem CASLock_excludes_witness:
  "\<exists>s. cas_reach 1 one_unit s \<and> c_left s 0 = 0 \<and> c_count s = (\<Sum>k<1. one_unit k)"
proof -
  note ex = CASLock_excludes [OF one_unit_done]
  show ?thesis by (rule exI, intro conjI, rule one_unit_done) (use ex in \<open>simp_all add: one_unit_def\<close>)
qed

text \<open>
  C16. CASLock lets the work end. In every reachable state each step either was a failed attempt to
  take the lock, which changes nothing, or leaves fewer operations to come; while operations are left,
  some thread can make such a step, so the lock is never held by nobody; and when none are left, the
  counter is the total of work and the lock is free. A schedule can thus take at most as many steps
  that are not failed attempts as there were operations at the start.
\<close>

theorem CASLock_progress:
  assumes "cas_reach n work s"
  shows "(\<forall>t. cas_step n s t \<longrightarrow> t = s \<or> todo n t < todo n s) \<and>
    (todo n s \<noteq> 0 \<longrightarrow> (\<exists>t. cas_step n s t \<and> todo n t < todo n s)) \<and>
    (todo n s = 0 \<longrightarrow> c_count s = (\<Sum>k<n. work k) \<and> \<not> c_flag s)"
  using cas_step_todo [OF cas_reach_inv [OF assms]] unfinished_moves [OF assms] finished_state [OF assms] by blast

theorem CASLock_progress_witness: "\<exists>t. cas_step 1 (contention_init one_unit) t \<and> todo 1 t < 5"
proof -
  have "todo 1 (contention_init one_unit) = 5" by (simp add: todo_def contention_init_def one_unit_def)
  with CASLock_progress [OF cas_start, of 1 one_unit] show ?thesis by simp
qed

end
