(* ===== verification/World.thy ===== *)
theory World
  imports Log_Format Locks
begin

text \<open>
  The state the logging component works on: the console, the file system, the clock, and the heap
  of Logger and LogAppender objects. A shared pointer is the index of its object in the list of
  objects of its class, which only grows: the heap keeps every object it has made.
\<close>

section \<open>Files and file streams\<close>

text \<open>
  A name leads to a file; a file keeps its data after its name is gone as long as someone has it
  open. \<open>d_can_open\<close> and \<open>d_full\<close> are the answers of the operating system: whether a name can be
  opened for appending, and whether writes fail.
\<close>

record disk =
  d_names :: "string \<Rightarrow> nat option"
  d_data :: "nat \<Rightarrow> string"
  d_next :: nat
  d_can_open :: "string \<Rightarrow> bool"
  d_full :: bool

text \<open>The content found under a name.\<close>

definition file_text :: "disk \<Rightarrow> string \<Rightarrow> string option" where
  "file_text d name = map_option (d_data d) (d_names d name)"

text \<open>Another process removes the name.\<close>

definition unlink :: "string \<Rightarrow> disk \<Rightarrow> disk" where
  "unlink name d = d\<lparr>d_names := (d_names d)(name := None)\<rparr>"

text \<open>
  std::ofstream: the file it has open, and its error state (failbit or badbit, what operator! and
  the conversion to bool test). close on a stream with no file open and open on a stream with a
  file open both fail and set failbit; a successful open clears the error state; output on a stream
  in error does nothing.
\<close>

record ofstream =
  os_open :: "nat option"
  os_fail :: bool

definition of_new :: ofstream where
  "of_new = \<lparr>os_open = None, os_fail = False\<rparr>"

definition of_close :: "ofstream \<Rightarrow> ofstream" where
  "of_close st = (case os_open st of
     None \<Rightarrow> st\<lparr>os_fail := True\<rparr>
   | Some _ \<Rightarrow> st\<lparr>os_open := None\<rparr>)"

definition disk_open :: "string \<Rightarrow> disk \<Rightarrow> nat \<times> disk" where
  "disk_open name d = (case d_names d name of
     Some ino \<Rightarrow> (ino, d)
   | None \<Rightarrow> (d_next d, d\<lparr>d_names := (d_names d)(name := Some (d_next d)),
                        d_data := (d_data d)(d_next d := []), d_next := d_next d + 1\<rparr>))"

definition of_open_app :: "string \<Rightarrow> ofstream \<Rightarrow> disk \<Rightarrow> ofstream \<times> disk" where
  "of_open_app name st d =
     (if os_open st \<noteq> None \<or> \<not> d_can_open d name then (st\<lparr>os_fail := True\<rparr>, d)
      else (case disk_open name d of (ino, d') \<Rightarrow> (\<lparr>os_open = Some ino, os_fail = False\<rparr>, d')))"

definition of_write :: "string \<Rightarrow> ofstream \<Rightarrow> disk \<Rightarrow> ofstream \<times> disk" where
  "of_write s st d =
     (if os_fail st \<or> s = [] then (st, d)
      else (case os_open st of
        None \<Rightarrow> (st\<lparr>os_fail := True\<rparr>, d)
      | Some ino \<Rightarrow>
          if d_full d then (st\<lparr>os_fail := True\<rparr>, d)
          else (st, d\<lparr>d_data := (d_data d)(ino := d_data d ino @ s)\<rparr>)))"

section \<open>Objects\<close>

text \<open>
  LogAppender with its two subclasses. The stream and m_lastTime belong to FileLogAppender; a
  console appender carries them unused.
\<close>

datatype appender_kind = StdoutLogAppender | FileLogAppender string

record appender =
  ap_kind :: appender_kind
  ap_level :: Level
  ap_hasFormatter :: bool
  ap_formatter :: "formatter option"
  ap_mutex :: bool
  ap_filestream :: ofstream
  ap_lastTime :: "64 word"

record logger =
  lg_name :: string
  lg_level :: Level
  lg_appenders :: "nat list"
  lg_formatter :: "formatter option"
  lg_root :: "nat option"
  lg_mutex :: bool

record manager =
  mg_mutex :: bool
  mg_loggers :: "(string \<times> nat) list"
  mg_root :: nat

text \<open>
  \<open>w_now\<close> is what time(0) returns; \<open>w_tid\<close>, \<open>w_fid\<close> and \<open>w_tname\<close> are what GetThreadId, GetFiberId
  and Thread::GetName return in the running thread.
\<close>

record world =
  w_stdout :: string
  w_disk :: disk
  w_now :: "64 word"
  w_strftime :: "string \<Rightarrow> 64 word \<Rightarrow> string"
  w_tid :: "32 word"
  w_fid :: "32 word"
  w_tname :: string
  w_loggers :: "logger list"
  w_appenders :: "appender list"
  w_mgr :: manager

definition get_logger :: "world \<Rightarrow> nat \<Rightarrow> logger option" where
  "get_logger w l = (if l < length (w_loggers w) then Some (w_loggers w ! l) else None)"

definition get_appender :: "world \<Rightarrow> nat \<Rightarrow> appender option" where
  "get_appender w a = (if a < length (w_appenders w) then Some (w_appenders w ! a) else None)"

definition put_logger :: "nat \<Rightarrow> logger \<Rightarrow> world \<Rightarrow> world" where
  "put_logger l lg w = w\<lparr>w_loggers := (w_loggers w)[l := lg]\<rparr>"

definition put_appender :: "nat \<Rightarrow> appender \<Rightarrow> world \<Rightarrow> world" where
  "put_appender a ap w = w\<lparr>w_appenders := (w_appenders w)[a := ap]\<rparr>"

lemma get_logger_put [simp]:
  "get_logger (put_logger l lg w) k = (if k = l \<and> get_logger w l \<noteq> None then Some lg else get_logger w k)"
  by (auto simp: get_logger_def put_logger_def)

lemma get_appender_put [simp]:
  "get_appender (put_appender a ap w) b = (if b = a \<and> get_appender w a \<noteq> None then Some ap else get_appender w b)"
  by (auto simp: get_appender_def put_appender_def)

lemma get_logger_put_appender [simp]: "get_logger (put_appender a ap w) l = get_logger w l"
  by (simp add: get_logger_def put_appender_def)

lemma get_appender_put_logger [simp]: "get_appender (put_logger l lg w) a = get_appender w a"
  by (simp add: get_appender_def put_logger_def)

lemma put_logger_fields [simp]:
  "w_appenders (put_logger l lg w) = w_appenders w" "w_mgr (put_logger l lg w) = w_mgr w"
  "w_stdout (put_logger l lg w) = w_stdout w" "w_disk (put_logger l lg w) = w_disk w"
  "w_now (put_logger l lg w) = w_now w" "w_strftime (put_logger l lg w) = w_strftime w"
  "w_tid (put_logger l lg w) = w_tid w" "w_fid (put_logger l lg w) = w_fid w"
  "w_tname (put_logger l lg w) = w_tname w"
  by (simp_all add: put_logger_def)

lemma put_appender_fields [simp]:
  "w_loggers (put_appender a ap w) = w_loggers w" "w_mgr (put_appender a ap w) = w_mgr w"
  "w_stdout (put_appender a ap w) = w_stdout w" "w_disk (put_appender a ap w) = w_disk w"
  "w_now (put_appender a ap w) = w_now w" "w_strftime (put_appender a ap w) = w_strftime w"
  "w_tid (put_appender a ap w) = w_tid w" "w_fid (put_appender a ap w) = w_fid w"
  "w_tname (put_appender a ap w) = w_tname w"
  by (simp_all add: put_appender_def)

lemma put_logger_put [simp]: "put_logger l b (put_logger l a w) = put_logger l b w"
  by (simp add: put_logger_def)

lemma put_appender_put [simp]: "put_appender a y (put_appender a x w) = put_appender a y w"
  by (simp add: put_appender_def)

lemma put_logger_same: "get_logger w l = Some lg \<Longrightarrow> put_logger l lg w = w"
  by (auto simp: get_logger_def put_logger_def split: if_splits)

lemma put_appender_same: "get_appender w a = Some ap \<Longrightarrow> put_appender a ap w = w"
  by (auto simp: get_appender_def put_appender_def split: if_splits)

definition print :: "string \<Rightarrow> world \<Rightarrow> world" where
  "print s w = w\<lparr>w_stdout := w_stdout w @ s\<rparr>"

lemma print_fields [simp]:
  "w_loggers (print s w) = w_loggers w" "w_appenders (print s w) = w_appenders w"
  "w_mgr (print s w) = w_mgr w" "w_disk (print s w) = w_disk w" "w_now (print s w) = w_now w"
  "w_strftime (print s w) = w_strftime w" "w_stdout (print s w) = w_stdout w @ s"
  "w_tid (print s w) = w_tid w" "w_fid (print s w) = w_fid w" "w_tname (print s w) = w_tname w"
  "get_logger (print s w) l = get_logger w l" "get_appender (print s w) a = get_appender w a"
  by (simp_all add: print_def get_logger_def get_appender_def)

lemma print_print: "print s (print t w) = print (t @ s) w"
  by (simp add: print_def)

lemma print_nothing [simp]: "print [] w = w"
  by (simp add: print_def)

text \<open>What the format items see of the world.\<close>

definition world_env :: "world \<Rightarrow> fmt_env" where
  "world_env w = \<lparr>env_strftime = w_strftime w,
     env_name = (\<lambda>l. case get_logger w l of Some lg \<Rightarrow> lg_name lg | None \<Rightarrow> [])\<rparr>"

lemma world_update_get [simp]:
  "get_logger (w\<lparr>w_disk := d\<rparr>) l = get_logger w l" "get_appender (w\<lparr>w_disk := d\<rparr>) a = get_appender w a"
  "get_logger (w\<lparr>w_stdout := out\<rparr>) l = get_logger w l" "get_appender (w\<lparr>w_stdout := out\<rparr>) a = get_appender w a"
  "get_logger (w\<lparr>w_now := t\<rparr>) l = get_logger w l" "get_appender (w\<lparr>w_now := t\<rparr>) a = get_appender w a"
  "get_logger (w\<lparr>w_mgr := m\<rparr>) l = get_logger w l" "get_appender (w\<lparr>w_mgr := m\<rparr>) a = get_appender w a"
  by (simp_all add: get_logger_def get_appender_def)

section \<open>What logging leaves alone\<close>

text \<open>
  The part of an appender that writing a record does not change: all but the stream and its time.
  \<open>frame w w'\<close> says that only console, files, streams and reopening times differ.
\<close>

definition ap_core :: "appender \<Rightarrow> appender_kind \<times> Level \<times> bool \<times> formatter option \<times> bool" where
  "ap_core ap = (ap_kind ap, ap_level ap, ap_hasFormatter ap, ap_formatter ap, ap_mutex ap)"

definition frame :: "world \<Rightarrow> world \<Rightarrow> bool" where
  "frame w w' \<longleftrightarrow> w_loggers w' = w_loggers w \<and> w_mgr w' = w_mgr w \<and> w_now w' = w_now w \<and>
     w_strftime w' = w_strftime w \<and> w_tid w' = w_tid w \<and> w_fid w' = w_fid w \<and> w_tname w' = w_tname w \<and>
     map ap_core (w_appenders w') = map ap_core (w_appenders w)"

lemma frame_refl [simp, intro]: "frame w w"
  by (simp add: frame_def)

lemma frame_trans [trans]: "frame w w' \<Longrightarrow> frame w' w'' \<Longrightarrow> frame w w''"
  by (simp add: frame_def)

lemma frame_print [simp, intro]: "frame w (print s w)"
  by (simp add: frame_def)

lemma frame_disk [simp, intro]: "frame w (w\<lparr>w_disk := d\<rparr>)"
  by (simp add: frame_def)

lemma frame_stdout [simp, intro]: "frame w (w\<lparr>w_stdout := out\<rparr>)"
  by (simp add: frame_def)

lemma frame_put_appender:
  "get_appender w a = Some ap \<Longrightarrow> ap_core ap' = ap_core ap \<Longrightarrow> frame w (put_appender a ap' w)"
  by (auto simp: frame_def put_appender_def get_appender_def map_update list_update_same_conv split: if_splits)

lemma frame_get_logger: "frame w w' \<Longrightarrow> get_logger w' l = get_logger w l"
  by (simp add: frame_def get_logger_def)

lemma frame_get_appender:
  assumes "frame w w'" and "get_appender w a = Some ap"
  shows "\<exists>ap'. get_appender w' a = Some ap' \<and> ap_core ap' = ap_core ap"
proof -
  from assms have len: "length (w_appenders w') = length (w_appenders w)"
    unfolding frame_def by (metis length_map)
  moreover from assms(2) have a: "a < length (w_appenders w)" "w_appenders w ! a = ap"
    by (auto simp: get_appender_def split: if_splits)
  moreover have "map ap_core (w_appenders w') ! a = map ap_core (w_appenders w) ! a"
    using assms(1) by (simp add: frame_def)
  ultimately show ?thesis by (simp add: get_appender_def)
qed

end
