(* ===== verification/Appender.thy ===== *)
theory Appender
  imports World
begin

text \<open>
  LogAppender, StdoutLogAppender and FileLogAppender (log.h, log.cpp). What a logger needs of an
  appender's log method is stated as a locale, interpreted on both subclasses and on the virtual
  call.
\<close>

section \<open>Operations\<close>

text \<open>The spin lock of an appender, taken at the start of a scope and released at its end.\<close>

definition lock_appender :: "nat \<Rightarrow> world \<Rightarrow> world res" where
  "lock_appender a w = (case get_appender w a of
     None \<Rightarrow> Inl (Null_Deref ''LogAppender'')
   | Some ap \<Rightarrow> (case Spinlock_lock (ap_mutex ap) of
       None \<Rightarrow> Inl (Deadlock ''LogAppender::m_mutex'')
     | Some m \<Rightarrow> Inr (put_appender a (ap\<lparr>ap_mutex := m\<rparr>) w)))"

definition unlock_appender :: "nat \<Rightarrow> world \<Rightarrow> world" where
  "unlock_appender a w = (case get_appender w a of
     None \<Rightarrow> w
   | Some ap \<Rightarrow> put_appender a (ap\<lparr>ap_mutex := Spinlock_unlock (ap_mutex ap)\<rparr>) w)"

definition locked_appender :: "nat \<Rightarrow> (world \<Rightarrow> world res) \<Rightarrow> world \<Rightarrow> world res" where
  "locked_appender a body w =
     rbind (lock_appender a w) (\<lambda>w1. rbind (body w1) (\<lambda>w2. Inr (unlock_appender a w2)))"

definition update_appender :: "nat \<Rightarrow> (appender \<Rightarrow> appender) \<Rightarrow> world \<Rightarrow> world res" where
  "update_appender a f w = (case get_appender w a of
     None \<Rightarrow> Inl (Null_Deref ''LogAppender'') | Some ap \<Rightarrow> Inr (put_appender a (f ap) w))"

definition LogAppender_setFormatter :: "nat \<Rightarrow> formatter option \<Rightarrow> world \<Rightarrow> world res" where
  "LogAppender_setFormatter a val = locked_appender a
     (update_appender a (\<lambda>ap. ap\<lparr>ap_formatter := val, ap_hasFormatter := (val \<noteq> None)\<rparr>))"

definition LogAppender_getFormatter :: "nat \<Rightarrow> world \<Rightarrow> (formatter option \<times> world) res" where
  "LogAppender_getFormatter a w = rbind (lock_appender a w) (\<lambda>w1.
     case get_appender w1 a of
       None \<Rightarrow> Inl (Null_Deref ''LogAppender'')
     | Some ap \<Rightarrow> Inr (ap_formatter ap, unlock_appender a w1))"

definition LogAppender_setLevel :: "nat \<Rightarrow> Level \<Rightarrow> world \<Rightarrow> world res" where
  "LogAppender_setLevel a val = update_appender a (\<lambda>ap. ap\<lparr>ap_level := val\<rparr>)"

text \<open>A new appender object: level DEBUG, no formatter.\<close>

definition new_appender :: "appender_kind \<Rightarrow> world \<Rightarrow> nat \<times> world" where
  "new_appender k w = (length (w_appenders w),
     w\<lparr>w_appenders := w_appenders w @
       [\<lparr>ap_kind = k, ap_level = DEBUG, ap_hasFormatter = False, ap_formatter = None,
         ap_mutex = Spinlock_init, ap_filestream = of_new, ap_lastTime = 0\<rparr>]\<rparr>)"

text \<open>
  FileLogAppender::reopen. The stream is closed only when it is not in error; the file name is a
  field of the object.
\<close>

definition ap_filename :: "appender \<Rightarrow> string" where
  "ap_filename ap = (case ap_kind ap of FileLogAppender f \<Rightarrow> f | StdoutLogAppender \<Rightarrow> [])"

definition reopen_stream :: "string \<Rightarrow> ofstream \<Rightarrow> disk \<Rightarrow> ofstream \<times> disk" where
  "reopen_stream name st d = of_open_app name (if os_fail st then st else of_close st) d"

definition reopen_body :: "nat \<Rightarrow> world \<Rightarrow> world res" where
  "reopen_body a w = (case get_appender w a of
     None \<Rightarrow> Inl (Null_Deref ''FileLogAppender'')
   | Some ap \<Rightarrow> (case reopen_stream (ap_filename ap) (ap_filestream ap) (w_disk w) of (st, d) \<Rightarrow>
       let w1 = put_appender a (ap\<lparr>ap_filestream := st\<rparr>) (w\<lparr>w_disk := d\<rparr>) in
       Inr (if os_fail st then print (''!!!! open error !!!!'' @ nl) w1 else w1)))"

definition FileLogAppender_reopen :: "nat \<Rightarrow> world \<Rightarrow> (bool \<times> world) res" where
  "FileLogAppender_reopen a w = rbind (locked_appender a (reopen_body a) w) (\<lambda>w1.
     case get_appender w1 a of
       None \<Rightarrow> Inl (Null_Deref ''FileLogAppender'')
     | Some ap \<Rightarrow> Inr (\<not> os_fail (ap_filestream ap), w1))"

definition new_FileLogAppender :: "string \<Rightarrow> world \<Rightarrow> (nat \<times> world) res" where
  "new_FileLogAppender filename w = (case new_appender (FileLogAppender filename) w of (a, w1) \<Rightarrow>
     rbind (FileLogAppender_reopen a w1) (\<lambda>(ok, w2). Inr (a, w2)))"

definition new_StdoutLogAppender :: "world \<Rightarrow> nat \<times> world" where
  "new_StdoutLogAppender w = new_appender StdoutLogAppender w"

text \<open>FileLogAppender::log.\<close>

definition file_write_body :: "nat \<Rightarrow> Level \<Rightarrow> event \<Rightarrow> world \<Rightarrow> world res" where
  "file_write_body a level e w = (case get_appender w a of
     None \<Rightarrow> Inl (Null_Deref ''FileLogAppender'')
   | Some ap \<Rightarrow> (case ap_formatter ap of
       None \<Rightarrow> Inl (Null_Deref ''m_formatter'')
     | Some fm \<Rightarrow> rbind (format_str (world_env w) fm level e) (\<lambda>s.
         case of_write s (ap_filestream ap) (w_disk w) of (st, d) \<Rightarrow>
           let w1 = put_appender a (ap\<lparr>ap_filestream := st\<rparr>) (w\<lparr>w_disk := d\<rparr>) in
           Inr (if os_fail st then print (''error'' @ nl) w1 else w1))))"

definition FileLogAppender_log :: "nat \<Rightarrow> Level \<Rightarrow> event \<Rightarrow> world \<Rightarrow> world res" where
  "FileLogAppender_log a level e w = (case get_appender w a of
     None \<Rightarrow> Inl (Null_Deref ''FileLogAppender'')
   | Some ap \<Rightarrow>
       if ap_level ap \<le> level then
         rbind (if w_now w \<noteq> ap_lastTime ap then
                  rbind (FileLogAppender_reopen a w)
                    (\<lambda>(ok, w1). update_appender a (\<lambda>ap. ap\<lparr>ap_lastTime := w_now w\<rparr>) w1)
                else Inr w)
           (locked_appender a (file_write_body a level e))
       else Inr w)"

text \<open>StdoutLogAppender::log.\<close>

definition stdout_write_body :: "nat \<Rightarrow> Level \<Rightarrow> event \<Rightarrow> world \<Rightarrow> world res" where
  "stdout_write_body a level e w = (case get_appender w a of
     None \<Rightarrow> Inl (Null_Deref ''StdoutLogAppender'')
   | Some ap \<Rightarrow> (case ap_formatter ap of
       None \<Rightarrow> Inl (Null_Deref ''m_formatter'')
     | Some fm \<Rightarrow> rbind (format_os (world_env w) (w_stdout w) fm level e)
         (\<lambda>out. Inr (w\<lparr>w_stdout := out\<rparr>))))"

definition StdoutLogAppender_log :: "nat \<Rightarrow> Level \<Rightarrow> event \<Rightarrow> world \<Rightarrow> world res" where
  "StdoutLogAppender_log a level e w = (case get_appender w a of
     None \<Rightarrow> Inl (Null_Deref ''StdoutLogAppender'')
   | Some ap \<Rightarrow>
       if ap_level ap \<le> level then locked_appender a (stdout_write_body a level e) w else Inr w)"

text \<open>The virtual call LogAppender::log.\<close>

definition LogAppender_log :: "nat \<Rightarrow> Level \<Rightarrow> event \<Rightarrow> world \<Rightarrow> world res" where
  "LogAppender_log a level e w = (case get_appender w a of
     None \<Rightarrow> Inl (Null_Deref ''LogAppender'')
   | Some ap \<Rightarrow> (case ap_kind ap of
       StdoutLogAppender \<Rightarrow> StdoutLogAppender_log a level e w
     | FileLogAppender f \<Rightarrow> FileLogAppender_log a level e w))"

section \<open>Scopes that hold an appender's lock\<close>

lemma lock_appender_Inr:
  "lock_appender a w = Inr w1 \<longleftrightarrow>
     (\<exists>ap. get_appender w a = Some ap \<and> \<not> ap_mutex ap \<and> w1 = put_appender a (ap\<lparr>ap_mutex := True\<rparr>) w)"
  by (auto simp: lock_appender_def Spinlock_lock_def split: option.splits)

lemma lock_appender_free:
  "get_appender w a = Some ap \<Longrightarrow> \<not> ap_mutex ap \<Longrightarrow>
     lock_appender a w = Inr (put_appender a (ap\<lparr>ap_mutex := True\<rparr>) w)"
  by (simp add: lock_appender_Inr)

lemma unlock_appender_simp:
  "get_appender w a = Some ap \<Longrightarrow> unlock_appender a w = put_appender a (ap\<lparr>ap_mutex := False\<rparr>) w"
  by (simp add: unlock_appender_def Spinlock_unlock_def)

lemma locked_appender_Inr:
  "locked_appender a body w = Inr w' \<longleftrightarrow>
     (\<exists>ap w2. get_appender w a = Some ap \<and> \<not> ap_mutex ap \<and>
        body (put_appender a (ap\<lparr>ap_mutex := True\<rparr>) w) = Inr w2 \<and> w' = unlock_appender a w2)"
  by (auto simp: locked_appender_def rbind_eq_Inr lock_appender_Inr)

lemma locked_appender_frame:
  assumes "locked_appender a body w = Inr w'" and "\<And>w1 w2. body w1 = Inr w2 \<Longrightarrow> frame w1 w2"
  shows "frame w w'"
proof -
  from assms(1) obtain ap w2 where ap: "get_appender w a = Some ap" "\<not> ap_mutex ap"
    and body: "body (put_appender a (ap\<lparr>ap_mutex := True\<rparr>) w) = Inr w2" and w': "w' = unlock_appender a w2"
    unfolding locked_appender_Inr by blast
  let ?w1 = "put_appender a (ap\<lparr>ap_mutex := True\<rparr>) w"
  from body have fr: "frame ?w1 w2" by (rule assms(2))
  moreover have "get_appender ?w1 a = Some (ap\<lparr>ap_mutex := True\<rparr>)" using ap(1) by simp
  ultimately obtain ap2 where ap2: "get_appender w2 a = Some ap2" and core: "ap_core ap2 = ap_core (ap\<lparr>ap_mutex := True\<rparr>)"
    using frame_get_appender by blast
  have ap_core_False: "ap_core (ap2\<lparr>ap_mutex := False\<rparr>) = ap_core ap" using core ap(2) by (simp add: ap_core_def)
  from fr have "map ap_core (w_appenders w2) = (map ap_core (w_appenders w))[a := ap_core (ap\<lparr>ap_mutex := True\<rparr>)]"
    by (simp add: frame_def put_appender_def map_update)
  then have "map ap_core (w_appenders (put_appender a (ap2\<lparr>ap_mutex := False\<rparr>) w2)) = (map ap_core (w_appenders w))[a := ap_core ap]"
    by (simp add: put_appender_def map_update ap_core_False)
  also have "\<dots> = map ap_core (w_appenders w)"
    using ap(1) by (auto simp: get_appender_def list_update_same_conv split: if_splits)
  finally show ?thesis
    using fr by (simp add: w' unlock_appender_simp [OF ap2] frame_def)
qed

section \<open>Faults that logging can end in\<close>

text \<open>
  The one fault a well-formed logger can run into is the unspecified date buffer.
\<close>

definition safe :: "'a res \<Rightarrow> bool" where
  "safe r = (case r of Inl f \<Rightarrow> f = date_fault | Inr _ \<Rightarrow> True)"

lemma safe_simps [simp]: "safe (Inr x)" "safe (Inl date_fault)"
  by (simp_all add: safe_def)

lemma safe_rbind: "safe r \<Longrightarrow> (\<And>x. r = Inr x \<Longrightarrow> safe (f x)) \<Longrightarrow> safe (rbind r f)"
  by (cases r) (auto simp: safe_def)

lemma safe_item_format: "ev_logger e \<noteq> None \<Longrightarrow> safe (item_format env level e it)"
  by (cases it) (auto simp: Let_def)

lemma safe_rfold_fmt: "ev_logger e \<noteq> None \<Longrightarrow> safe (rfold (fmt_step env level e) its os)"
  by (induction its arbitrary: os) (auto intro!: safe_rbind safe_item_format simp: fmt_step_def)

lemma safe_format: "ev_logger e \<noteq> None \<Longrightarrow> safe (format_str env fm level e)"
  "ev_logger e \<noteq> None \<Longrightarrow> safe (format_os env ofs fm level e)"
  by (simp_all add: format_str_def format_os_def safe_rfold_fmt)

lemma locked_appender_safe:
  assumes "get_appender w a = Some ap" and "\<not> ap_mutex ap"
    and "safe (body (put_appender a (ap\<lparr>ap_mutex := True\<rparr>) w))"
  shows "safe (locked_appender a body w)"
  using assms by (simp add: locked_appender_def lock_appender_free safe_rbind)

section \<open>The contract of LogAppender::log\<close>

definition ready :: "world \<Rightarrow> nat \<Rightarrow> bool" where
  "ready w a \<longleftrightarrow> (\<exists>ap. get_appender w a = Some ap \<and> \<not> ap_mutex ap \<and> ap_formatter ap \<noteq> None)"

lemma ready_frame: "frame w w' \<Longrightarrow> ready w a \<Longrightarrow> ready w' a"
  unfolding ready_def using frame_get_appender by (fastforce simp: ap_core_def)

locale log_appender =
  fixes log :: "nat \<Rightarrow> Level \<Rightarrow> event \<Rightarrow> world \<Rightarrow> world res"
  assumes log_threshold: "get_appender w a = Some ap \<Longrightarrow> level < ap_level ap \<Longrightarrow> log a level e w = Inr w"
    and log_frame: "log a level e w = Inr w' \<Longrightarrow> frame w w'"
    and log_safe: "ready w a \<Longrightarrow> ev_logger e \<noteq> None \<Longrightarrow> safe (log a level e w)"
begin

lemma log_all_frame: "rfold (\<lambda>a. log a level e) as w = Inr w' \<Longrightarrow> frame w w'"
  by (induction as arbitrary: w) (auto simp: rbind_eq_Inr dest!: log_frame intro: frame_trans)

lemma log_all_safe:
  "\<forall>a \<in> set as. ready w a \<Longrightarrow> ev_logger e \<noteq> None \<Longrightarrow> safe (rfold (\<lambda>a. log a level e) as w)"
proof (induction as arbitrary: w)
  case (Cons a as)
  then have "safe (log a level e w)" by (intro log_safe) auto
  then show ?case
    by (simp, intro safe_rbind) (use Cons in \<open>auto dest!: log_frame intro: ready_frame\<close>)
qed simp

lemma log_all_quiet:
  "\<forall>a \<in> set as. \<exists>ap. get_appender w a = Some ap \<and> level < ap_level ap \<Longrightarrow>
     rfold (\<lambda>a. log a level e) as w = Inr w"
  by (induction as) (auto simp: log_threshold)

end

section \<open>Both subclasses meet the contract\<close>

lemma stdout_write_frame: "stdout_write_body a level e w = Inr w' \<Longrightarrow> frame w w'"
  by (auto simp: stdout_write_body_def rbind_eq_Inr split: option.splits)

lemma ap_core_filestream [simp]: "ap_core (ap\<lparr>ap_filestream := st\<rparr>) = ap_core ap"
  by (simp add: ap_core_def)

lemma ap_core_lastTime [simp]: "ap_core (ap\<lparr>ap_lastTime := t\<rparr>) = ap_core ap"
  by (simp add: ap_core_def)

lemma frame_put_disk:
  "get_appender w a = Some ap \<Longrightarrow> frame w (put_appender a (ap\<lparr>ap_filestream := st\<rparr>) (w\<lparr>w_disk := d\<rparr>))"
  by (rule frame_trans [OF frame_disk frame_put_appender]) auto

lemma reopen_body_frame: "reopen_body a w = Inr w' \<Longrightarrow> frame w w'"
  by (auto simp: reopen_body_def Let_def intro: frame_put_disk frame_trans [OF frame_put_disk frame_print]
      split: option.splits prod.splits if_splits)

lemma file_write_frame: "file_write_body a level e w = Inr w' \<Longrightarrow> frame w w'"
  by (auto simp: file_write_body_def rbind_eq_Inr Let_def case_prod_beta
      intro: frame_put_disk frame_trans [OF frame_put_disk frame_print] split: option.splits if_splits)

lemma reopen_frame: "FileLogAppender_reopen a w = Inr (ok, w') \<Longrightarrow> frame w w'"
  by (auto simp: FileLogAppender_reopen_def rbind_eq_Inr split: option.splits
      dest!: locked_appender_frame [OF _ reopen_body_frame])

lemma reopen_returns:
  assumes "get_appender w a = Some ap" and "\<not> ap_mutex ap"
  shows "\<exists>ok w'. FileLogAppender_reopen a w = Inr (ok, w')"
proof -
  have "safe (locked_appender a (reopen_body a) w)"
    using assms by (intro locked_appender_safe) (auto simp: reopen_body_def Let_def split: prod.splits)
  moreover have "locked_appender a (reopen_body a) w \<noteq> Inl (Unspecified s)" for s
    using assms by (auto simp: locked_appender_def lock_appender_free reopen_body_def Let_def split: prod.splits)
  ultimately obtain w1 where w1: "locked_appender a (reopen_body a) w = Inr w1"
    by (cases "locked_appender a (reopen_body a) w") (auto simp: safe_def)
  have "frame w w1" by (rule locked_appender_frame [OF w1]) (rule reopen_body_frame)
  with assms(1) obtain ap1 where "get_appender w1 a = Some ap1" using frame_get_appender by blast
  with w1 show ?thesis by (simp add: FileLogAppender_reopen_def)
qed

lemma stdout_write_safe:
  "get_appender w a = Some ap \<Longrightarrow> ap_formatter ap \<noteq> None \<Longrightarrow> ev_logger e \<noteq> None \<Longrightarrow>
     safe (stdout_write_body a level e w)"
  by (auto simp: stdout_write_body_def intro!: safe_rbind safe_format)

lemma file_write_safe:
  "get_appender w a = Some ap \<Longrightarrow> ap_formatter ap \<noteq> None \<Longrightarrow> ev_logger e \<noteq> None \<Longrightarrow>
     safe (file_write_body a level e w)"
  by (auto simp: file_write_body_def Let_def intro!: safe_rbind safe_format split: prod.splits)

interpretation stdout_appender: log_appender StdoutLogAppender_log
proof unfold_locales
  show "StdoutLogAppender_log a level e w = Inr w" if "get_appender w a = Some ap" "level < ap_level ap"
    for w a ap level e
    using that by (auto simp: StdoutLogAppender_log_def)
  show "frame w w'" if "StdoutLogAppender_log a level e w = Inr w'" for a level e w w'
    using that by (auto simp: StdoutLogAppender_log_def split: option.splits if_splits
        dest: locked_appender_frame [OF _ stdout_write_frame])
  show "safe (StdoutLogAppender_log a level e w)" if "ready w a" "ev_logger e \<noteq> None" for w a e level
    using that by (auto simp: StdoutLogAppender_log_def ready_def
        intro!: locked_appender_safe stdout_write_safe)
qed

lemma update_appender_Inr:
  "update_appender a f w = Inr w' \<longleftrightarrow> (\<exists>ap. get_appender w a = Some ap \<and> w' = put_appender a (f ap) w)"
  by (auto simp: update_appender_def split: option.splits)

text \<open>The reopening part of FileLogAppender::log.\<close>

definition refresh :: "nat \<Rightarrow> appender \<Rightarrow> world \<Rightarrow> world res" where
  "refresh a ap w =
     (if w_now w \<noteq> ap_lastTime ap then
        rbind (FileLogAppender_reopen a w)
          (\<lambda>(ok, w1). update_appender a (\<lambda>ap. ap\<lparr>ap_lastTime := w_now w\<rparr>) w1)
      else Inr w)"

lemma FileLogAppender_log_refresh:
  "get_appender w a = Some ap \<Longrightarrow> ap_level ap \<le> level \<Longrightarrow>
     FileLogAppender_log a level e w = rbind (refresh a ap w) (locked_appender a (file_write_body a level e))"
  by (simp add: FileLogAppender_log_def refresh_def)

lemma refresh_frame: "refresh a ap w = Inr w' \<Longrightarrow> frame w w'"
  by (auto simp: refresh_def rbind_eq_Inr update_appender_Inr split: if_splits
      dest!: reopen_frame intro: frame_trans [OF _ frame_put_appender])

lemma refresh_returns:
  assumes "get_appender w a = Some ap" and "\<not> ap_mutex ap"
  shows "\<exists>w'. refresh a ap w = Inr w'"
proof (cases "w_now w = ap_lastTime ap")
  case False
  from reopen_returns [OF assms] obtain ok w1 where w1: "FileLogAppender_reopen a w = Inr (ok, w1)" by blast
  from frame_get_appender [OF reopen_frame [OF w1] assms(1)] obtain ap1 where "get_appender w1 a = Some ap1" by blast
  with w1 False show ?thesis by (simp add: refresh_def update_appender_def)
qed (simp add: refresh_def)

interpretation file_appender: log_appender FileLogAppender_log
proof unfold_locales
  show "FileLogAppender_log a level e w = Inr w" if "get_appender w a = Some ap" "level < ap_level ap"
    for w a ap level e
    using that by (auto simp: FileLogAppender_log_def)
  show "frame w w'" if "FileLogAppender_log a level e w = Inr w'" for a level e w w'
  proof (cases "get_appender w a")
    case None
    with that show ?thesis by (simp add: FileLogAppender_log_def)
  next
    case (Some ap)
    show ?thesis
    proof (cases "ap_level ap \<le> level")
      case True
      with that Some show ?thesis
        by (auto simp: FileLogAppender_log_refresh rbind_eq_Inr
            dest!: refresh_frame locked_appender_frame [OF _ file_write_frame] intro: frame_trans)
    qed (use that Some in \<open>simp add: FileLogAppender_log_def\<close>)
  qed
  show "safe (FileLogAppender_log a level e w)" if r: "ready w a" and lg: "ev_logger e \<noteq> None" for w a e level
  proof -
    from r obtain ap where ap: "get_appender w a = Some ap" "\<not> ap_mutex ap" by (auto simp: ready_def)
    then obtain w1 where w1: "refresh a ap w = Inr w1" using refresh_returns by blast
    from ready_frame [OF refresh_frame [OF w1] r] have "safe (locked_appender a (file_write_body a level e) w1)"
      using lg by (auto simp: ready_def intro!: locked_appender_safe file_write_safe)
    with ap(1) w1 show ?thesis
    proof (cases "ap_level ap \<le> level")
      case True
      with ap(1) w1 \<open>safe (locked_appender a (file_write_body a level e) w1)\<close> show ?thesis
        by (simp add: FileLogAppender_log_refresh)
    qed (simp add: FileLogAppender_log_def)
  qed
qed

interpretation appender: log_appender LogAppender_log
proof unfold_locales
  show "LogAppender_log a level e w = Inr w" if "get_appender w a = Some ap" "level < ap_level ap"
    for w a ap level e
    using that by (auto simp: LogAppender_log_def stdout_appender.log_threshold file_appender.log_threshold
        split: appender_kind.split)
  show "frame w w'" if "LogAppender_log a level e w = Inr w'" for a level e w w'
    using that by (auto simp: LogAppender_log_def split: option.splits appender_kind.splits
        dest: stdout_appender.log_frame file_appender.log_frame)
  show "safe (LogAppender_log a level e w)" if "ready w a" "ev_logger e \<noteq> None" for w a e level
    using that stdout_appender.log_safe [of w a e level] file_appender.log_safe [of w a e level]
    by (auto simp: LogAppender_log_def ready_def split: appender_kind.split)
qed

section \<open>What a file appender writes\<close>

lemma frame_world_env: "frame w w' \<Longrightarrow> world_env w' = world_env w"
  by (simp add: world_env_def frame_get_logger) (simp add: frame_def)

lemma world_env_put_appender [simp]: "world_env (put_appender a ap w) = world_env w"
  by (simp add: world_env_def)

lemma world_env_disk [simp]: "world_env (w\<lparr>w_disk := d\<rparr>) = world_env w"
  by (simp add: world_env_def)

lemma put_appender_disk_commute: "put_appender a ap (w\<lparr>w_disk := d\<rparr>) = (put_appender a ap w)\<lparr>w_disk := d\<rparr>"
  by (simp add: put_appender_def)

lemma reopen_effect:
  assumes ap: "get_appender w a = Some ap" "\<not> ap_mutex ap"
    and st: "reopen_stream (ap_filename ap) (ap_filestream ap) (w_disk w) = (st, d)"
  shows "\<exists>w'. FileLogAppender_reopen a w = Inr (\<not> os_fail st, w') \<and> w_disk w' = d \<and>
    get_appender w' a = Some (ap\<lparr>ap_filestream := st\<rparr>)"
proof -
  have name: "ap_filename (ap\<lparr>ap_mutex := m\<rparr>) = ap_filename ap" for m by (simp add: ap_filename_def)
  let ?w1 = "put_appender a (ap\<lparr>ap_mutex := True\<rparr>) w"
  let ?w2 = "put_appender a (ap\<lparr>ap_mutex := True, ap_filestream := st\<rparr>) (?w1\<lparr>w_disk := d\<rparr>)"
  let ?w3 = "if os_fail st then print (''!!!! open error !!!!'' @ nl) ?w2 else ?w2"
  have body: "reopen_body a ?w1 = Inr ?w3"
    using ap st by (simp add: reopen_body_def name Let_def)
  have get3: "get_appender ?w3 a = Some (ap\<lparr>ap_mutex := True, ap_filestream := st\<rparr>)"
    using ap by simp
  have ap': "ap\<lparr>ap_filestream := st, ap_mutex := False\<rparr> = ap\<lparr>ap_filestream := st\<rparr>"
    using ap(2) by (cases ap) simp
  let ?w4 = "unlock_appender a ?w3"
  have "locked_appender a (reopen_body a) w = Inr ?w4"
    using ap body by (simp add: locked_appender_def lock_appender_free)
  moreover have "get_appender ?w4 a = Some (ap\<lparr>ap_filestream := st\<rparr>)" and "w_disk ?w4 = d"
    using get3 ap' by (simp_all add: unlock_appender_simp [OF get3])
  ultimately show ?thesis by (simp add: FileLogAppender_reopen_def)
qed

lemma refresh_effect:
  assumes ap: "get_appender w a = Some ap" "\<not> ap_mutex ap"
    and st: "(if w_now w \<noteq> ap_lastTime ap then reopen_stream (ap_filename ap) (ap_filestream ap) (w_disk w)
              else (ap_filestream ap, w_disk w)) = (st, d)"
  shows "\<exists>w'. refresh a ap w = Inr w' \<and> w_disk w' = d \<and>
    get_appender w' a = Some (ap\<lparr>ap_filestream := st, ap_lastTime := w_now w\<rparr>)"
proof (cases "w_now w = ap_lastTime ap")
  case True
  with ap st show ?thesis by (simp add: refresh_def)
next
  case False
  with st reopen_effect [OF ap] obtain w1 where "FileLogAppender_reopen a w = Inr (\<not> os_fail st, w1)"
    and "w_disk w1 = d" and "get_appender w1 a = Some (ap\<lparr>ap_filestream := st\<rparr>)" by auto
  with False show ?thesis by (simp add: refresh_def update_appender_def)
qed

lemma file_log_effect:
  assumes ap: "get_appender w a = Some ap" "\<not> ap_mutex ap" "ap_level ap \<le> level" "ap_formatter ap = Some fm"
    and fmt: "format_str (world_env w) fm level e = Inr s"
    and st: "(if w_now w \<noteq> ap_lastTime ap then reopen_stream (ap_filename ap) (ap_filestream ap) (w_disk w)
              else (ap_filestream ap, w_disk w)) = (st, d)"
    and wr: "of_write s st d = (st', d')"
  shows "\<exists>w'. FileLogAppender_log a level e w = Inr w' \<and> w_disk w' = d' \<and>
    get_appender w' a = Some (ap\<lparr>ap_filestream := st', ap_lastTime := w_now w\<rparr>)"
proof -
  obtain w1 where w1: "refresh a ap w = Inr w1" "w_disk w1 = d"
    and ap1: "get_appender w1 a = Some (ap\<lparr>ap_filestream := st, ap_lastTime := w_now w\<rparr>)"
    using refresh_effect [OF ap(1,2) st] by blast
  let ?ap1 = "ap\<lparr>ap_filestream := st, ap_lastTime := w_now w\<rparr>"
  have env: "world_env w1 = world_env w" using refresh_frame [OF w1(1)] by (rule frame_world_env)
  let ?w2 = "put_appender a (?ap1\<lparr>ap_mutex := True\<rparr>) w1"
  let ?w3 = "put_appender a (?ap1\<lparr>ap_mutex := True, ap_filestream := st'\<rparr>) (?w2\<lparr>w_disk := d'\<rparr>)"
  let ?w4 = "if os_fail st' then print (''error'' @ nl) ?w3 else ?w3"
  have "file_write_body a level e ?w2 = Inr ?w4"
    using ap1 ap(4) fmt wr w1(2) by (simp add: file_write_body_def env Let_def)
  moreover have get4: "get_appender ?w4 a = Some (?ap1\<lparr>ap_mutex := True, ap_filestream := st'\<rparr>)"
    using ap1 by simp
  ultimately have "FileLogAppender_log a level e w = Inr (unlock_appender a ?w4)"
    using ap w1 ap1 by (simp add: FileLogAppender_log_refresh locked_appender_def lock_appender_free)
  moreover have "get_appender (unlock_appender a ?w4) a = Some (ap\<lparr>ap_filestream := st', ap_lastTime := w_now w\<rparr>)"
    and "w_disk (unlock_appender a ?w4) = d'"
    using get4 ap(2) by (simp_all add: unlock_appender_simp [OF get4])
  ultimately show ?thesis by blast
qed

text \<open>A stream that is not stuck comes out of reopen with the file behind the name open.\<close>

definition stuck :: "ofstream \<Rightarrow> bool" where
  "stuck st \<longleftrightarrow> os_fail st \<and> os_open st \<noteq> None"

lemma reopen_not_stuck:
  assumes "\<not> stuck st" and "d_can_open d name"
  shows "reopen_stream name st d =
    (case disk_open name d of (ino, d') \<Rightarrow> (\<lparr>os_open = Some ino, os_fail = False\<rparr>, d'))"
  using assms by (auto simp: reopen_stream_def of_open_app_def of_close_def stuck_def split: option.splits)

lemma reopen_stuck: "stuck st \<Longrightarrow> reopen_stream name st d = (st, d)"
  by (auto simp: reopen_stream_def of_open_app_def stuck_def)

lemma write_stuck: "stuck st \<Longrightarrow> of_write s st d = (st, d)"
  by (simp add: of_write_def stuck_def)

lemma file_text_append:
  "d_names d name = Some ino \<Longrightarrow>
     file_text (d\<lparr>d_data := (d_data d)(ino := d_data d ino @ s)\<rparr>) name = Some (d_data d ino @ s)"
  by (simp add: file_text_def)

lemma disk_open_text:
  "disk_open name d = (ino, d') \<Longrightarrow> d_names d' name = Some ino \<and> d_full d' = d_full d \<and>
     d_data d' ino = (case file_text d name of None \<Rightarrow> [] | Some t \<Rightarrow> t)"
  by (auto simp: disk_open_def file_text_def split: option.splits)

text \<open>
  The first record of a new second lands in the file that the name leads to at that moment, which
  is created when the name is gone.
\<close>

lemma file_log_new_second:
  assumes "get_appender w a = Some ap" "\<not> ap_mutex ap" "ap_level ap \<le> level" "ap_formatter ap = Some fm"
    and "format_str (world_env w) fm level e = Inr s"
    and "w_now w \<noteq> ap_lastTime ap" and "\<not> stuck (ap_filestream ap)"
    and "d_can_open (w_disk w) (ap_filename ap)" and "\<not> d_full (w_disk w)"
  shows "\<exists>w'. FileLogAppender_log a level e w = Inr w' \<and>
    file_text (w_disk w') (ap_filename ap) =
      Some ((case file_text (w_disk w) (ap_filename ap) of None \<Rightarrow> [] | Some t \<Rightarrow> t) @ s)"
proof -
  obtain ino d where op: "disk_open (ap_filename ap) (w_disk w) = (ino, d)" by fastforce
  with assms(7,8) have re: "reopen_stream (ap_filename ap) (ap_filestream ap) (w_disk w) = (\<lparr>os_open = Some ino, os_fail = False\<rparr>, d)"
    by (simp add: reopen_not_stuck)
  obtain st' d' where wr: "of_write s \<lparr>os_open = Some ino, os_fail = False\<rparr> d = (st', d')" by fastforce
  from file_log_effect [OF assms(1-5) _ wr] re assms(6)
  obtain w' where w': "FileLogAppender_log a level e w = Inr w'" "w_disk w' = d'" by auto
  from disk_open_text [OF op] wr assms(9) have "file_text d' (ap_filename ap) =
      Some ((case file_text (w_disk w) (ap_filename ap) of None \<Rightarrow> [] | Some t \<Rightarrow> t) @ s)"
    by (auto simp: of_write_def file_text_def split: if_splits)
  with w' show ?thesis by auto
qed

text \<open>Within the same second the file is not reopened: no name changes.\<close>

lemma file_log_same_second:
  assumes "get_appender w a = Some ap" "\<not> ap_mutex ap" "ap_level ap \<le> level" "ap_formatter ap = Some fm"
    and "format_str (world_env w) fm level e = Inr s"
    and "w_now w = ap_lastTime ap"
    and "os_open (ap_filestream ap) = Some ino" "\<not> os_fail (ap_filestream ap)" "\<not> d_full (w_disk w)"
  shows "\<exists>w'. FileLogAppender_log a level e w = Inr w' \<and> d_names (w_disk w') = d_names (w_disk w) \<and>
    d_data (w_disk w') = (d_data (w_disk w))(ino := d_data (w_disk w) ino @ s)"
proof -
  obtain st' d' where wr: "of_write s (ap_filestream ap) (w_disk w) = (st', d')" by fastforce
  from file_log_effect [OF assms(1-5) _ wr] assms(6)
  obtain w' where w': "FileLogAppender_log a level e w = Inr w'" "w_disk w' = d'" by auto
  from wr assms(7-9) have "d_names d' = d_names (w_disk w) \<and>
      d_data d' = (d_data (w_disk w))(ino := d_data (w_disk w) ino @ s)"
    by (auto simp: of_write_def split: if_splits)
  with w' show ?thesis by auto
qed

text \<open>
  A run of an appender: before each record the environment may move the clock and change the disk
  in any way.
\<close>

fun file_run :: "nat \<Rightarrow> (64 word \<times> (disk \<Rightarrow> disk) \<times> Level \<times> event) list \<Rightarrow> world \<Rightarrow> world res" where
  "file_run a [] w = Inr w"
| "file_run a ((t, f, level, e) # xs) w =
     rbind (FileLogAppender_log a level e (w\<lparr>w_now := t, w_disk := f (w_disk w)\<rparr>)) (file_run a xs)"

lemma stuck_log_step:
  assumes "get_appender w a = Some ap" and "stuck (ap_filestream ap)" and log: "FileLogAppender_log a level e w = Inr w'"
  shows "w_disk w' = w_disk w \<and> (\<exists>ap'. get_appender w' a = Some ap' \<and> stuck (ap_filestream ap'))"
proof (cases "ap_level ap \<le> level")
  case False
  with assms show ?thesis by (simp add: FileLogAppender_log_def)
next
  case True
  with assms(1) log obtain w1 where w1: "refresh a ap w = Inr w1"
    and lk: "locked_appender a (file_write_body a level e) w1 = Inr w'"
    by (auto simp: FileLogAppender_log_refresh rbind_eq_Inr)
  have free: "\<not> ap_mutex ap"
  proof
    assume "ap_mutex ap"
    moreover from frame_get_appender [OF refresh_frame [OF w1] assms(1)]
    obtain ap1 where "get_appender w1 a = Some ap1" "ap_mutex ap1 = ap_mutex ap" by (auto simp: ap_core_def)
    ultimately show False using lk by (simp add: locked_appender_Inr)
  qed
  obtain fm s where fm: "ap_formatter ap = Some fm" and s: "format_str (world_env w) fm level e = Inr s"
  proof -
    from frame_get_appender [OF refresh_frame [OF w1] assms(1)]
    obtain ap1 where "get_appender w1 a = Some ap1" "ap_formatter ap1 = ap_formatter ap" by (auto simp: ap_core_def)
    with lk frame_world_env [OF refresh_frame [OF w1]] that show thesis
      by (auto simp: locked_appender_Inr file_write_body_def rbind_eq_Inr split: option.splits)
  qed
  from file_log_effect [OF assms(1) free True fm s _ write_stuck [OF assms(2)]] assms(2) log
  show ?thesis by (cases "w_now w = ap_lastTime ap") (auto simp: reopen_stuck)
qed

lemma stuck_run:
  assumes "get_appender w a = Some ap" and "stuck (ap_filestream ap)" and "file_run a xs w = Inr w'"
  shows "w_disk w' = fold (\<lambda>(t, f, level, e). f) xs (w_disk w)"
  using assms
proof (induction xs arbitrary: w ap)
  case Nil
  then show ?case by simp
next
  case (Cons x xs)
  obtain t f level e where x: "x = (t, f, level, e)" by (cases x)
  let ?w0 = "w\<lparr>w_now := t, w_disk := f (w_disk w)\<rparr>"
  from Cons.prems x obtain w1 where w1: "FileLogAppender_log a level e ?w0 = Inr w1" and rest: "file_run a xs w1 = Inr w'"
    by (auto simp: rbind_eq_Inr)
  from Cons.prems(1) have "get_appender ?w0 a = Some ap" by (auto simp: get_appender_def split: if_splits)
  from stuck_log_step [OF this Cons.prems(2) w1] obtain ap1
    where "w_disk w1 = f (w_disk w)" "get_appender w1 a = Some ap1" "stuck (ap_filestream ap1)" by auto
  with Cons.IH rest x show ?case by simp
qed

lemma stuck_log_returns:
  assumes ap: "get_appender w a = Some ap" "\<not> ap_mutex ap" "ap_formatter ap = Some fm" and st: "stuck (ap_filestream ap)"
    and fmt: "\<exists>s. format_str (world_env w) fm level e = Inr s"
  shows "\<exists>w' ap'. FileLogAppender_log a level e w = Inr w' \<and> get_appender w' a = Some ap' \<and>
    \<not> ap_mutex ap' \<and> ap_formatter ap' = Some fm \<and> stuck (ap_filestream ap') \<and> world_env w' = world_env w"
proof (cases "ap_level ap \<le> level")
  case False
  with ap st show ?thesis by (simp add: FileLogAppender_log_def)
next
  case True
  from fmt obtain s where s: "format_str (world_env w) fm level e = Inr s" by blast
  from file_log_effect [OF ap(1,2) True ap(3) s _ write_stuck [OF st]] reopen_stuck [OF st]
  obtain w' where w': "FileLogAppender_log a level e w = Inr w'"
    and "get_appender w' a = Some (ap\<lparr>ap_filestream := ap_filestream ap, ap_lastTime := w_now w\<rparr>)"
    by (cases "w_now w = ap_lastTime ap") auto
  with ap(2,3) st frame_world_env [OF file_appender.log_frame [OF w']] show ?thesis by simp
qed

lemma stuck_run_returns:
  assumes "get_appender w a = Some ap" "\<not> ap_mutex ap" "ap_formatter ap = Some fm" and "stuck (ap_filestream ap)"
    and "\<forall>x \<in> set xs. \<exists>s. format_str (world_env w) fm (fst (snd (snd x))) (snd (snd (snd x))) = Inr s"
  shows "\<exists>w'. file_run a xs w = Inr w'"
  using assms
proof (induction xs arbitrary: w ap)
  case Nil
  then show ?case by simp
next
  case (Cons x xs)
  obtain t f level e where x: "x = (t, f, level, e)" by (cases x)
  let ?w0 = "w\<lparr>w_now := t, w_disk := f (w_disk w)\<rparr>"
  have env: "world_env ?w0 = world_env w" by (simp add: world_env_def)
  have ap0: "get_appender ?w0 a = Some ap" using Cons.prems(1) by simp
  have "\<exists>s. format_str (world_env ?w0) fm level e = Inr s" using Cons.prems(5) x env by simp
  from stuck_log_returns [OF ap0 Cons.prems(2,3,4) this] obtain w1 ap1
    where w1: "FileLogAppender_log a level e ?w0 = Inr w1" and ap1: "get_appender w1 a = Some ap1" "\<not> ap_mutex ap1"
      "ap_formatter ap1 = Some fm" "stuck (ap_filestream ap1)" and env1: "world_env w1 = world_env ?w0" by blast
  have "\<exists>w'. file_run a xs w1 = Inr w'"
    using Cons.prems(5) by (intro Cons.IH [OF ap1]) (simp add: trans [OF env1 env])
  with w1 x show ?case by simp
qed

section \<open>Properties\<close>

text \<open>
  A program with one file appender on app.log: at second 0 with a fresh stream, and with the stream
  in the state that a failed write leaves.
\<close>

definition demo_world :: "64 word \<Rightarrow> ofstream \<Rightarrow> bool \<Rightarrow> world" where
  "demo_world now st full = \<lparr>w_stdout = [],
     w_disk = \<lparr>d_names = Map.empty(''app.log'' \<mapsto> 0), d_data = (\<lambda>_. [])(0 := ''old ''), d_next = 1,
       d_can_open = (\<lambda>_. True), d_full = full\<rparr>,
     w_now = now, w_strftime = (\<lambda>f t. ''2022''), w_tid = 1, w_fid = 0, w_tname = ''main'', w_loggers = [],
     w_appenders = [\<lparr>ap_kind = FileLogAppender ''app.log'', ap_level = INFO, ap_hasFormatter = True,
       ap_formatter = Some (LogFormatter ''%m''), ap_mutex = False, ap_filestream = st, ap_lastTime = 5\<rparr>],
     w_mgr = \<lparr>mg_mutex = False, mg_loggers = [], mg_root = 0\<rparr>\<rparr>"

definition demo_appender :: "ofstream \<Rightarrow> appender" where
  "demo_appender st = \<lparr>ap_kind = FileLogAppender ''app.log'', ap_level = INFO, ap_hasFormatter = True,
     ap_formatter = Some (LogFormatter ''%m''), ap_mutex = False, ap_filestream = st, ap_lastTime = 5\<rparr>"

lemma demo_world_simps:
  "get_appender (demo_world now st full) 0 = Some (demo_appender st)" "w_now (demo_world now st full) = now"
  "d_can_open (w_disk (demo_world now st full)) n" "d_full (w_disk (demo_world now st full)) = full"
  "\<not> ap_mutex (demo_appender st)" "ap_level (demo_appender st) = INFO" "ap_lastTime (demo_appender st) = 5"
  "ap_formatter (demo_appender st) = Some (LogFormatter ''%m'')" "ap_filestream (demo_appender st) = st"
  "ap_filename (demo_appender st) = ''app.log''"
  by (simp_all add: demo_world_def demo_appender_def get_appender_def ap_filename_def)

lemma demo_format: "format_str (world_env (demo_world now st full)) (LogFormatter ''%m'') level demo_event = Inr ''hello''"
proof -
  have "f_items (LogFormatter ''%m'') = [MessageFormatItem]" by code_simp
  then show ?thesis by (simp add: format_str_def fmt_step_def demo_event_def ev_write_def mk_event_def)
qed

text \<open>
  C33. A file appender appends, and survives the removal of its file: the first record at or above its
  level in a new second is appended to the file that the name leads to at that moment, which is
  created empty if the name is gone, and nothing already in that file is lost. Within the second of
  the last reopen, a record goes to the file that the stream has open, even when its name has been
  removed or leads elsewhere meanwhile, and no name changes.
\<close>

theorem file_log_appends:
  assumes "get_appender w a = Some ap" "\<not> ap_mutex ap" "ap_level ap \<le> level" "ap_formatter ap = Some fm"
    and "format_str (world_env w) fm level e = Inr s" and "\<not> d_full (w_disk w)"
  shows "(w_now w \<noteq> ap_lastTime ap \<and> \<not> stuck (ap_filestream ap) \<and> d_can_open (w_disk w) (ap_filename ap) \<longrightarrow>
      (\<exists>w'. FileLogAppender_log a level e w = Inr w' \<and> file_text (w_disk w') (ap_filename ap) =
        Some ((case file_text (w_disk w) (ap_filename ap) of None \<Rightarrow> [] | Some t \<Rightarrow> t) @ s))) \<and>
    (w_now w = ap_lastTime ap \<and> os_open (ap_filestream ap) = Some ino \<and> \<not> os_fail (ap_filestream ap) \<longrightarrow>
      (\<exists>w'. FileLogAppender_log a level e w = Inr w' \<and> d_names (w_disk w') = d_names (w_disk w) \<and>
        d_data (w_disk w') = (d_data (w_disk w))(ino := d_data (w_disk w) ino @ s)))"
  using file_log_new_second [OF assms(1-5)] file_log_same_second [OF assms(1-5)] assms(6) by blast

theorem file_log_appends_witness:
  "(\<exists>w'. FileLogAppender_log 0 INFO demo_event (demo_world 6 of_new False) = Inr w' \<and>
     file_text (w_disk w') ''app.log'' = Some ''old hello'') \<and>
   (\<exists>w'. FileLogAppender_log 0 INFO demo_event (demo_world 5 \<lparr>os_open = Some 7, os_fail = False\<rparr> False) = Inr w' \<and>
     d_data (w_disk w') 7 = ''hello'')"
proof -
  let ?st = "\<lparr>os_open = Some 7, os_fail = False\<rparr> :: ofstream"
  have new: "\<not> stuck of_new" "file_text (w_disk (demo_world 6 of_new False)) ''app.log'' = Some ''old ''"
    by (simp_all add: stuck_def of_new_def file_text_def demo_world_def)
  have old: "d_data (w_disk (demo_world 5 st full)) 7 = []" for st full by (simp add: demo_world_def)
  show ?thesis
    using file_log_appends [of "demo_world 6 of_new False" 0 "demo_appender of_new" INFO "LogFormatter ''%m''"
        demo_event "''hello''"] new
      file_log_appends [of "demo_world 5 ?st False" 0 "demo_appender ?st" INFO "LogFormatter ''%m''" demo_event "''hello''" 7] old
    by (auto simp: demo_world_simps demo_format)
qed

text \<open>
  C35. A write error is permanent: once the stream of a file appender is in error with its file
  open, every later call returns, whatever the clock and the disk do between the calls, and no call
  ever writes to the disk again; the changes of the disk are those of the environment.
\<close>

theorem write_error_is_permanent:
  assumes "get_appender w a = Some ap" "\<not> ap_mutex ap" "ap_formatter ap = Some fm" and "stuck (ap_filestream ap)"
    and "\<forall>x \<in> set xs. \<exists>s. format_str (world_env w) fm (fst (snd (snd x))) (snd (snd (snd x))) = Inr s"
  shows "\<exists>w'. file_run a xs w = Inr w' \<and> w_disk w' = fold (\<lambda>(t, f, level, e). f) xs (w_disk w)"
  using stuck_run_returns [OF assms] stuck_run [OF assms(1,4)] by blast

text \<open>The write at second 5 fails on a full disk; then there is space again, and seconds pass.\<close>

theorem write_error_is_permanent_witness:
  "\<exists>w'. file_run 0 [(6, \<lambda>d. d\<lparr>d_full := False\<rparr>, ERROR, demo_event), (7, unlink ''app.log'', FATAL, demo_event)]
       (demo_world 5 \<lparr>os_open = Some 0, os_fail = True\<rparr> True) = Inr w' \<and>
     file_text (w_disk w') ''app.log'' = None \<and> d_data (w_disk w') 0 = ''old ''"
proof -
  let ?st = "\<lparr>os_open = Some 0, os_fail = True\<rparr> :: ofstream"
  let ?xs = "[(6, \<lambda>d. d\<lparr>d_full := False\<rparr>, ERROR, demo_event), (7, unlink ''app.log'', FATAL, demo_event)]
    :: (64 word \<times> (disk \<Rightarrow> disk) \<times> Level \<times> event) list"
  have "\<exists>w'. file_run 0 ?xs (demo_world 5 ?st True) = Inr w' \<and>
      w_disk w' = fold (\<lambda>(t, f, level, e). f) ?xs (w_disk (demo_world 5 ?st True))"
  proof (rule write_error_is_permanent [OF demo_world_simps(1)])
    show "\<forall>x \<in> set ?xs. \<exists>s. format_str (world_env (demo_world 5 ?st True)) (LogFormatter ''%m'')
        (fst (snd (snd x))) (snd (snd (snd x))) = Inr s"
      by (simp add: demo_format)
  qed (simp_all add: demo_world_simps stuck_def)
  then show ?thesis by (auto simp: demo_world_def unlink_def file_text_def)
qed

end
