(* ===== verification/Logger.thy ===== *)
theory Logger
  imports Appender Ordered_Map
begin

text \<open>
  Logger, the logging macros and LoggerManager (log.h, log.cpp). A logger holds a list of appenders
  and, when it was made by the manager, a pointer to the root logger that it falls back to. Every
  operation takes the spin locks the code takes, so a second acquisition on one path is a Deadlock.
\<close>

section \<open>Logger\<close>

definition new_Logger :: "string \<Rightarrow> world \<Rightarrow> nat \<times> world" where
  "new_Logger name w = (length (w_loggers w),
     w\<lparr>w_loggers := w_loggers w @
       [\<lparr>lg_name = name, lg_level = DEBUG, lg_appenders = [], lg_formatter = Some (LogFormatter default_pattern),
         lg_root = None, lg_mutex = Spinlock_init\<rparr>]\<rparr>)"

definition lock_logger :: "nat \<Rightarrow> world \<Rightarrow> world res" where
  "lock_logger l w = (case get_logger w l of
     None \<Rightarrow> Inl (Null_Deref ''Logger'')
   | Some lg \<Rightarrow> (case Spinlock_lock (lg_mutex lg) of
       None \<Rightarrow> Inl (Deadlock ''Logger::m_mutex'')
     | Some m \<Rightarrow> Inr (put_logger l (lg\<lparr>lg_mutex := m\<rparr>) w)))"

definition unlock_logger :: "nat \<Rightarrow> world \<Rightarrow> world" where
  "unlock_logger l w = (case get_logger w l of
     None \<Rightarrow> w
   | Some lg \<Rightarrow> put_logger l (lg\<lparr>lg_mutex := Spinlock_unlock (lg_mutex lg)\<rparr>) w)"

definition locked_logger :: "nat \<Rightarrow> (world \<Rightarrow> world res) \<Rightarrow> world \<Rightarrow> world res" where
  "locked_logger l body w =
     rbind (lock_logger l w) (\<lambda>w1. rbind (body w1) (\<lambda>w2. Inr (unlock_logger l w2)))"

definition update_logger :: "nat \<Rightarrow> (logger \<Rightarrow> logger) \<Rightarrow> world \<Rightarrow> world res" where
  "update_logger l f w = (case get_logger w l of
     None \<Rightarrow> Inl (Null_Deref ''Logger'') | Some lg \<Rightarrow> Inr (put_logger l (f lg) w))"

definition Logger_setLevel :: "nat \<Rightarrow> Level \<Rightarrow> world \<Rightarrow> world res" where
  "Logger_setLevel l val = update_logger l (\<lambda>lg. lg\<lparr>lg_level := val\<rparr>)"

text \<open>
  setFormatter (LogFormatter::ptr): an appender without a formatter of its own follows its logger.
\<close>

definition inherit_formatter :: "formatter option \<Rightarrow> nat \<Rightarrow> world \<Rightarrow> world res" where
  "inherit_formatter val a = locked_appender a
     (update_appender a (\<lambda>ap. if \<not> ap_hasFormatter ap then ap\<lparr>ap_formatter := val\<rparr> else ap))"

definition Logger_setFormatter :: "nat \<Rightarrow> formatter option \<Rightarrow> world \<Rightarrow> world res" where
  "Logger_setFormatter l val = locked_logger l (\<lambda>w1.
     rbind (update_logger l (\<lambda>lg. lg\<lparr>lg_formatter := val\<rparr>) w1) (\<lambda>w2.
       case get_logger w2 l of
         None \<Rightarrow> Inl (Null_Deref ''Logger'')
       | Some lg \<Rightarrow> rfold (inherit_formatter (lg_formatter lg)) (lg_appenders lg) w2))"

text \<open>setFormatter (const std::string&): a pattern with an error is reported and dropped.\<close>

definition Logger_setFormatter_str :: "nat \<Rightarrow> string \<Rightarrow> world \<Rightarrow> world res" where
  "Logger_setFormatter_str l val w0 =
     (let w = print (parse_report val) (print (''---'' @ val @ nl) w0); new_val = LogFormatter val in
      if f_error new_val then
        (case get_logger w l of
           None \<Rightarrow> Inl (Null_Deref ''Logger'')
         | Some lg \<Rightarrow> Inr (print (''Logger Formatter name='' @ lg_name lg @ '' value ='' @ val @
             '' invalid formatter'' @ nl) w))
      else Logger_setFormatter l (Some new_val) w)"

definition Logger_getFormatter :: "nat \<Rightarrow> world \<Rightarrow> (formatter option \<times> world) res" where
  "Logger_getFormatter l w = rbind (lock_logger l w) (\<lambda>w1.
     case get_logger w1 l of
       None \<Rightarrow> Inl (Null_Deref ''Logger'')
     | Some lg \<Rightarrow> Inr (lg_formatter lg, unlock_logger l w1))"

definition Logger_addAppender :: "nat \<Rightarrow> nat \<Rightarrow> world \<Rightarrow> world res" where
  "Logger_addAppender l a = locked_logger l (\<lambda>w1.
     rbind (LogAppender_getFormatter a w1) (\<lambda>(f, w2).
       case get_logger w2 l of
         None \<Rightarrow> Inl (Null_Deref ''Logger'')
       | Some lg \<Rightarrow>
           rbind (if f = None then
                    locked_appender a (update_appender a (\<lambda>ap. ap\<lparr>ap_formatter := lg_formatter lg\<rparr>)) w2
                  else Inr w2)
             (update_logger l (\<lambda>lg. lg\<lparr>lg_appenders := lg_appenders lg @ [a]\<rparr>))))"

text \<open>delAppender takes no lock; it erases the first occurrence.\<close>

definition Logger_delAppender :: "nat \<Rightarrow> nat \<Rightarrow> world \<Rightarrow> world res" where
  "Logger_delAppender l a = update_logger l (\<lambda>lg. lg\<lparr>lg_appenders := remove1 a (lg_appenders lg)\<rparr>)"

definition Logger_clearAppenders :: "nat \<Rightarrow> world \<Rightarrow> world res" where
  "Logger_clearAppenders l = locked_logger l (update_logger l (\<lambda>lg. lg\<lparr>lg_appenders := []\<rparr>))"

text \<open>
  Logger::log. The fallback to the root logger is a recursive call made while the lock is held; it
  ends because each call locks a logger that was free, and there are finitely many.
\<close>

definition free_loggers :: "world \<Rightarrow> nat" where
  "free_loggers w = length (filter (\<lambda>lg. \<not> lg_mutex lg) (w_loggers w))"

lemma lock_logger_Inr:
  "lock_logger l w = Inr w1 \<longleftrightarrow>
     (\<exists>lg. get_logger w l = Some lg \<and> \<not> lg_mutex lg \<and> w1 = put_logger l (lg\<lparr>lg_mutex := True\<rparr>) w)"
  by (auto simp: lock_logger_def Spinlock_lock_def split: option.splits)

lemma length_filter_update:
  assumes "i < length xs" and "P (xs ! i)" and "\<not> P y"
  shows "length (filter P (xs[i := y])) < length (filter P xs)"
proof -
  have "xs = take i xs @ xs ! i # drop (Suc i) xs" using assms(1) by (rule id_take_nth_drop)
  then have "length (filter P xs) = length (filter P (take i xs)) + Suc (length (filter P (drop (Suc i) xs)))"
    using assms(2) by (metis filter.simps(2) filter_append length_Cons length_append)
  moreover have "length (filter P (xs[i := y])) = length (filter P (take i xs)) + length (filter P (drop (Suc i) xs))"
    using assms(1,3) by (simp add: upd_conv_take_nth_drop)
  ultimately show ?thesis by simp
qed

lemma lock_logger_free_loggers: "lock_logger l w = Inr w1 \<Longrightarrow> free_loggers w1 < free_loggers w"
  by (auto simp: lock_logger_Inr free_loggers_def put_logger_def get_logger_def
      intro: length_filter_update split: if_splits)

function Logger_log :: "nat \<Rightarrow> Level \<Rightarrow> event \<Rightarrow> world \<Rightarrow> world res" where
  "Logger_log l level e w = (case get_logger w l of
     None \<Rightarrow> Inl (Null_Deref ''Logger'')
   | Some lg \<Rightarrow>
       if lg_level lg \<le> level then
         (case lock_logger l w of
            Inl f \<Rightarrow> Inl f
          | Inr w1 \<Rightarrow>
              rbind (if lg_appenders lg \<noteq> [] then
                       rfold (\<lambda>a. LogAppender_log a level e) (lg_appenders lg) w1
                     else (case lg_root lg of
                       None \<Rightarrow> Inr w1
                     | Some r \<Rightarrow> Logger_log r level e w1))
                (\<lambda>w2. Inr (unlock_logger l w2)))
       else Inr w)"
  by pat_completeness auto
termination
  by (relation "measure (\<lambda>(l, level, e, w). free_loggers w)") (auto dest: lock_logger_free_loggers)

declare Logger_log.simps [simp del]

text \<open>Logger::debug to Logger::fatal.\<close>

definition Logger_debug :: "nat \<Rightarrow> event \<Rightarrow> world \<Rightarrow> world res" where
  "Logger_debug l e = Logger_log l DEBUG e"

definition Logger_info :: "nat \<Rightarrow> event \<Rightarrow> world \<Rightarrow> world res" where
  "Logger_info l e = Logger_log l INFO e"

definition Logger_warn :: "nat \<Rightarrow> event \<Rightarrow> world \<Rightarrow> world res" where
  "Logger_warn l e = Logger_log l WARN e"

definition Logger_error :: "nat \<Rightarrow> event \<Rightarrow> world \<Rightarrow> world res" where
  "Logger_error l e = Logger_log l ERROR e"

definition Logger_fatal :: "nat \<Rightarrow> event \<Rightarrow> world \<Rightarrow> world res" where
  "Logger_fatal l e = Logger_log l FATAL e"

section \<open>The logging macros\<close>

text \<open>The event both macros construct; __FILE__ and __LINE__ are arguments, the elapsed time is 0.\<close>

definition macro_event :: "nat \<Rightarrow> Level \<Rightarrow> string \<Rightarrow> 32 word \<Rightarrow> world \<Rightarrow> event" where
  "macro_event l level file line w =
     mk_event (Some l) level file line 0 (w_tid w) (w_fid w) (w_now w) (w_tname w)"

text \<open>~LogEventWrap hands the event to its logger.\<close>

definition LogEventWrap_dtor :: "event \<Rightarrow> world \<Rightarrow> world res" where
  "LogEventWrap_dtor e w = (case ev_logger e of
     None \<Rightarrow> Inl (Null_Deref ''m_event->getLogger()'') | Some l \<Rightarrow> Logger_log l (ev_level e) e w)"

text \<open>LOG_LEVEL(logger, level) << msg: the level is tested before the event is made.\<close>

definition LOG_LEVEL :: "nat \<Rightarrow> Level \<Rightarrow> string \<Rightarrow> 32 word \<Rightarrow> string \<Rightarrow> world \<Rightarrow> world res" where
  "LOG_LEVEL l level file line msg w = (case get_logger w l of
     None \<Rightarrow> Inl (Null_Deref ''logger'')
   | Some lg \<Rightarrow>
       if lg_level lg \<le> level then
         LogEventWrap_dtor (ev_write msg (macro_event l level file line w)) w
       else Inr w)"

text \<open>LOG_FMT_LEVEL: the event is always made; the argument is what vasprintf returned.\<close>

definition LOG_FMT_LEVEL :: "nat \<Rightarrow> Level \<Rightarrow> string \<Rightarrow> 32 word \<Rightarrow> string option \<Rightarrow> world \<Rightarrow> world res" where
  "LOG_FMT_LEVEL l level file line buf w =
     LogEventWrap_dtor (ev_format buf (macro_event l level file line w)) w"

text \<open>The macros that fix the level.\<close>

definition LOG_DEBUG :: "nat \<Rightarrow> string \<Rightarrow> 32 word \<Rightarrow> string \<Rightarrow> world \<Rightarrow> world res" where
  "LOG_DEBUG l = LOG_LEVEL l DEBUG"

definition LOG_INFO :: "nat \<Rightarrow> string \<Rightarrow> 32 word \<Rightarrow> string \<Rightarrow> world \<Rightarrow> world res" where
  "LOG_INFO l = LOG_LEVEL l INFO"

definition LOG_WARN :: "nat \<Rightarrow> string \<Rightarrow> 32 word \<Rightarrow> string \<Rightarrow> world \<Rightarrow> world res" where
  "LOG_WARN l = LOG_LEVEL l WARN"

definition LOG_ERROR :: "nat \<Rightarrow> string \<Rightarrow> 32 word \<Rightarrow> string \<Rightarrow> world \<Rightarrow> world res" where
  "LOG_ERROR l = LOG_LEVEL l ERROR"

definition LOG_FATAL :: "nat \<Rightarrow> string \<Rightarrow> 32 word \<Rightarrow> string \<Rightarrow> world \<Rightarrow> world res" where
  "LOG_FATAL l = LOG_LEVEL l FATAL"

definition LOG_FMT_DEBUG :: "nat \<Rightarrow> string \<Rightarrow> 32 word \<Rightarrow> string option \<Rightarrow> world \<Rightarrow> world res" where
  "LOG_FMT_DEBUG l = LOG_FMT_LEVEL l DEBUG"

definition LOG_FMT_INFO :: "nat \<Rightarrow> string \<Rightarrow> 32 word \<Rightarrow> string option \<Rightarrow> world \<Rightarrow> world res" where
  "LOG_FMT_INFO l = LOG_FMT_LEVEL l INFO"

definition LOG_FMT_WARN :: "nat \<Rightarrow> string \<Rightarrow> 32 word \<Rightarrow> string option \<Rightarrow> world \<Rightarrow> world res" where
  "LOG_FMT_WARN l = LOG_FMT_LEVEL l WARN"

definition LOG_FMT_ERROR :: "nat \<Rightarrow> string \<Rightarrow> 32 word \<Rightarrow> string option \<Rightarrow> world \<Rightarrow> world res" where
  "LOG_FMT_ERROR l = LOG_FMT_LEVEL l ERROR"

definition LOG_FMT_FATAL :: "nat \<Rightarrow> string \<Rightarrow> 32 word \<Rightarrow> string option \<Rightarrow> world \<Rightarrow> world res" where
  "LOG_FMT_FATAL l = LOG_FMT_LEVEL l FATAL"

section \<open>LoggerManager\<close>

definition new_LoggerManager :: "world \<Rightarrow> world res" where
  "new_LoggerManager w = (case new_Logger ''root'' w of (r, w1) \<Rightarrow>
     (case new_StdoutLogAppender w1 of (a, w2) \<Rightarrow>
       rbind (Logger_addAppender r a w2) (\<lambda>w3.
         case get_logger w3 r of
           None \<Rightarrow> Inl (Null_Deref ''m_root'')
         | Some lg \<Rightarrow> Inr (w3\<lparr>w_mgr := \<lparr>mg_mutex = Spinlock_init, mg_loggers = om_put (lg_name lg) r [], mg_root = r\<rparr>\<rparr>))))"

definition lock_manager :: "world \<Rightarrow> world res" where
  "lock_manager w = (case Spinlock_lock (mg_mutex (w_mgr w)) of
     None \<Rightarrow> Inl (Deadlock ''LoggerManager::m_mutex'')
   | Some m \<Rightarrow> Inr (w\<lparr>w_mgr := (w_mgr w)\<lparr>mg_mutex := m\<rparr>\<rparr>))"

definition unlock_manager :: "world \<Rightarrow> world" where
  "unlock_manager w = w\<lparr>w_mgr := (w_mgr w)\<lparr>mg_mutex := Spinlock_unlock (mg_mutex (w_mgr w))\<rparr>\<rparr>"

definition LoggerManager_getLogger :: "string \<Rightarrow> world \<Rightarrow> (nat \<times> world) res" where
  "LoggerManager_getLogger name w = rbind (lock_manager w) (\<lambda>w1.
     case om_find (mg_loggers (w_mgr w1)) name of
       Some l \<Rightarrow> Inr (l, unlock_manager w1)
     | None \<Rightarrow> (case new_Logger name w1 of (l, w2) \<Rightarrow>
         rbind (update_logger l (\<lambda>lg. lg\<lparr>lg_root := Some (mg_root (w_mgr w2))\<rparr>) w2) (\<lambda>w3.
           Inr (l, unlock_manager (w3\<lparr>w_mgr := (w_mgr w3)\<lparr>mg_loggers := om_put name l (mg_loggers (w_mgr w3))\<rparr>\<rparr>)))))"

definition LoggerManager_getRoot :: "world \<Rightarrow> nat" where
  "LoggerManager_getRoot w = mg_root (w_mgr w)"

section \<open>Scopes that hold a logger's lock\<close>

lemma lock_logger_free:
  "get_logger w l = Some lg \<Longrightarrow> \<not> lg_mutex lg \<Longrightarrow>
     lock_logger l w = Inr (put_logger l (lg\<lparr>lg_mutex := True\<rparr>) w)"
  by (simp add: lock_logger_Inr)

lemma unlock_logger_simp:
  "get_logger w l = Some lg \<Longrightarrow> unlock_logger l w = put_logger l (lg\<lparr>lg_mutex := False\<rparr>) w"
  by (simp add: unlock_logger_def Spinlock_unlock_def)

lemma unlock_logger_frame:
  assumes "lock_logger l w = Inr w1" and "frame w1 w2"
  shows "frame w (unlock_logger l w2)"
proof -
  from assms(1) obtain lg where lg: "get_logger w l = Some lg" "\<not> lg_mutex lg"
    and w1: "w1 = put_logger l (lg\<lparr>lg_mutex := True\<rparr>) w" by (auto simp: lock_logger_Inr)
  have get2: "get_logger w2 l = Some (lg\<lparr>lg_mutex := True\<rparr>)"
    using frame_get_logger [OF assms(2)] lg by (simp add: w1)
  have same: "lg\<lparr>lg_mutex := False\<rparr> = lg" using lg(2) by (cases lg) simp
  have "w_loggers (unlock_logger l w2) = (w_loggers w)[l := lg]"
    using assms(2) unfolding unlock_logger_simp [OF get2]
    by (simp add: frame_def w1 put_logger_def same)
  also have "\<dots> = w_loggers w"
    using lg(1) by (auto simp: get_logger_def split: if_splits)
  finally show ?thesis
    using assms(2) unfolding unlock_logger_simp [OF get2] by (simp add: frame_def w1)
qed

lemma Logger_log_frame: "Logger_log l level e w = Inr w' \<Longrightarrow> frame w w'"
proof (induction l level e w arbitrary: w' rule: Logger_log.induct)
  case (1 l level e w)
  from "1.prems" obtain lg where lg: "get_logger w l = Some lg"
    by (subst (asm) Logger_log.simps) (auto split: option.splits)
  show ?case
  proof (cases "lg_level lg \<le> level")
    case False
    with "1.prems" lg show ?thesis by (subst (asm) Logger_log.simps) simp
  next
    case True
    with "1.prems" lg obtain w1 w2 where w1: "lock_logger l w = Inr w1" and w': "w' = unlock_logger l w2"
      and body: "(if lg_appenders lg \<noteq> [] then rfold (\<lambda>a. LogAppender_log a level e) (lg_appenders lg) w1
        else (case lg_root lg of None \<Rightarrow> Inr w1 | Some r \<Rightarrow> Logger_log r level e w1)) = Inr w2"
      by (subst (asm) Logger_log.simps) (auto simp: rbind_eq_Inr split: sum.splits)
    have "frame w1 w2"
    proof (cases "lg_appenders lg = []")
      case False
      with body show ?thesis by (auto intro: appender.log_all_frame)
    next
      case empty: True
      show ?thesis
      proof (cases "lg_root lg")
        case None
        with body empty show ?thesis by simp
      next
        case (Some r)
        with body empty have "Logger_log r level e w1 = Inr w2" by simp
        with "1.IH" [OF lg True w1 _ Some] empty show ?thesis by simp
      qed
    qed
    with w1 w' show ?thesis by (simp add: unlock_logger_frame)
  qed
qed

lemma Logger_log_below: "get_logger w l = Some lg \<Longrightarrow> level < lg_level lg \<Longrightarrow> Logger_log l level e w = Inr w"
  by (subst Logger_log.simps) auto

lemma Logger_log_at:
  assumes "get_logger w l = Some lg" and "\<not> lg_mutex lg" and "lg_level lg \<le> level"
  shows "Logger_log l level e w =
    (let w1 = put_logger l (lg\<lparr>lg_mutex := True\<rparr>) w in
     rbind (if lg_appenders lg \<noteq> [] then rfold (\<lambda>a. LogAppender_log a level e) (lg_appenders lg) w1
            else (case lg_root lg of None \<Rightarrow> Inr w1 | Some r \<Rightarrow> Logger_log r level e w1))
       (\<lambda>w2. Inr (unlock_logger l w2)))"
  using assms by (subst Logger_log.simps) (simp add: lock_logger_free Let_def)

section \<open>The invariant of the logging component\<close>

text \<open>
  Between two calls no lock is held; every logger has a formatter, its appenders exist and have one
  too; a logger that falls back falls back to the root, which does not fall back; the registry
  finds loggers under their names.
\<close>

definition logger_ok :: "world \<Rightarrow> logger \<Rightarrow> bool" where
  "logger_ok w lg \<longleftrightarrow> \<not> lg_mutex lg \<and> lg_formatter lg \<noteq> None \<and> (\<forall>a \<in> set (lg_appenders lg). ready w a) \<and>
     (\<forall>r. lg_root lg = Some r \<longrightarrow> r = mg_root (w_mgr w))"

definition appender_ok :: "appender \<Rightarrow> bool" where
  "appender_ok ap \<longleftrightarrow> \<not> ap_mutex ap \<and> (ap_hasFormatter ap \<longrightarrow> ap_formatter ap \<noteq> None)"

definition registry_ok :: "world \<Rightarrow> bool" where
  "registry_ok w \<longleftrightarrow> \<not> mg_mutex (w_mgr w) \<and> om_ok (mg_loggers (w_mgr w)) \<and>
     om_find (mg_loggers (w_mgr w)) ''root'' = Some (mg_root (w_mgr w)) \<and>
     (\<exists>lg. get_logger w (mg_root (w_mgr w)) = Some lg \<and> lg_root lg = None) \<and>
     (\<forall>n l. om_find (mg_loggers (w_mgr w)) n = Some l \<longrightarrow> (\<exists>lg. get_logger w l = Some lg \<and> lg_name lg = n))"

definition world_ok :: "world \<Rightarrow> bool" where
  "world_ok w \<longleftrightarrow> (\<forall>l lg. get_logger w l = Some lg \<longrightarrow> logger_ok w lg) \<and>
     (\<forall>a ap. get_appender w a = Some ap \<longrightarrow> appender_ok ap) \<and> registry_ok w"

lemma world_ok_logger: "world_ok w \<Longrightarrow> get_logger w l = Some lg \<Longrightarrow> logger_ok w lg"
  by (simp add: world_ok_def)

lemma world_ok_appender: "world_ok w \<Longrightarrow> get_appender w a = Some ap \<Longrightarrow> appender_ok ap"
  by (simp add: world_ok_def)

lemma world_ok_registry: "world_ok w \<Longrightarrow> registry_ok w"
  by (simp add: world_ok_def)

lemma ready_put_logger [simp]: "ready (put_logger l lg w) a = ready w a"
  by (simp add: ready_def)

lemma world_ok_frame: "world_ok w \<Longrightarrow> frame w w' \<Longrightarrow> world_ok w'"
proof -
  assume ok: "world_ok w" and fr: "frame w w'"
  have fr': "frame w' w" using fr by (simp add: frame_def)
  have mgr: "w_mgr w' = w_mgr w" using fr by (simp add: frame_def)
  have "logger_ok w' lg" if "get_logger w' l = Some lg" for l lg
    using world_ok_logger [OF ok, of l lg] that frame_get_logger [OF fr] ready_frame [OF fr] mgr
    by (auto simp: logger_ok_def)
  moreover have "appender_ok ap" if "get_appender w' a = Some ap" for a ap
    using frame_get_appender [OF fr' that] world_ok_appender [OF ok] by (fastforce simp: appender_ok_def ap_core_def)
  moreover have "registry_ok w'"
    using world_ok_registry [OF ok] frame_get_logger [OF fr] mgr by (simp add: registry_ok_def)
  ultimately show ?thesis by (simp add: world_ok_def)
qed

lemma world_ok_put_logger:
  assumes ok: "world_ok w" and lg: "get_logger w l = Some lg" and lok: "logger_ok w lg'"
    and same: "lg_name lg' = lg_name lg" "lg_root lg' = lg_root lg"
  shows "world_ok (put_logger l lg' w)"
proof -
  have eq: "logger_ok (put_logger l lg' w) x = logger_ok w x" for x by (simp add: logger_ok_def)
  have get: "get_logger (put_logger l lg' w) k = (if k = l then Some lg' else get_logger w k)" for k
    using lg by simp
  have "logger_ok (put_logger l lg' w) x" if "get_logger (put_logger l lg' w) k = Some x" for k x
    using that lok world_ok_logger [OF ok, of k x] unfolding get eq by (simp split: if_splits)
  moreover have "registry_ok (put_logger l lg' w)"
    using world_ok_registry [OF ok] lg same unfolding registry_ok_def get put_logger_fields
    by auto (metis option.inject)+
  ultimately show ?thesis using ok by (simp add: world_ok_def)
qed

lemma world_ok_put_appender:
  assumes ok: "world_ok w" and ap: "get_appender w a = Some ap" and aok: "appender_ok ap'"
    and fm: "ap_formatter ap \<noteq> None \<Longrightarrow> ap_formatter ap' \<noteq> None"
  shows "world_ok (put_appender a ap' w)"
proof -
  have rd: "ready (put_appender a ap' w) b" if "ready w b" for b
    using that ap aok fm by (auto simp: ready_def appender_ok_def)
  have "logger_ok (put_appender a ap' w) x" if "get_logger (put_appender a ap' w) k = Some x" for k x
    using world_ok_logger [OF ok, of k x] that rd by (simp add: logger_ok_def)
  moreover have "appender_ok x" if "get_appender (put_appender a ap' w) b = Some x" for b x
    using world_ok_appender [OF ok, of b x] that ap aok by (simp split: if_splits)
  moreover have "registry_ok (put_appender a ap' w)"
    using world_ok_registry [OF ok] by (simp add: registry_ok_def)
  ultimately show ?thesis by (simp add: world_ok_def)
qed

text \<open>A well-formed logger logs without deadlock or null dereference.\<close>

lemma Logger_log_safe_leaf:
  assumes lg: "get_logger w l = Some lg" "\<not> lg_mutex lg" and "lg_root lg = None"
    and "\<forall>a \<in> set (lg_appenders lg). ready w a" and "ev_logger e \<noteq> None"
  shows "safe (Logger_log l level e w)"
proof (cases "lg_level lg \<le> level")
  case False
  with lg show ?thesis by (simp add: Logger_log_below)
next
  case True
  let ?w1 = "put_logger l (lg\<lparr>lg_mutex := True\<rparr>) w"
  have "safe (rfold (\<lambda>a. LogAppender_log a level e) (lg_appenders lg) ?w1)"
    using assms by (intro appender.log_all_safe) auto
  with True assms show ?thesis by (simp add: Logger_log_at Let_def safe_rbind)
qed

lemma Logger_log_safe:
  assumes ok: "world_ok w" and lg: "get_logger w l = Some lg" and ev: "ev_logger e \<noteq> None"
  shows "safe (Logger_log l level e w)"
proof (cases "lg_level lg \<le> level")
  case False
  with lg show ?thesis by (simp add: Logger_log_below)
next
  case True
  from world_ok_logger [OF ok lg] have lok: "logger_ok w lg" .
  then have free: "\<not> lg_mutex lg" by (simp add: logger_ok_def)
  let ?w1 = "put_logger l (lg\<lparr>lg_mutex := True\<rparr>) w"
  show ?thesis
  proof (cases "lg_appenders lg = [] \<and> lg_root lg \<noteq> None")
    case False
    then have "safe (if lg_appenders lg \<noteq> [] then rfold (\<lambda>a. LogAppender_log a level e) (lg_appenders lg) ?w1
            else (case lg_root lg of None \<Rightarrow> Inr ?w1 | Some r \<Rightarrow> Logger_log r level e ?w1))"
      using lok ev by (auto simp: logger_ok_def intro!: appender.log_all_safe)
    with True lg free show ?thesis by (simp add: Logger_log_at Let_def safe_rbind)
  next
    case root: True
    let ?r = "mg_root (w_mgr w)"
    from root lok have r: "lg_root lg = Some ?r" by (auto simp: logger_ok_def)
    from world_ok_registry [OF ok] obtain rt where rt: "get_logger w ?r = Some rt" "lg_root rt = None"
      by (auto simp: registry_ok_def)
    with r lg have "?r \<noteq> l" by auto
    with rt world_ok_logger [OF ok rt(1)] ev have "safe (Logger_log ?r level e ?w1)"
      by (intro Logger_log_safe_leaf [of _ _ rt]) (auto simp: logger_ok_def)
    with True lg free root r show ?thesis by (simp add: Logger_log_at Let_def safe_rbind)
  qed
qed

section \<open>The operations on a well-formed world\<close>

lemma appender_unlocked_same: "\<not> ap_mutex ap \<Longrightarrow> ap\<lparr>ap_mutex := False\<rparr> = ap"
  by (cases ap) simp

lemma logger_unlocked_same: "\<not> lg_mutex lg \<Longrightarrow> lg\<lparr>lg_mutex := False\<rparr> = lg"
  by (cases lg) simp

lemma locked_update_appender:
  assumes "get_appender w a = Some ap" and "\<not> ap_mutex ap"
  shows "locked_appender a (update_appender a f) w =
    Inr (put_appender a ((f (ap\<lparr>ap_mutex := True\<rparr>))\<lparr>ap_mutex := False\<rparr>) w)"
  using assms by (simp add: locked_appender_def lock_appender_free update_appender_def unlock_appender_def Spinlock_unlock_def)

lemma locked_update_logger:
  assumes "get_logger w l = Some lg" and "\<not> lg_mutex lg"
  shows "locked_logger l (update_logger l f) w =
    Inr (put_logger l ((f (lg\<lparr>lg_mutex := True\<rparr>))\<lparr>lg_mutex := False\<rparr>) w)"
  using assms by (simp add: locked_logger_def lock_logger_free update_logger_def unlock_logger_def Spinlock_unlock_def)

lemma LogAppender_setFormatter_eq:
  assumes "get_appender w a = Some ap" and "\<not> ap_mutex ap"
  shows "LogAppender_setFormatter a val w =
    Inr (put_appender a (ap\<lparr>ap_formatter := val, ap_hasFormatter := (val \<noteq> None)\<rparr>) w)"
  using assms by (cases ap) (simp add: LogAppender_setFormatter_def locked_update_appender)

lemma LogAppender_getFormatter_eq:
  assumes "get_appender w a = Some ap" and "\<not> ap_mutex ap"
  shows "LogAppender_getFormatter a w = Inr (ap_formatter ap, w)"
  using assms by (simp add: LogAppender_getFormatter_def lock_appender_free unlock_appender_def Spinlock_unlock_def
      appender_unlocked_same put_appender_same)

lemma Logger_clearAppenders_eq:
  assumes "get_logger w l = Some lg" and "\<not> lg_mutex lg"
  shows "Logger_clearAppenders l w = Inr (put_logger l (lg\<lparr>lg_appenders := []\<rparr>) w)"
  using assms by (cases lg) (simp add: Logger_clearAppenders_def locked_update_logger)

lemma put_logger_appender_commute:
  "put_logger l lg (put_appender a ap w) = put_appender a ap (put_logger l lg w)"
  by (simp add: put_logger_def put_appender_def)

text \<open>addAppender gives the appender the logger's formatter when it has none, and appends it.\<close>

lemma Logger_addAppender_eq:
  assumes lg: "get_logger w l = Some lg" "\<not> lg_mutex lg" and ap: "get_appender w a = Some ap" "\<not> ap_mutex ap"
  shows "Logger_addAppender l a w = Inr
    (put_appender a (ap\<lparr>ap_formatter := (if ap_formatter ap = None then lg_formatter lg else ap_formatter ap)\<rparr>)
      (put_logger l (lg\<lparr>lg_appenders := lg_appenders lg @ [a]\<rparr>) w))"
proof -
  let ?w1 = "put_logger l (lg\<lparr>lg_mutex := True\<rparr>) w"
  let ?ap' = "ap\<lparr>ap_formatter := (if ap_formatter ap = None then lg_formatter lg else ap_formatter ap)\<rparr>"
  have get1: "get_appender ?w1 a = Some ap" using ap(1) by simp
  have none: "locked_appender a (update_appender a (\<lambda>ap. ap\<lparr>ap_formatter := lg_formatter lg\<rparr>)) ?w1
      = Inr (put_appender a ?ap' ?w1)" if "ap_formatter ap = None"
    using ap that by (cases ap) (simp add: locked_update_appender [OF get1 ap(2)])
  have some: "put_appender a ?ap' ?w1 = ?w1" if "ap_formatter ap \<noteq> None"
    using ap that put_appender_same [OF get1] by (cases ap) auto
  have "Logger_addAppender l a w = Inr (unlock_logger l
      (put_logger l (lg\<lparr>lg_mutex := True, lg_appenders := lg_appenders lg @ [a]\<rparr>) (put_appender a ?ap' ?w1)))"
  proof (cases "ap_formatter ap")
    case None
    with lg none show ?thesis
      by (simp add: Logger_addAppender_def locked_logger_def lock_logger_free
          LogAppender_getFormatter_eq [OF get1 ap(2)] update_logger_def)
  next
    case (Some f)
    with lg some show ?thesis
      by (simp add: Logger_addAppender_def locked_logger_def lock_logger_free
          LogAppender_getFormatter_eq [OF get1 ap(2)] update_logger_def)
  qed
  also have "\<dots> = Inr (put_logger l (lg\<lparr>lg_mutex := False, lg_appenders := lg_appenders lg @ [a]\<rparr>) (put_appender a ?ap' w))"
    using lg(1) by (cases lg) (simp add: unlock_logger_def Spinlock_unlock_def put_logger_appender_commute)
  also have "lg\<lparr>lg_mutex := False, lg_appenders := lg_appenders lg @ [a]\<rparr> = lg\<lparr>lg_appenders := lg_appenders lg @ [a]\<rparr>"
    using lg(2) by (cases lg) simp
  finally show ?thesis by (simp add: put_logger_appender_commute)
qed

text \<open>setFormatter reaches exactly the appenders that have no formatter of their own.\<close>

lemma inherit_formatter_eq:
  assumes "get_appender w a = Some ap" and "\<not> ap_mutex ap"
  shows "inherit_formatter val a w =
    Inr (put_appender a (if \<not> ap_hasFormatter ap then ap\<lparr>ap_formatter := val\<rparr> else ap) w)"
  using assms by (cases ap) (simp add: inherit_formatter_def locked_update_appender)

lemma rfold_inherit_formatter:
  assumes "\<forall>a \<in> set as. \<exists>ap. get_appender w a = Some ap \<and> \<not> ap_mutex ap"
  shows "\<exists>w'. rfold (inherit_formatter val) as w = Inr w' \<and> w' = w\<lparr>w_appenders := w_appenders w'\<rparr> \<and>
    (\<forall>b. get_appender w' b = map_option (\<lambda>ap. if b \<in> set as \<and> \<not> ap_hasFormatter ap then ap\<lparr>ap_formatter := val\<rparr> else ap)
       (get_appender w b))"
  using assms
proof (induction as arbitrary: w)
  case Nil
  then show ?case by (simp add: option.map_ident)
next
  case (Cons a as)
  then obtain ap where ap: "get_appender w a = Some ap" "\<not> ap_mutex ap" by auto
  let ?f = "\<lambda>ap. if \<not> ap_hasFormatter ap then ap\<lparr>ap_formatter := val\<rparr> else ap"
  let ?w1 = "put_appender a (?f ap) w"
  have step: "inherit_formatter val a w = Inr ?w1" by (rule inherit_formatter_eq [OF ap])
  have "\<forall>b \<in> set as. \<exists>ap. get_appender ?w1 b = Some ap \<and> \<not> ap_mutex ap"
    using Cons.prems ap by auto
  from Cons.IH [OF this] obtain w' where w': "rfold (inherit_formatter val) as ?w1 = Inr w'"
    "w' = ?w1\<lparr>w_appenders := w_appenders w'\<rparr>"
    and get: "\<And>b. get_appender w' b = map_option (\<lambda>ap. if b \<in> set as \<and> \<not> ap_hasFormatter ap then ap\<lparr>ap_formatter := val\<rparr> else ap)
       (get_appender ?w1 b)" by blast
  have "w' = w\<lparr>w_appenders := w_appenders w'\<rparr>" using w'(2) by (simp add: put_appender_def)
  moreover have "get_appender w' b = map_option (\<lambda>ap. if b \<in> set (a # as) \<and> \<not> ap_hasFormatter ap then ap\<lparr>ap_formatter := val\<rparr> else ap)
       (get_appender w b)" for b
    using get [of b] ap by (cases "b = a") (auto simp: option.map_comp comp_def cong: option.map_cong)
  ultimately show ?case using step w'(1) by simp
qed

lemma Logger_setFormatter_effect:
  assumes lg: "get_logger w l = Some lg" "\<not> lg_mutex lg"
    and aps: "\<forall>a \<in> set (lg_appenders lg). \<exists>ap. get_appender w a = Some ap \<and> \<not> ap_mutex ap"
  shows "\<exists>w'. Logger_setFormatter l val w = Inr w' \<and> w' = w\<lparr>w_appenders := w_appenders w', w_loggers := w_loggers w'\<rparr> \<and>
    w_loggers w' = w_loggers (put_logger l (lg\<lparr>lg_formatter := val\<rparr>) w) \<and>
    (\<forall>b. get_appender w' b = map_option
      (\<lambda>ap. if b \<in> set (lg_appenders lg) \<and> \<not> ap_hasFormatter ap then ap\<lparr>ap_formatter := val\<rparr> else ap) (get_appender w b))"
proof -
  let ?w2 = "put_logger l (lg\<lparr>lg_mutex := True, lg_formatter := val\<rparr>) w"
  from aps rfold_inherit_formatter [of "lg_appenders lg" ?w2 val] obtain w3
    where w3: "rfold (inherit_formatter val) (lg_appenders lg) ?w2 = Inr w3" "w3 = ?w2\<lparr>w_appenders := w_appenders w3\<rparr>"
      and get: "\<And>b. get_appender w3 b = map_option
        (\<lambda>ap. if b \<in> set (lg_appenders lg) \<and> \<not> ap_hasFormatter ap then ap\<lparr>ap_formatter := val\<rparr> else ap) (get_appender w b)"
    by auto
  have l3: "w_loggers w3 = w_loggers ?w2" using w3(2) by (metis select_convs(8) surjective update_convs(9))
  then have get3: "get_logger w3 l = Some (lg\<lparr>lg_mutex := True, lg_formatter := val\<rparr>)"
    using lg(1) by (auto simp: get_logger_def put_logger_def split: if_splits)
  let ?w4 = "put_logger l (lg\<lparr>lg_formatter := val\<rparr>) w3"
  have "Logger_setFormatter l val w = Inr ?w4"
    using lg w3(1) get3 by (cases lg) (simp add: Logger_setFormatter_def locked_logger_def lock_logger_free update_logger_def unlock_logger_def Spinlock_unlock_def)
  moreover have "w_loggers ?w4 = w_loggers (put_logger l (lg\<lparr>lg_formatter := val\<rparr>) w)"
    using l3 by (simp add: put_logger_def)
  moreover have "?w4 = w\<lparr>w_appenders := w_appenders ?w4, w_loggers := w_loggers ?w4\<rparr>"
    by (subst w3(2)) (simp add: put_logger_def l3)
  moreover have "get_appender ?w4 b = map_option
      (\<lambda>ap. if b \<in> set (lg_appenders lg) \<and> \<not> ap_hasFormatter ap then ap\<lparr>ap_formatter := val\<rparr> else ap)
      (get_appender w b)" for b
    using get by simp
  ultimately show ?thesis by blast
qed

end
