(* ===== verification/Log_Api.thy ===== *)
theory Log_Api
  imports Logger
begin

text \<open>
  The logging component seen from a client: what the manager guarantees, what a console line looks
  like, how the two logging macros relate, what the fallback to the root does, and that no sequence
  of calls by the rules deadlocks or dereferences null.
\<close>

section \<open>A console appender prints one rendered record\<close>

lemma StdoutLogAppender_log_eq:
  assumes ap: "get_appender w a = Some ap" "\<not> ap_mutex ap" "ap_level ap \<le> level" "ap_formatter ap = Some fm"
    and fmt: "format_str (world_env w) fm level e = Inr s"
  shows "StdoutLogAppender_log a level e w = Inr (print s w)"
proof -
  let ?w1 = "put_appender a (ap\<lparr>ap_mutex := True\<rparr>) w"
  have get1: "get_appender ?w1 a = Some (ap\<lparr>ap_mutex := True\<rparr>)" using ap(1) by simp
  have body: "stdout_write_body a level e ?w1 = Inr (print s ?w1)"
    using ap fmt by (simp add: stdout_write_body_def format_os_format_str print_def)
  have "unlock_appender a (print s ?w1) = put_appender a ap (print s ?w1)"
    using get1 appender_unlocked_same [OF ap(2)] by (simp add: unlock_appender_simp)
  also have "\<dots> = print s w"
    using ap(1) by (cases w) (simp add: put_appender_def print_def get_appender_def split: if_splits, metis list_update_id)
  finally show ?thesis
    using ap body by (simp add: StdoutLogAppender_log_def locked_appender_def lock_appender_free)
qed

section \<open>The two macros\<close>

lemma LogEventWrap_dtor_macro:
  "LogEventWrap_dtor (ev_write msg (macro_event l level file line w)) w =
     Logger_log l level (ev_write msg (macro_event l level file line w)) w"
  by (simp add: LogEventWrap_dtor_def ev_write_def macro_event_def mk_event_def)

lemma LOG_LEVEL_eq:
  "get_logger w l = Some lg \<Longrightarrow> LOG_LEVEL l level file line msg w =
     Logger_log l level (ev_write msg (macro_event l level file line w)) w"
  by (auto simp: LOG_LEVEL_def LogEventWrap_dtor_macro Logger_log_below not_le)

lemma LOG_FMT_LEVEL_eq:
  "LOG_FMT_LEVEL l level file line (Some msg) w =
     Logger_log l level (ev_write msg (macro_event l level file line w)) w"
  by (simp add: LOG_FMT_LEVEL_def ev_format_def LogEventWrap_dtor_macro)

section \<open>Logging does not look at the loggers' locks\<close>

text \<open>
  Appenders see of the loggers only their names, so they run the same way when other logger fields
  differ. \<open>with_loggers\<close> replaces the list of loggers.
\<close>

definition with_loggers :: "logger list \<Rightarrow> world \<Rightarrow> world" where
  "with_loggers ls w = w\<lparr>w_loggers := ls\<rparr>"

definition on_ok :: "('a \<Rightarrow> 'b) \<Rightarrow> 'a res \<Rightarrow> 'b res" where
  "on_ok f r = rbind r (\<lambda>a. Inr (f a))"

lemma on_ok_simps [simp]: "on_ok f (Inr a) = Inr (f a)" "on_ok f (Inl x) = Inl x"
  by (simp_all add: on_ok_def)

lemma on_ok_rbind: "on_ok f (rbind r g) = rbind r (\<lambda>a. on_ok f (g a))"
  by (cases r) simp_all

lemma rbind_on_ok: "rbind (on_ok f r) g = rbind r (\<lambda>a. g (f a))"
  by (cases r) simp_all

lemma with_loggers_simps [simp]:
  "get_appender (with_loggers ls w) a = get_appender w a"
  "put_appender a ap (with_loggers ls w) = with_loggers ls (put_appender a ap w)"
  "print s (with_loggers ls w) = with_loggers ls (print s w)"
  "w_disk (with_loggers ls w) = w_disk w" "w_now (with_loggers ls w) = w_now w"
  "w_stdout (with_loggers ls w) = w_stdout w" "w_loggers (with_loggers ls w) = ls"
  "w_appenders (with_loggers ls w) = w_appenders w"
  "(with_loggers ls w)\<lparr>w_disk := d\<rparr> = with_loggers ls (w\<lparr>w_disk := d\<rparr>)"
  "(with_loggers ls w)\<lparr>w_stdout := out\<rparr> = with_loggers ls (w\<lparr>w_stdout := out\<rparr>)"
  by (simp_all add: with_loggers_def get_appender_def put_appender_def print_def)

lemma with_loggers_env:
  assumes "map lg_name ls = map lg_name (w_loggers w)"
  shows "world_env (with_loggers ls w) = world_env w"
proof -
  have "length ls = length (w_loggers w)" using assms by (metis length_map)
  moreover have "lg_name (ls ! i) = lg_name (w_loggers w ! i)" if "i < length ls" for i
    using assms that calculation by (metis nth_map)
  ultimately show ?thesis by (auto simp: world_env_def get_logger_def with_loggers_def)
qed

lemma lock_appender_with: "lock_appender a (with_loggers ls w) = on_ok (with_loggers ls) (lock_appender a w)"
  by (simp add: lock_appender_def split: option.split)

lemma unlock_appender_with: "unlock_appender a (with_loggers ls w) = with_loggers ls (unlock_appender a w)"
  by (simp add: unlock_appender_def split: option.split)

lemma update_appender_with: "update_appender a f (with_loggers ls w) = on_ok (with_loggers ls) (update_appender a f w)"
  by (simp add: update_appender_def split: option.split)

lemma lock_appender_loggers: "lock_appender a w = Inr w1 \<Longrightarrow> w_loggers w1 = w_loggers w"
  by (auto simp: lock_appender_Inr)

lemma locked_appender_with:
  assumes "\<And>w1. w_loggers w1 = w_loggers w \<Longrightarrow> body (with_loggers ls w1) = on_ok (with_loggers ls) (body w1)"
  shows "locked_appender a body (with_loggers ls w) = on_ok (with_loggers ls) (locked_appender a body w)"
proof (cases "lock_appender a w")
  case (Inl x)
  then show ?thesis by (simp add: locked_appender_def lock_appender_with)
next
  case (Inr w1)
  then have "body (with_loggers ls w1) = on_ok (with_loggers ls) (body w1)"
    by (intro assms lock_appender_loggers)
  with Inr show ?thesis
    by (cases "body w1") (simp_all add: locked_appender_def lock_appender_with unlock_appender_with)
qed

lemma stdout_write_with:
  "map lg_name ls = map lg_name (w_loggers w) \<Longrightarrow>
     stdout_write_body a level e (with_loggers ls w) = on_ok (with_loggers ls) (stdout_write_body a level e w)"
  by (simp add: stdout_write_body_def with_loggers_env on_ok_rbind split: option.split)

lemma file_write_with:
  "map lg_name ls = map lg_name (w_loggers w) \<Longrightarrow>
     file_write_body a level e (with_loggers ls w) = on_ok (with_loggers ls) (file_write_body a level e w)"
  by (auto simp: file_write_body_def with_loggers_env on_ok_rbind Let_def split: option.split prod.split
      intro!: rbind_cong)

lemma reopen_body_with: "reopen_body a (with_loggers ls w) = on_ok (with_loggers ls) (reopen_body a w)"
  by (auto simp: reopen_body_def Let_def split: option.split prod.split)

lemma reopen_with:
  "FileLogAppender_reopen a (with_loggers ls w) =
     on_ok (\<lambda>(ok, w1). (ok, with_loggers ls w1)) (FileLogAppender_reopen a w)"
proof -
  have "locked_appender a (reopen_body a) (with_loggers ls w) =
      on_ok (with_loggers ls) (locked_appender a (reopen_body a) w)"
    by (rule locked_appender_with) (rule reopen_body_with)
  then show ?thesis
    by (cases "locked_appender a (reopen_body a) w")
      (auto simp: FileLogAppender_reopen_def split: option.split)
qed

lemma LogAppender_log_with:
  assumes names: "map lg_name ls = map lg_name (w_loggers w)"
  shows "LogAppender_log a level e (with_loggers ls w) = on_ok (with_loggers ls) (LogAppender_log a level e w)"
proof -
  have stdout: "locked_appender a (stdout_write_body a level e) (with_loggers ls w) =
      on_ok (with_loggers ls) (locked_appender a (stdout_write_body a level e) w)"
    by (rule locked_appender_with) (simp add: stdout_write_with names)
  have filed: "locked_appender a (file_write_body a level e) (with_loggers ls w1) =
      on_ok (with_loggers ls) (locked_appender a (file_write_body a level e) w1)"
    if "w_loggers w1 = w_loggers w" for w1
    by (rule locked_appender_with) (simp add: file_write_with names that)
  have refr: "refresh a ap (with_loggers ls w) = on_ok (with_loggers ls) (refresh a ap w)" for ap
    by (auto simp: refresh_def reopen_with on_ok_rbind rbind_on_ok update_appender_with case_prod_beta)
  have run: "FileLogAppender_log a level e (with_loggers ls w) = on_ok (with_loggers ls) (FileLogAppender_log a level e w)"
  proof (cases "get_appender w a")
    case None
    then show ?thesis by (simp add: FileLogAppender_log_def)
  next
    case (Some ap)
    show ?thesis
    proof (cases "ap_level ap \<le> level")
      case False
      with Some show ?thesis by (simp add: FileLogAppender_log_def)
    next
      case True
      with Some have eq: "FileLogAppender_log a level e w0 = rbind (refresh a ap w0) (locked_appender a (file_write_body a level e))"
        if "get_appender w0 a = Some ap" for w0 using that by (simp add: FileLogAppender_log_refresh)
      show ?thesis
        using Some by (simp add: eq refr on_ok_rbind rbind_on_ok)
          (intro rbind_cong refl, metis filed refresh_frame frame_def)
    qed
  qed
  show ?thesis
    using stdout run by (auto simp: LogAppender_log_def StdoutLogAppender_log_def split: option.split appender_kind.split)
qed

lemma log_all_with:
  "map lg_name ls = map lg_name (w_loggers w) \<Longrightarrow>
     rfold (\<lambda>a. LogAppender_log a level e) as (with_loggers ls w) =
       on_ok (with_loggers ls) (rfold (\<lambda>a. LogAppender_log a level e) as w)"
proof (induction as arbitrary: w)
  case (Cons a as)
  have "rfold (\<lambda>a. LogAppender_log a level e) as (with_loggers ls w1) =
      on_ok (with_loggers ls) (rfold (\<lambda>a. LogAppender_log a level e) as w1)"
    if "LogAppender_log a level e w = Inr w1" for w1
    using Cons appender.log_frame [OF that] by (simp add: frame_def)
  with Cons.prems show ?case
    by (simp add: LogAppender_log_with on_ok_rbind rbind_on_ok cong: rbind_cong)
qed simp


section \<open>The fallback to the root logger\<close>

lemma unlock_logger_with: "unlock_logger l w = with_loggers (w_loggers (unlock_logger l w)) w"
  by (simp add: unlock_logger_def with_loggers_def put_logger_def split: option.split)

lemma with_loggers_twice [simp]: "with_loggers ls (with_loggers ks w) = with_loggers ls w"
  by (simp add: with_loggers_def)

lemma put_logger_with: "put_logger l lg w = with_loggers ((w_loggers w)[l := lg]) w"
  by (simp add: with_loggers_def put_logger_def)

lemma names_update:
  "get_logger w l = Some lg \<Longrightarrow> map lg_name ((w_loggers w)[l := lg\<lparr>lg_mutex := m\<rparr>]) = map lg_name (w_loggers w)"
  by (auto simp: get_logger_def map_update list_update_same_conv split: if_splits)

lemma unlock_after_lock:
  "get_logger w l = Some lg \<Longrightarrow> \<not> lg_mutex lg \<Longrightarrow> unlock_logger l (put_logger l (lg\<lparr>lg_mutex := True\<rparr>) w) = w"
  using put_logger_same [of w l lg]
  by (cases lg) (simp add: unlock_logger_def Spinlock_unlock_def)

text \<open>
  A logger of the manager without appenders behaves as the root logger does, whatever that ends in.
\<close>

lemma Logger_log_leaf_locked:
  assumes lg: "get_logger w l = Some lg" "\<not> lg_mutex lg"
    and rt: "get_logger w r = Some rt" "\<not> lg_mutex rt" "lg_root rt = None" and ne: "r \<noteq> l"
  shows "rbind (Logger_log r level e (put_logger l (lg\<lparr>lg_mutex := True\<rparr>) w)) (\<lambda>w2. Inr (unlock_logger l w2)) =
    Logger_log r level e w"
proof (cases "lg_level rt \<le> level")
  case False
  with lg rt ne show ?thesis by (simp add: Logger_log_below not_le unlock_after_lock)
next
  case True
  let ?w1 = "put_logger l (lg\<lparr>lg_mutex := True\<rparr>) w"
  let ?body = "rfold (\<lambda>a. LogAppender_log a level e) (lg_appenders rt)"
  let ?rt = "rt\<lparr>lg_mutex := True\<rparr>"
  have right: "Logger_log r level e w = rbind (?body (put_logger r ?rt w)) (\<lambda>w2. Inr (unlock_logger r w2))"
    using rt True by (simp add: Logger_log_at Let_def)
  have rt1: "get_logger ?w1 r = Some rt" using rt(1) ne by simp
  have left: "Logger_log r level e ?w1 = rbind (?body (put_logger r ?rt ?w1)) (\<lambda>w2. Inr (unlock_logger r w2))"
    using rt1 rt True by (simp add: Logger_log_at Let_def)
  obtain ls where ls: "put_logger r ?rt ?w1 = with_loggers ls (put_logger r ?rt w)"
    "map lg_name ls = map lg_name (w_loggers (put_logger r ?rt w))"
  proof
    let ?ls = "w_loggers (put_logger r ?rt ?w1)"
    show "put_logger r ?rt ?w1 = with_loggers ?ls (put_logger r ?rt w)"
      by (simp add: put_logger_def with_loggers_def)
    show "map lg_name ?ls = map lg_name (w_loggers (put_logger r ?rt w))"
      using names_update [OF rt1, of True] names_update [OF rt(1), of True] names_update [OF lg(1), of True]
      by (simp add: put_logger_def)
  qed
  show ?thesis
  proof (cases "?body (put_logger r ?rt w)")
    case (Inl x)
    with ls show ?thesis by (simp add: right left log_all_with)
  next
    case (Inr w3)
    let ?v = "unlock_logger l (unlock_logger r (with_loggers ls w3))"
    from Inr ls have leq: "Logger_log r level e ?w1 = Inr (unlock_logger r (with_loggers ls w3))"
      by (simp add: left log_all_with)
    have "frame w ?v"
      by (rule unlock_logger_frame [OF lock_logger_free [OF lg] Logger_log_frame [OF leq]])
    moreover have "?v = with_loggers (w_loggers ?v) w3"
      by (metis unlock_logger_with with_loggers_twice)
    ultimately have v: "?v = with_loggers (w_loggers w) w3" by (simp add: frame_def)
    from Inr have req: "Logger_log r level e w = Inr (unlock_logger r w3)" by (simp add: right)
    from Logger_log_frame [OF req] have "unlock_logger r w3 = with_loggers (w_loggers w) w3"
      by (metis unlock_logger_with frame_def)
    with v leq req show ?thesis by simp
  qed
qed

lemma Logger_log_fallback_root:
  assumes ok: "world_ok w" and lg: "get_logger w l = Some lg" and lv: "lg_level lg \<le> level"
    and "lg_appenders lg = []" and root: "lg_root lg = Some r"
  shows "Logger_log l level e w = Logger_log r level e w"
proof -
  from world_ok_logger [OF ok lg] root have free: "\<not> lg_mutex lg" and r: "r = mg_root (w_mgr w)"
    by (auto simp: logger_ok_def)
  from world_ok_registry [OF ok] r obtain rt where rt: "get_logger w r = Some rt" "lg_root rt = None"
    by (auto simp: registry_ok_def)
  with world_ok_logger [OF ok rt(1)] have "\<not> lg_mutex rt" by (simp add: logger_ok_def)
  moreover have "r \<noteq> l" using rt lg root by auto
  ultimately have "rbind (Logger_log r level e (put_logger l (lg\<lparr>lg_mutex := True\<rparr>) w))
      (\<lambda>w2. Inr (unlock_logger l w2)) = Logger_log r level e w"
    by (intro Logger_log_leaf_locked [OF lg free rt(1) _ rt(2)])
  with assms free show ?thesis by (simp add: Logger_log_at Let_def)
qed


section \<open>The manager\<close>

text \<open>The logger that getLogger makes for a name it does not know.\<close>

definition fresh_logger :: "string \<Rightarrow> world \<Rightarrow> logger" where
  "fresh_logger name w = \<lparr>lg_name = name, lg_level = DEBUG, lg_appenders = [],
     lg_formatter = Some (LogFormatter default_pattern), lg_root = Some (mg_root (w_mgr w)), lg_mutex = False\<rparr>"

lemma getLogger_known:
  assumes "world_ok w" and "om_find (mg_loggers (w_mgr w)) name = Some l"
  shows "LoggerManager_getLogger name w = Inr (l, w)"
proof -
  have "\<not> mg_mutex (w_mgr w)" using world_ok_registry [OF assms(1)] by (simp add: registry_ok_def)
  moreover then have "w_mgr w = (w_mgr w)\<lparr>mg_mutex := False\<rparr>" by (cases "w_mgr w") simp
  ultimately show ?thesis
    using assms(2) by (simp add: LoggerManager_getLogger_def lock_manager_def unlock_manager_def Spinlock_lock_def Spinlock_unlock_def)
qed

lemma getLogger_new:
  assumes "world_ok w" and "om_find (mg_loggers (w_mgr w)) name = None"
  shows "LoggerManager_getLogger name w = Inr (length (w_loggers w),
    w\<lparr>w_loggers := w_loggers w @ [fresh_logger name w],
      w_mgr := (w_mgr w)\<lparr>mg_loggers := om_put name (length (w_loggers w)) (mg_loggers (w_mgr w))\<rparr>\<rparr>)"
proof -
  have "\<not> mg_mutex (w_mgr w)" using world_ok_registry [OF assms(1)] by (simp add: registry_ok_def)
  with assms(2) show ?thesis
    by (cases w; cases "w_mgr w")
      (simp add: LoggerManager_getLogger_def lock_manager_def unlock_manager_def Spinlock_lock_def
        Spinlock_unlock_def new_Logger_def update_logger_def get_logger_def put_logger_def fresh_logger_def)
qed

lemma getLogger_new_ok:
  assumes ok: "world_ok w" and new: "om_find (mg_loggers (w_mgr w)) name = None"
    and get: "LoggerManager_getLogger name w = Inr (l, w')"
  shows "world_ok w'" and "get_logger w' l = Some (fresh_logger name w)"
proof -
  let ?n = "length (w_loggers w)"
  from getLogger_new [OF ok new] get have l: "l = ?n"
    and w': "w' = w\<lparr>w_loggers := w_loggers w @ [fresh_logger name w],
      w_mgr := (w_mgr w)\<lparr>mg_loggers := om_put name ?n (mg_loggers (w_mgr w))\<rparr>\<rparr>" by auto
  have gl: "get_logger w' k = (if k = ?n then Some (fresh_logger name w) else get_logger w k)" for k
    by (auto simp: w' get_logger_def nth_append)
  have ga: "get_appender w' a = get_appender w a" for a by (simp add: w' get_appender_def)
  have mgr: "mg_root (w_mgr w') = mg_root (w_mgr w)" "mg_mutex (w_mgr w') = mg_mutex (w_mgr w)"
    "mg_loggers (w_mgr w') = om_put name ?n (mg_loggers (w_mgr w))"
    by (simp_all add: w')
  have lok: "logger_ok w' lg" if "logger_ok w lg" for lg
    using that by (simp add: logger_ok_def ready_def ga mgr)
  have "logger_ok w' (fresh_logger name w)" by (simp add: logger_ok_def fresh_logger_def mgr)
  then have "\<forall>k lg. get_logger w' k = Some lg \<longrightarrow> logger_ok w' lg"
    using world_ok_logger [OF ok] lok by (auto simp: gl)
  moreover have "\<forall>a ap. get_appender w' a = Some ap \<longrightarrow> appender_ok ap"
    using world_ok_appender [OF ok] by (simp add: ga)
  moreover have "registry_ok w'"
  proof -
    have reg: "registry_ok w" by (rule world_ok_registry [OF ok])
    have "name \<noteq> ''root''" using reg new by (auto simp: registry_ok_def)
    moreover have "get_logger w ?n = None" by (simp add: get_logger_def)
    then have "mg_root (w_mgr w) \<noteq> ?n" using reg by (auto simp: registry_ok_def)
    moreover have "om_find (mg_loggers (w_mgr w)) n \<noteq> Some ?n" for n
      using reg \<open>get_logger w ?n = None\<close> unfolding registry_ok_def by (metis option.distinct(1))
    moreover have "lg_name (fresh_logger name w) = name" by (simp add: fresh_logger_def)
    ultimately show ?thesis
      using reg by (auto simp: registry_ok_def mgr gl om.ok_put om.find_put)
  qed
  ultimately show "world_ok w'" by (simp add: world_ok_def)
  show "get_logger w' l = Some (fresh_logger name w)" by (simp add: gl l)
qed

lemma getLogger_ok:
  assumes ok: "world_ok w"
  shows "\<exists>l w' lg. LoggerManager_getLogger name w = Inr (l, w') \<and> world_ok w' \<and> get_logger w' l = Some lg \<and>
    lg_name lg = name \<and> om_find (mg_loggers (w_mgr w')) name = Some l"
proof (cases "om_find (mg_loggers (w_mgr w)) name")
  case None
  from getLogger_new [OF ok None] obtain l w' where get: "LoggerManager_getLogger name w = Inr (l, w')"
    and "om_find (mg_loggers (w_mgr w')) name = Some l" by (simp add: om.find_put)
  with getLogger_new_ok [OF ok None get] show ?thesis by (auto simp: fresh_logger_def)
next
  case (Some l)
  with world_ok_registry [OF ok] obtain lg where "get_logger w l = Some lg" "lg_name lg = name"
    by (auto simp: registry_ok_def)
  with Some ok getLogger_known [OF ok Some] show ?thesis by auto
qed

text \<open>The manager's constructor on an empty heap.\<close>

lemma new_LoggerManager_eq:
  assumes "w_loggers w = []" and "w_appenders w = []"
  shows "new_LoggerManager w = Inr (w\<lparr>
    w_loggers := [\<lparr>lg_name = ''root'', lg_level = DEBUG, lg_appenders = [0],
      lg_formatter = Some (LogFormatter default_pattern), lg_root = None, lg_mutex = False\<rparr>],
    w_appenders := [\<lparr>ap_kind = StdoutLogAppender, ap_level = DEBUG, ap_hasFormatter = False,
      ap_formatter = Some (LogFormatter default_pattern), ap_mutex = False, ap_filestream = of_new, ap_lastTime = 0\<rparr>],
    w_mgr := \<lparr>mg_mutex = False, mg_loggers = [(''root'', 0)], mg_root = 0\<rparr>\<rparr>)"
proof -
  let ?lg = "\<lparr>lg_name = ''root'', lg_level = DEBUG, lg_appenders = [],
      lg_formatter = Some (LogFormatter default_pattern), lg_root = None, lg_mutex = False\<rparr>"
  let ?ap = "\<lparr>ap_kind = StdoutLogAppender, ap_level = DEBUG, ap_hasFormatter = False,
      ap_formatter = None, ap_mutex = False, ap_filestream = of_new, ap_lastTime = 0\<rparr>"
  let ?w2 = "w\<lparr>w_loggers := [?lg], w_appenders := [?ap]\<rparr>"
  have lg: "get_logger ?w2 0 = Some ?lg" and ap: "get_appender ?w2 0 = Some ?ap"
    by (simp_all add: get_logger_def get_appender_def)
  show ?thesis
    using assms Logger_addAppender_eq [OF lg _ ap]
    by (cases w) (simp add: new_LoggerManager_def new_Logger_def new_StdoutLogAppender_def new_appender_def
        put_logger_def put_appender_def get_logger_def)
qed

lemma new_LoggerManager_ok:
  assumes "w_loggers w = []" and "w_appenders w = []" and "new_LoggerManager w = Inr w'"
  shows "world_ok w'"
  using assms(3) unfolding new_LoggerManager_eq [OF assms(1,2)]
  by (auto simp: world_ok_def logger_ok_def appender_ok_def registry_ok_def ready_def get_logger_def
      get_appender_def om_ok_def om_find_def split: if_splits)


section \<open>Sequences of calls\<close>

text \<open>
  The calls a client can make on objects it holds, one at a time, and what the surroundings may do
  between two of them: move the clock and change the disk. Logger::debug to fatal are log at a level;
  toYamlString is in Log_Dump.
\<close>

datatype api_call =
    Call_getLogger string
  | Call_setLevel nat Level
  | Call_setFormatter nat "formatter option"
  | Call_setPattern nat string
  | Call_addAppender nat nat
  | Call_delAppender nat nat
  | Call_clearAppenders nat
  | Call_newStdout
  | Call_newFile string
  | Call_appenderSetLevel nat Level
  | Call_appenderSetFormatter nat "formatter option"
  | Call_LOG_LEVEL nat Level string "32 word" string
  | Call_LOG_FMT_LEVEL nat Level string "32 word" "string option"
  | Call_log nat Level event
  | Call_LogEventWrap event
  | Call_getFormatter nat
  | Call_appenderLog nat Level event
  | Call_appenderGetFormatter nat
  | Call_reopen nat
  | Call_newLogger string

fun api_exec :: "api_call \<Rightarrow> world \<Rightarrow> world res" where
  "api_exec (Call_getLogger n) w = rbind (LoggerManager_getLogger n w) (\<lambda>(l, w1). Inr w1)"
| "api_exec (Call_setLevel l v) w = Logger_setLevel l v w"
| "api_exec (Call_setFormatter l f) w = Logger_setFormatter l f w"
| "api_exec (Call_setPattern l p) w = Logger_setFormatter_str l p w"
| "api_exec (Call_addAppender l a) w = Logger_addAppender l a w"
| "api_exec (Call_delAppender l a) w = Logger_delAppender l a w"
| "api_exec (Call_clearAppenders l) w = Logger_clearAppenders l w"
| "api_exec Call_newStdout w = Inr (snd (new_StdoutLogAppender w))"
| "api_exec (Call_newFile f) w = rbind (new_FileLogAppender f w) (\<lambda>(a, w1). Inr w1)"
| "api_exec (Call_appenderSetLevel a v) w = LogAppender_setLevel a v w"
| "api_exec (Call_appenderSetFormatter a f) w = LogAppender_setFormatter a f w"
| "api_exec (Call_LOG_LEVEL l v file line msg) w = LOG_LEVEL l v file line msg w"
| "api_exec (Call_LOG_FMT_LEVEL l v file line buf) w = LOG_FMT_LEVEL l v file line buf w"
| "api_exec (Call_log l v e) w = Logger_log l v e w"
| "api_exec (Call_LogEventWrap e) w = LogEventWrap_dtor e w"
| "api_exec (Call_getFormatter l) w = rbind (Logger_getFormatter l w) (\<lambda>(f, w1). Inr w1)"
| "api_exec (Call_appenderLog a v e) w = LogAppender_log a v e w"
| "api_exec (Call_appenderGetFormatter a) w = rbind (LogAppender_getFormatter a w) (\<lambda>(f, w1). Inr w1)"
| "api_exec (Call_newLogger n) w = Inr (snd (new_Logger n w))"
| "api_exec (Call_reopen a) w = rbind (FileLogAppender_reopen a w) (\<lambda>(b, w1). Inr w1)"

text \<open>
  The rules: the pointers of a call, that of an event to its logger included, lead to objects; no
  formatter that is set is null; an appender that is logged to directly, not through a logger that has
  it, has a formatter; and only file appenders are reopened.
\<close>

fun call_logger :: "api_call \<Rightarrow> nat option" where
  "call_logger (Call_setLevel l _) = Some l"
| "call_logger (Call_setFormatter l _) = Some l"
| "call_logger (Call_setPattern l _) = Some l"
| "call_logger (Call_addAppender l _) = Some l"
| "call_logger (Call_delAppender l _) = Some l"
| "call_logger (Call_clearAppenders l) = Some l"
| "call_logger (Call_LOG_LEVEL l _ _ _ _) = Some l"
| "call_logger (Call_LOG_FMT_LEVEL l _ _ _ _) = Some l"
| "call_logger (Call_log l _ _) = Some l"
| "call_logger (Call_getFormatter l) = Some l"
| "call_logger _ = None"

fun call_appender :: "api_call \<Rightarrow> nat option" where
  "call_appender (Call_addAppender _ a) = Some a"
| "call_appender (Call_delAppender _ a) = Some a"
| "call_appender (Call_appenderSetLevel a _) = Some a"
| "call_appender (Call_appenderSetFormatter a _) = Some a"
| "call_appender (Call_appenderGetFormatter a) = Some a"
| "call_appender _ = None"

fun call_event :: "api_call \<Rightarrow> event option" where
  "call_event (Call_log _ _ e) = Some e"
| "call_event (Call_LogEventWrap e) = Some e"
| "call_event (Call_appenderLog _ _ e) = Some e"
| "call_event _ = None"

fun sets_null :: "api_call \<Rightarrow> bool" where
  "sets_null (Call_setFormatter l f) = (f = None)"
| "sets_null (Call_appenderSetFormatter a f) = (f = None)"
| "sets_null _ = False"

definition is_file :: "world \<Rightarrow> nat \<Rightarrow> bool" where
  "is_file w a = (case get_appender w a of Some ap \<Rightarrow> ap_kind ap \<noteq> StdoutLogAppender | None \<Rightarrow> False)"

definition call_ok :: "world \<Rightarrow> api_call \<Rightarrow> bool" where
  "call_ok w c \<longleftrightarrow> (\<forall>l. call_logger c = Some l \<longrightarrow> l < length (w_loggers w)) \<and>
     (\<forall>a. call_appender c = Some a \<longrightarrow> a < length (w_appenders w)) \<and>
     (\<forall>e. call_event c = Some e \<longrightarrow> (\<exists>l < length (w_loggers w). ev_logger e = Some l)) \<and> \<not> sets_null c \<and>
     (\<forall>a v e. c = Call_appenderLog a v e \<longrightarrow> ready w a) \<and> (\<forall>a. c = Call_reopen a \<longrightarrow> is_file w a)"

inductive api_reach :: "world \<Rightarrow> world \<Rightarrow> bool" for w0 where
  api_start: "api_reach w0 w0"
| api_call: "api_reach w0 w \<Longrightarrow> call_ok w c \<Longrightarrow> api_exec c w = Inr w' \<Longrightarrow> api_reach w0 w'"
| api_clock: "api_reach w0 w \<Longrightarrow> api_reach w0 (w\<lparr>w_now := t\<rparr>)"
| api_disk: "api_reach w0 w \<Longrightarrow> api_reach w0 (w\<lparr>w_disk := d\<rparr>)"

lemma world_ok_new_appender:
  assumes ok: "world_ok w" and aok: "appender_ok ap"
  shows "world_ok (w\<lparr>w_appenders := w_appenders w @ [ap]\<rparr>)"
proof -
  let ?w = "w\<lparr>w_appenders := w_appenders w @ [ap]\<rparr>"
  have gl: "get_logger ?w l = get_logger w l" for l by (simp add: get_logger_def)
  have ga: "get_appender ?w a = (if a = length (w_appenders w) then Some ap else get_appender w a)" for a
    by (auto simp: get_appender_def nth_append)
  have "get_appender w (length (w_appenders w)) = None" by (simp add: get_appender_def)
  then have "get_appender ?w a = Some x" if "get_appender w a = Some x" for a x
    using that by (auto simp: ga)
  then have rd: "ready ?w a" if "ready w a" for a
    using that unfolding ready_def by blast
  show ?thesis
    using ok aok rd by (auto simp: world_ok_def logger_ok_def registry_ok_def gl ga)
qed

lemma world_ok_new_logger:
  assumes ok: "world_ok w"
  shows "world_ok (snd (new_Logger n w))"
proof -
  let ?lg = "\<lparr>lg_name = n, lg_level = DEBUG, lg_appenders = [], lg_formatter = Some (LogFormatter default_pattern),
      lg_root = None, lg_mutex = False\<rparr>"
  let ?w = "w\<lparr>w_loggers := w_loggers w @ [?lg]\<rparr>" and ?l = "length (w_loggers w)"
  have gl: "get_logger ?w k = (if k = ?l then Some ?lg else get_logger w k)" for k
    by (auto simp: get_logger_def nth_append)
  have ga: "get_appender ?w a = get_appender w a" for a by (simp add: get_appender_def)
  have "get_logger w ?l = None" by (simp add: get_logger_def)
  then have "get_logger ?w k = Some x" if "get_logger w k = Some x" for k x using that by (auto simp: gl)
  then have "registry_ok ?w" using world_ok_registry [OF ok] unfolding registry_ok_def by simp blast
  moreover have "logger_ok ?w x" if "get_logger ?w k = Some x" for k x
    using that world_ok_logger [OF ok, of k x] by (auto simp: gl logger_ok_def ready_def ga split: if_splits)
  ultimately show ?thesis
    using world_ok_appender [OF ok] by (simp add: world_ok_def ga new_Logger_def)
qed

lemma world_ok_clock: "world_ok w \<Longrightarrow> world_ok (w\<lparr>w_now := t\<rparr>)"
  by (simp add: world_ok_def logger_ok_def registry_ok_def ready_def)

lemma update_logger_ok:
  assumes "world_ok w" and "get_logger w l = Some lg" and "logger_ok w (f lg)"
    and "lg_name (f lg) = lg_name lg" and "lg_root (f lg) = lg_root lg"
  shows "\<exists>w'. update_logger l f w = Inr w' \<and> world_ok w'"
  using assms by (simp add: update_logger_def world_ok_put_logger)

lemma Logger_setFormatter_ok:
  assumes ok: "world_ok w" and lg: "get_logger w l = Some lg" and val: "val \<noteq> None"
  shows "\<exists>w'. Logger_setFormatter l val w = Inr w' \<and> world_ok w'"
proof -
  have lok: "logger_ok w lg" by (rule world_ok_logger [OF ok lg])
  then have aps: "\<forall>a \<in> set (lg_appenders lg). \<exists>ap. get_appender w a = Some ap \<and> \<not> ap_mutex ap"
    by (auto simp: logger_ok_def ready_def)
  let ?f = "\<lambda>b ap. if b \<in> set (lg_appenders lg) \<and> \<not> ap_hasFormatter ap then ap\<lparr>ap_formatter := val\<rparr> else ap"
  from Logger_setFormatter_effect [OF lg _ aps, of val] lok obtain w'
    where w': "Logger_setFormatter l val w = Inr w'" and eq: "w' = w\<lparr>w_appenders := w_appenders w', w_loggers := w_loggers w'\<rparr>"
      and ls: "w_loggers w' = w_loggers (put_logger l (lg\<lparr>lg_formatter := val\<rparr>) w)"
      and ga: "\<And>b. get_appender w' b = map_option (?f b) (get_appender w b)"
    unfolding logger_ok_def by blast
  let ?v = "put_logger l (lg\<lparr>lg_formatter := val\<rparr>) w"
  have vok: "world_ok ?v"
    using lok val by (intro world_ok_put_logger [OF ok lg]) (auto simp: logger_ok_def)
  have mgr: "w_mgr w' = w_mgr ?v" by (subst eq) simp
  have gl: "get_logger w' k = get_logger ?v k" for k by (simp add: get_logger_def ls)
  have rd: "ready w' a" if "ready ?v a" for a
  proof -
    from that obtain ap where ap: "get_appender w a = Some ap" "\<not> ap_mutex ap" "ap_formatter ap \<noteq> None"
      by (auto simp: ready_def)
    from ap(1) have "get_appender w' a = Some (?f a ap)" by (simp add: ga)
    then show ?thesis unfolding ready_def using ap val by auto
  qed
  have "world_ok w'"
  proof -
    have "logger_ok w' x" if "get_logger w' k = Some x" for k x
      using world_ok_logger [OF vok that [unfolded gl]] rd by (simp add: logger_ok_def mgr)
    moreover have "appender_ok ap" if "get_appender w' b = Some ap" for b ap
      using that world_ok_appender [OF ok, of b] val by (auto simp: ga appender_ok_def split: if_splits)
    moreover have "registry_ok w'"
      using world_ok_registry [OF vok] unfolding registry_ok_def mgr gl .
    ultimately show ?thesis by (simp add: world_ok_def)
  qed
  with w' show ?thesis by blast
qed


lemma call_ok_logger: "call_ok w c \<Longrightarrow> call_logger c = Some l \<Longrightarrow> \<exists>lg. get_logger w l = Some lg"
  by (simp add: call_ok_def get_logger_def)

lemma call_ok_appender: "call_ok w c \<Longrightarrow> call_appender c = Some a \<Longrightarrow> \<exists>ap. get_appender w a = Some ap"
  by (simp add: call_ok_def get_appender_def)

text \<open>\<open>fine r\<close>: a normal return into a well-formed world, or the one fault that logging can end in.\<close>

definition fine :: "world res \<Rightarrow> bool" where
  "fine r \<longleftrightarrow> safe r \<and> (\<forall>w'. r = Inr w' \<longrightarrow> world_ok w')"

lemma fine_Inr: "\<exists>w'. r = Inr w' \<and> world_ok w' \<Longrightarrow> fine r"
  by (auto simp: fine_def)

lemma fine_log:
  "world_ok w \<Longrightarrow> get_logger w l = Some lg \<Longrightarrow> ev_logger e \<noteq> None \<Longrightarrow> fine (Logger_log l level e w)"
  unfolding fine_def by (blast intro: Logger_log_safe world_ok_frame Logger_log_frame)

lemma macro_event_logger [simp]: "ev_logger (macro_event l level file line w) = Some l"
  by (simp add: macro_event_def mk_event_def)

lemma ev_write_logger [simp]: "ev_logger (ev_write s e) = ev_logger e" "ev_level (ev_write s e) = ev_level e"
  by (simp_all add: ev_write_def)

lemma fine_addAppender:
  assumes ok: "world_ok w" and lg: "get_logger w l = Some lg" and ap: "get_appender w a = Some ap"
  shows "fine (Logger_addAppender l a w)"
proof (rule fine_Inr)
  have lok: "logger_ok w lg" and aok: "appender_ok ap"
    using world_ok_logger [OF ok lg] world_ok_appender [OF ok ap] by auto
  let ?ap = "ap\<lparr>ap_formatter := (if ap_formatter ap = None then lg_formatter lg else ap_formatter ap)\<rparr>"
  let ?w1 = "put_appender a ?ap w"
  let ?lg = "lg\<lparr>lg_appenders := lg_appenders lg @ [a]\<rparr>"
  have "world_ok ?w1"
    using aok lok by (intro world_ok_put_appender [OF ok ap]) (auto simp: appender_ok_def logger_ok_def)
  moreover have "logger_ok ?w1 ?lg"
  proof -
    have "ready ?w1 a" using ap aok lok by (auto simp: ready_def appender_ok_def logger_ok_def)
    moreover have "ready ?w1 b" if "ready w b" for b
      using that ap aok by (auto simp: ready_def appender_ok_def)
    ultimately show ?thesis using lok by (auto simp: logger_ok_def)
  qed
  ultimately have "world_ok (put_logger l ?lg ?w1)"
    using lg by (intro world_ok_put_logger [of ?w1 l lg]) auto
  moreover have "Logger_addAppender l a w = Inr (put_logger l ?lg ?w1)"
    using Logger_addAppender_eq [OF lg _ ap] lok aok
    by (simp add: logger_ok_def appender_ok_def put_logger_appender_commute)
  ultimately show "\<exists>w'. Logger_addAppender l a w = Inr w' \<and> world_ok w'" by blast
qed

lemma fine_newFile: "world_ok w \<Longrightarrow> fine (api_exec (Call_newFile f) w)"
proof -
  assume ok: "world_ok w"
  let ?ap = "\<lparr>ap_kind = FileLogAppender f, ap_level = DEBUG, ap_hasFormatter = False, ap_formatter = None,
         ap_mutex = False, ap_filestream = of_new, ap_lastTime = 0\<rparr>"
  let ?a = "length (w_appenders w)" and ?w1 = "w\<lparr>w_appenders := w_appenders w @ [?ap]\<rparr>"
  have "world_ok ?w1" using ok by (intro world_ok_new_appender) (simp_all add: appender_ok_def)
  moreover have get: "get_appender ?w1 ?a = Some ?ap" by (simp add: get_appender_def)
  moreover from reopen_returns [OF get] obtain b w2 where "FileLogAppender_reopen ?a ?w1 = Inr (b, w2)" by auto
  ultimately show ?thesis
    by (intro fine_Inr) (auto simp: new_FileLogAppender_def new_appender_def dest: reopen_frame intro: world_ok_frame)
qed

lemma fine_setPattern:
  assumes ok: "world_ok w" and lg: "get_logger w l = Some lg"
  shows "fine (Logger_setFormatter_str l p w)"
proof (rule fine_Inr)
  have ok1: "world_ok (print s w)" for s by (rule world_ok_frame [OF ok]) simp
  moreover have "\<exists>w'. Logger_setFormatter l (Some f) (print s w) = Inr w' \<and> world_ok w'" for f s
    using lg by (intro Logger_setFormatter_ok [OF ok1]) auto
  ultimately show "\<exists>w'. Logger_setFormatter_str l p w = Inr w' \<and> world_ok w'"
    using lg by (simp add: Logger_setFormatter_str_def Let_def print_print)
qed

lemma fine_appender_setters:
  assumes ok: "world_ok w" and ap: "get_appender w a = Some ap"
  shows "fine (LogAppender_setLevel a v w)" and "fine (LogAppender_setFormatter a (Some f) w)"
proof -
  have aok: "appender_ok ap" by (rule world_ok_appender [OF ok ap])
  then show "fine (LogAppender_setLevel a v w)"
    using ap by (intro fine_Inr)
      (simp add: LogAppender_setLevel_def update_appender_def world_ok_put_appender [OF ok ap] appender_ok_def)
  show "fine (LogAppender_setFormatter a (Some f) w)"
    using ap aok by (intro fine_Inr)
      (simp add: LogAppender_setFormatter_eq world_ok_put_appender [OF ok ap] appender_ok_def)
qed

lemma fine_logger_setters:
  assumes ok: "world_ok w" and lg: "get_logger w l = Some lg"
  shows "fine (Logger_setLevel l v w)" and "fine (Logger_delAppender l a w)" and "fine (Logger_clearAppenders l w)"
proof -
  have lok: "logger_ok w lg" by (rule world_ok_logger [OF ok lg])
  then show "fine (Logger_setLevel l v w)"
    unfolding Logger_setLevel_def by (intro fine_Inr update_logger_ok [OF ok lg]) (auto simp: logger_ok_def)
  have "set (remove1 a (lg_appenders lg)) \<subseteq> set (lg_appenders lg)" by (rule set_remove1_subset)
  then show "fine (Logger_delAppender l a w)"
    unfolding Logger_delAppender_def using lok
    by (intro fine_Inr update_logger_ok [OF ok lg]) (auto simp: logger_ok_def)
  show "fine (Logger_clearAppenders l w)"
    using lok by (intro fine_Inr) (auto simp: Logger_clearAppenders_eq [OF lg] logger_ok_def
        intro!: world_ok_put_logger [OF ok lg])
qed

lemma fine_direct:
  assumes ok: "world_ok w"
  shows "ready w a \<Longrightarrow> ev_logger e \<noteq> None \<Longrightarrow> fine (LogAppender_log a v e w)"
    and "is_file w a \<Longrightarrow> fine (api_exec (Call_reopen a) w)"
    and "get_appender w a = Some ap \<Longrightarrow> fine (api_exec (Call_appenderGetFormatter a) w)"
    and "get_logger w l = Some lg \<Longrightarrow> fine (api_exec (Call_getFormatter l) w)"
proof -
  show "fine (LogAppender_log a v e w)" if "ready w a" "ev_logger e \<noteq> None"
    using that unfolding fine_def by (blast intro: appender.log_safe world_ok_frame [OF ok] appender.log_frame)
  show "fine (api_exec (Call_reopen a) w)" if "is_file w a"
  proof -
    from that obtain ap where ap: "get_appender w a = Some ap" by (auto simp: is_file_def split: option.splits)
    with world_ok_appender [OF ok ap] obtain b w' where "FileLogAppender_reopen a w = Inr (b, w')"
      using reopen_returns [OF ap] by (auto simp: appender_ok_def)
    then show ?thesis by (intro fine_Inr) (auto dest: reopen_frame intro: world_ok_frame [OF ok])
  qed
  show "fine (api_exec (Call_appenderGetFormatter a) w)" if "get_appender w a = Some ap"
    using that world_ok_appender [OF ok that] ok by (intro fine_Inr) (simp add: LogAppender_getFormatter_eq appender_ok_def)
  show "fine (api_exec (Call_getFormatter l) w)" if "get_logger w l = Some lg"
    using that world_ok_logger [OF ok that] ok
    by (intro fine_Inr) (simp add: Logger_getFormatter_def lock_logger_free unlock_after_lock logger_ok_def)
qed

lemma api_exec_fine:
  assumes ok: "world_ok w" and c: "call_ok w c"
  shows "fine (api_exec c w)"
proof -
  note obj = call_ok_logger [OF c] call_ok_appender [OF c]
  show ?thesis
  proof (cases c)
    case (Call_getLogger n)
    then show ?thesis using getLogger_ok [OF ok, of n] by (intro fine_Inr) auto
  next
    case Call_newStdout
    then show ?thesis
      by (intro fine_Inr) (simp add: new_StdoutLogAppender_def new_appender_def world_ok_new_appender [OF ok] appender_ok_def)
  next
    case (Call_newLogger n)
    then show ?thesis by (intro fine_Inr) (simp add: world_ok_new_logger [OF ok])
  next
    case (Call_newFile f)
    then show ?thesis using fine_newFile [OF ok] by simp
  next
    case (Call_LOG_LEVEL l v f n msg)
    with obj obtain lg where "get_logger w l = Some lg" by fastforce
    with Call_LOG_LEVEL ok show ?thesis by (simp add: LOG_LEVEL_eq fine_log)
  next
    case (Call_LOG_FMT_LEVEL l v f n buf)
    with obj obtain lg where "get_logger w l = Some lg" by fastforce
    with Call_LOG_FMT_LEVEL ok show ?thesis
      by (cases buf) (simp_all add: LOG_FMT_LEVEL_def LogEventWrap_dtor_def ev_format_def fine_log)
  next
    case (Call_log l v e)
    with obj obtain lg where "get_logger w l = Some lg" by fastforce
    with Call_log c ok show ?thesis by (auto simp: call_ok_def intro: fine_log)
  next
    case (Call_LogEventWrap e)
    with c obtain l where "l < length (w_loggers w)" "ev_logger e = Some l" by (auto simp: call_ok_def)
    with Call_LogEventWrap ok show ?thesis by (simp add: LogEventWrap_dtor_def get_logger_def fine_log)
  next
    case (Call_appenderLog a v e)
    with c show ?thesis by (auto simp: call_ok_def intro: fine_direct(1) [OF ok])
  next
    case (Call_reopen a)
    with c fine_direct(2) [OF ok, of a] show ?thesis by (simp add: call_ok_def)
  next
    case (Call_getFormatter l)
    with obj fine_direct(4) [OF ok, of l] show ?thesis by fastforce
  next
    case (Call_appenderGetFormatter a)
    with obj fine_direct(3) [OF ok, of a] show ?thesis by fastforce
  next
    case (Call_setFormatter l f)
    with c obj obtain lg where "get_logger w l = Some lg" "f \<noteq> None" by (fastforce simp: call_ok_def)
    with Call_setFormatter show ?thesis by (auto intro: fine_Inr Logger_setFormatter_ok ok)
  next
    case (Call_appenderSetFormatter a f)
    with c obj obtain ap x where "get_appender w a = Some ap" "f = Some x" by (fastforce simp: call_ok_def)
    with Call_appenderSetFormatter show ?thesis by (simp add: fine_appender_setters [OF ok])
  qed (use obj in \<open>auto intro: fine_logger_setters fine_addAppender fine_setPattern fine_appender_setters
      fine_Inr Logger_setFormatter_ok ok\<close>)
qed

lemma api_reach_ok: "api_reach w0 w \<Longrightarrow> world_ok w0 \<Longrightarrow> world_ok w"
  by (induction rule: api_reach.induct)
    (use api_exec_fine in \<open>auto simp: fine_def world_ok_clock intro: world_ok_frame\<close>)

text \<open>Only getLogger changes the manager, and it takes no name back.\<close>

lemma update_logger_mgr: "update_logger l f w = Inr w' \<Longrightarrow> w_mgr w' = w_mgr w"
  by (auto simp: update_logger_def split: option.splits)

lemma update_appender_mgr: "update_appender a f w = Inr w' \<Longrightarrow> w_mgr w' = w_mgr w"
  by (auto simp: update_appender_Inr)

lemma lock_logger_mgr: "lock_logger l w = Inr w' \<Longrightarrow> w_mgr w' = w_mgr w"
  by (auto simp: lock_logger_Inr)

lemma unlock_mgr [simp]: "w_mgr (unlock_logger l w) = w_mgr w" "w_mgr (unlock_appender a w) = w_mgr w"
  by (simp_all add: unlock_logger_def unlock_appender_def split: option.split)

lemma locked_mgr:
  "(\<And>w1 w2. body w1 = Inr w2 \<Longrightarrow> w_mgr w2 = w_mgr w1) \<Longrightarrow> locked_logger l body w = Inr w' \<Longrightarrow> w_mgr w' = w_mgr w"
  "(\<And>w1 w2. body w1 = Inr w2 \<Longrightarrow> w_mgr w2 = w_mgr w1) \<Longrightarrow> locked_appender a body w = Inr w' \<Longrightarrow> w_mgr w' = w_mgr w"
  by (auto simp: locked_logger_def locked_appender_def rbind_eq_Inr lock_appender_Inr dest!: lock_logger_mgr)

lemma getFormatter_mgr:
  "LogAppender_getFormatter a w = Inr (f, w') \<Longrightarrow> w_mgr w' = w_mgr w"
  "Logger_getFormatter l w = Inr (f, w') \<Longrightarrow> w_mgr w' = w_mgr w"
  by (auto simp: LogAppender_getFormatter_def Logger_getFormatter_def rbind_eq_Inr lock_appender_Inr
      dest!: lock_logger_mgr split: option.splits)

lemma addAppender_mgr: "Logger_addAppender l a w = Inr w' \<Longrightarrow> w_mgr w' = w_mgr w"
  unfolding Logger_addAppender_def
  by (erule locked_mgr(1) [rotated])
    (auto simp: rbind_eq_Inr dest!: getFormatter_mgr update_logger_mgr locked_mgr(2) [OF update_appender_mgr, rotated]
      split: option.splits if_splits)

lemma inherit_mgr: "rfold (inherit_formatter f) as w = Inr w' \<Longrightarrow> w_mgr w' = w_mgr w"
  by (induction as arbitrary: w)
    (auto simp: rbind_eq_Inr inherit_formatter_def dest!: locked_mgr(2) [OF update_appender_mgr, rotated])

lemma setFormatter_mgr: "Logger_setFormatter l f w = Inr w' \<Longrightarrow> w_mgr w' = w_mgr w"
  unfolding Logger_setFormatter_def
  by (erule locked_mgr(1) [rotated])
    (auto simp: rbind_eq_Inr dest!: inherit_mgr update_logger_mgr split: option.splits)

lemma frame_mgr: "frame w w' \<Longrightarrow> w_mgr w' = w_mgr w"
  by (simp add: frame_def)

fun is_getLogger :: "api_call \<Rightarrow> bool" where
  "is_getLogger (Call_getLogger n) = True" | "is_getLogger _ = False"

lemma api_exec_mgr:
  assumes "api_exec c w = Inr w'" and "\<not> is_getLogger c"
  shows "w_mgr w' = w_mgr w"
proof (cases c)
  case (Call_setPattern l p)
  with assms show ?thesis
    by (auto simp: Logger_setFormatter_str_def Let_def print_def dest!: setFormatter_mgr split: if_splits option.splits)
next
  case (Call_newFile f)
  with assms show ?thesis
    by (auto simp: new_FileLogAppender_def new_appender_def rbind_eq_Inr dest!: reopen_frame frame_mgr)
next
  case (Call_LOG_LEVEL l v f n msg)
  with assms show ?thesis
    by (auto simp: LOG_LEVEL_def LogEventWrap_dtor_def dest!: Logger_log_frame frame_mgr split: option.splits if_splits)
next
  case (Call_LOG_FMT_LEVEL l v f n buf)
  with assms show ?thesis
    by (auto simp: LOG_FMT_LEVEL_def LogEventWrap_dtor_def dest!: Logger_log_frame frame_mgr split: option.splits)
next
  case (Call_LogEventWrap e)
  with assms show ?thesis by (auto simp: LogEventWrap_dtor_def dest!: Logger_log_frame frame_mgr split: option.splits)
next
  case Call_newStdout
  with assms show ?thesis by (auto simp: new_StdoutLogAppender_def new_appender_def)
next
  case (Call_newLogger n)
  with assms show ?thesis by (auto simp: new_Logger_def)
next
  case (Call_setLevel l v)
  with assms show ?thesis by (auto simp: Logger_setLevel_def dest: update_logger_mgr)
next
  case (Call_delAppender l a)
  with assms show ?thesis by (auto simp: Logger_delAppender_def dest: update_logger_mgr)
next
  case (Call_clearAppenders l)
  with assms show ?thesis by (auto simp: Logger_clearAppenders_def dest!: locked_mgr(1) [OF update_logger_mgr, rotated])
next
  case (Call_appenderSetLevel a v)
  with assms show ?thesis by (auto simp: LogAppender_setLevel_def dest: update_appender_mgr)
next
  case (Call_appenderSetFormatter a f)
  with assms show ?thesis
    by (auto simp: LogAppender_setFormatter_def dest!: locked_mgr(2) [OF update_appender_mgr, rotated])
qed (use assms in \<open>auto simp: rbind_eq_Inr dest!: getFormatter_mgr setFormatter_mgr addAppender_mgr Logger_log_frame
  appender.log_frame reopen_frame frame_mgr\<close>)

lemma names_stay:
  assumes "api_reach w v" and "world_ok w" and "om_find (mg_loggers (w_mgr w)) name = Some l"
  shows "om_find (mg_loggers (w_mgr v)) name = Some l"
  using assms
proof (induction rule: api_reach.induct)
  case (api_call v c v')
  then have ok: "world_ok v" and reg: "om_find (mg_loggers (w_mgr v)) name = Some l" using api_reach_ok by blast+
  show ?case
  proof (cases "is_getLogger c")
    case False
    from api_exec_mgr [OF api_call.hyps(3) False] reg show ?thesis by simp
  next
    case True
    then obtain n where c: "c = Call_getLogger n" by (cases c) simp_all
    show ?thesis
    proof (cases "om_find (mg_loggers (w_mgr v)) n")
      case None
      with api_call.hyps(3) c reg getLogger_new [OF ok None] show ?thesis by (auto simp: om.find_put)
    next
      case (Some k)
      with api_call.hyps(3) c reg getLogger_known [OF ok Some] show ?thesis by simp
    qed
  qed
qed simp_all

lemma getLogger_stays:
  assumes "api_reach w v" and "world_ok w" and "om_find (mg_loggers (w_mgr w)) name = Some l"
  shows "LoggerManager_getLogger name v = Inr (l, v) \<and> map_option lg_name (get_logger v l) = Some name"
proof -
  note ok = api_reach_ok [OF assms(1,2)] and reg = names_stay [OF assms]
  from world_ok_registry [OF ok] reg obtain lg where "get_logger v l = Some lg" "lg_name lg = name"
    unfolding registry_ok_def by blast
  with getLogger_known [OF ok reg] show ?thesis by simp
qed

text \<open>A null formatter is followed by the next record at the appender's level.\<close>

lemma null_formatter_log:
  assumes ap: "get_appender w a = Some ap" "\<not> ap_mutex ap" "ap_formatter ap = None" and lv: "ap_level ap \<le> v"
  shows "LogAppender_log a v e w = Inl (Null_Deref ''m_formatter'')"
proof (cases "ap_kind ap")
  case StdoutLogAppender
  with assms show ?thesis
    by (simp add: LogAppender_log_def StdoutLogAppender_log_def locked_appender_def lock_appender_free stdout_write_body_def)
next
  case (FileLogAppender f)
  from refresh_returns [OF ap(1,2)] obtain w1 where w1: "refresh a ap w = Inr w1" by blast
  from frame_get_appender [OF refresh_frame [OF w1] ap(1)] obtain ap1 where ap1: "get_appender w1 a = Some ap1"
      "ap_core ap1 = ap_core ap" by blast
  with ap have "\<not> ap_mutex ap1" "ap_formatter ap1 = None" by (simp_all add: ap_core_def)
  with FileLogAppender w1 ap1(1) ap(1) lv show ?thesis
    by (simp add: LogAppender_log_def FileLogAppender_log_refresh locked_appender_def lock_appender_free file_write_body_def)
qed

lemma null_formatter_set:
  assumes ok: "world_ok w" and ap: "get_appender w a = Some ap"
  shows "\<exists>w'. LogAppender_setFormatter a None w = Inr w' \<and>
    (\<forall>v e. ap_level ap \<le> v \<longrightarrow> LogAppender_log a v e w' = Inl (Null_Deref ''m_formatter''))"
proof -
  have free: "\<not> ap_mutex ap" using world_ok_appender [OF ok ap] by (simp add: appender_ok_def)
  let ?ap = "ap\<lparr>ap_formatter := None, ap_hasFormatter := False\<rparr>"
  have "LogAppender_setFormatter a None w = Inr (put_appender a ?ap w)" using LogAppender_setFormatter_eq [OF ap free] by simp
  moreover have "get_appender (put_appender a ?ap w) a = Some ?ap" using ap by simp
  ultimately show ?thesis using null_formatter_log [of _ a ?ap] free by simp
qed

section \<open>Logging through the root\<close>

lemma Logger_log_one_stdout:
  assumes lg: "get_logger w r = Some lg" "\<not> lg_mutex lg" "lg_level lg \<le> level" "lg_appenders lg = [a]"
    and ap: "get_appender w a = Some ap" "ap_kind ap = StdoutLogAppender" "\<not> ap_mutex ap" "ap_level ap \<le> level"
      "ap_formatter ap = Some fm"
    and fmt: "format_str (world_env w) fm level e = Inr s"
  shows "Logger_log r level e w = Inr (print s w)"
proof -
  let ?w1 = "put_logger r (lg\<lparr>lg_mutex := True\<rparr>) w"
  have w1: "?w1 = with_loggers ((w_loggers w)[r := lg\<lparr>lg_mutex := True\<rparr>]) w" by (rule put_logger_with)
  have "world_env ?w1 = world_env w" unfolding w1 using lg(1) by (intro with_loggers_env names_update)
  with ap fmt have "StdoutLogAppender_log a level e ?w1 = Inr (print s ?w1)"
    by (intro StdoutLogAppender_log_eq) simp_all
  with ap have "LogAppender_log a level e ?w1 = Inr (print s ?w1)" by (simp add: LogAppender_log_def)
  moreover have "unlock_logger r (print s ?w1) = print s w"
  proof -
    have "get_logger (print s ?w1) r = Some (lg\<lparr>lg_mutex := True\<rparr>)" using lg(1) by simp
    moreover have "put_logger r lg (print s ?w1) = print s (put_logger r lg w)" by (simp add: put_logger_def print_def)
    ultimately show ?thesis using logger_unlocked_same [OF lg(2)] put_logger_same [OF lg(1)]
      by (simp add: unlock_logger_simp)
  qed
  ultimately show ?thesis by (simp add: Logger_log_at [OF lg(1-3)] lg(4))
qed

text \<open>The world right after the manager's construction: the root logger with its console appender.\<close>

definition root_logger_object :: logger where
  "root_logger_object = \<lparr>lg_name = ''root'', lg_level = DEBUG, lg_appenders = [0],
     lg_formatter = Some (LogFormatter default_pattern), lg_root = None, lg_mutex = False\<rparr>"

definition root_console :: appender where
  "root_console = \<lparr>ap_kind = StdoutLogAppender, ap_level = DEBUG, ap_hasFormatter = False,
     ap_formatter = Some (LogFormatter default_pattern), ap_mutex = False, ap_filestream = of_new, ap_lastTime = 0\<rparr>"

definition managed :: "world \<Rightarrow> world" where
  "managed w = w\<lparr>w_loggers := [root_logger_object], w_appenders := [root_console],
    w_mgr := \<lparr>mg_mutex = False, mg_loggers = [(''root'', 0)], mg_root = 0\<rparr>\<rparr>"

lemma managed_eq: "w_loggers w = [] \<Longrightarrow> w_appenders w = [] \<Longrightarrow> new_LoggerManager w = Inr (managed w)"
  unfolding managed_def root_logger_object_def root_console_def by (rule new_LoggerManager_eq)

lemma managed_ok: "w_loggers w = [] \<Longrightarrow> w_appenders w = [] \<Longrightarrow> world_ok (managed w)"
  by (rule new_LoggerManager_ok [OF _ _ managed_eq])

lemma managed_root_log:
  assumes "w_loggers v = root_logger_object # ls" and "w_appenders v = [root_console]"
    and "format_str (world_env v) (LogFormatter default_pattern) level e = Inr s" and "DEBUG \<le> level"
  shows "Logger_log 0 level e v = Inr (print s v)"
proof (rule Logger_log_one_stdout [where lg = root_logger_object and ap = root_console and a = 0])
  show "get_logger v 0 = Some root_logger_object" using assms(1) by (simp add: get_logger_def)
  show "get_appender v 0 = Some root_console" using assms(2) by (simp add: get_appender_def)
qed (use assms in \<open>simp_all add: root_logger_object_def root_console_def\<close>)

text \<open>The line that the default pattern makes of a macro call.\<close>

definition default_line_text :: "world \<Rightarrow> string \<Rightarrow> Level \<Rightarrow> string \<Rightarrow> 32 word \<Rightarrow> string \<Rightarrow> string" where
  "default_line_text w name level file line msg =
     w_strftime w default_date (w_now w) @ tab @ show_nat (unat (w_tid w)) @ tab @
     w_tname w @ tab @ show_nat (unat (w_fid w)) @ tab @ ''['' @ ToString level @ '']'' @ tab @
     ''['' @ name @ '']'' @ tab @ file @ '':'' @ show_int (sint line) @ tab @ msg @ nl"

lemma default_format:
  assumes "get_logger v l = Some lg" and "length (w_strftime w default_date (w_now w)) < 64"
    and "w_strftime v = w_strftime w" "w_now v = w_now w" "w_tid v = w_tid w" "w_fid v = w_fid w" "w_tname v = w_tname w"
  shows "format_str (world_env v) (LogFormatter default_pattern) level (ev_write msg (macro_event l level file line v)) =
    Inr (default_line_text w (lg_name lg) level file line msg)"
  using assms by (simp add: format_str_def default_pattern_items fmt_step_def Let_def world_env_def macro_event_def
      mk_event_def ev_write_def default_line_text_def)

text \<open>A program that has printed one line before logging starts.\<close>

definition blank_world :: world where
  "blank_world = \<lparr>w_stdout = ''start '',
     w_disk = \<lparr>d_names = Map.empty, d_data = (\<lambda>_. []), d_next = 0, d_can_open = (\<lambda>_. True), d_full = False\<rparr>,
     w_now = 99, w_strftime = (\<lambda>f t. ''2022''), w_tid = 12, w_fid = 3, w_tname = ''main'', w_loggers = [],
     w_appenders = [], w_mgr = \<lparr>mg_mutex = False, mg_loggers = [], mg_root = 0\<rparr>\<rparr>"

lemma blank_simps:
  "w_loggers blank_world = []" "w_appenders blank_world = []" "w_stdout blank_world = ''start ''"
  "w_strftime blank_world f t = ''2022''" "w_now blank_world = 99" "w_tid blank_world = 12" "w_fid blank_world = 3"
  "w_tname blank_world = ''main''"
  by (simp_all add: blank_world_def)

lemma managed_blank:
  "get_logger (managed blank_world) 0 = Some root_logger_object" "length (w_loggers (managed blank_world)) = 1"
  "length (w_appenders (managed blank_world)) = 1" "om_find (mg_loggers (w_mgr (managed blank_world))) ''root'' = Some 0"
  "om_find (mg_loggers (w_mgr (managed blank_world))) ''app'' = None"
  by (simp_all add: managed_def get_logger_def om_find_def)

text \<open>
  The first log line: with a fresh manager, logging through the macro to the logger of any
  name prints exactly the default line, with that logger's name, on the console; a new logger has
  no appenders of its own and writes through the root's.
\<close>

lemma first_line:
  assumes "w_loggers w = []" and "w_appenders w = []" and "DEBUG \<le> level"
    and "length (w_strftime w default_date (w_now w)) < 64"
  shows "\<exists>w'. rbind (new_LoggerManager w) (\<lambda>w0. rbind (LoggerManager_getLogger name w0)
      (\<lambda>(l, w1). LOG_LEVEL l level file line msg w1)) = Inr w' \<and>
    w_stdout w' = w_stdout w @ default_line_text w name level file line msg \<and> world_ok w'"
proof -
  let ?m = "managed w"
  note mok = managed_ok [OF assms(1,2)]
  have *: "\<exists>w'. LOG_LEVEL l level file line msg v = Inr w' \<and>
      w_stdout w' = w_stdout w @ default_line_text w name level file line msg \<and> world_ok w'"
    if ok: "world_ok v" and lg: "get_logger v l = Some lg" "lg_name lg = name" "lg_level lg = DEBUG"
      and way: "l = 0 \<or> (lg_appenders lg = [] \<and> lg_root lg = Some 0)"
      and v: "w_loggers v = root_logger_object # ls" "w_appenders v = [root_console]"
        "w_strftime v = w_strftime w" "w_now v = w_now w" "w_tid v = w_tid w" "w_fid v = w_fid w"
        "w_tname v = w_tname w" "w_stdout v = w_stdout w" for l lg v ls
  proof -
    let ?e = "ev_write msg (macro_event l level file line v)"
    have "Logger_log 0 level ?e v = Inr (print (default_line_text w name level file line msg) v)"
      by (rule managed_root_log [OF v(1,2) _ assms(3)]) (use default_format [OF lg(1) assms(4) v(3-7)] lg(2) in simp)
    moreover have "Logger_log l level ?e v = Logger_log 0 level ?e v"
      using way Logger_log_fallback_root [OF ok lg(1) _ _ _, of level 0 ?e] lg(3) assms(3) by auto
    ultimately show ?thesis
      using world_ok_frame [OF ok frame_print] v(8) by (simp add: LOG_LEVEL_eq [OF lg(1)])
  qed
  show ?thesis
  proof (cases "name = ''root''")
    case True
    have "LoggerManager_getLogger name ?m = Inr (0, ?m)"
      by (rule getLogger_known [OF mok]) (simp add: managed_def om_find_def True)
    with *[OF mok, of 0 root_logger_object "[]"] True show ?thesis
      by (simp add: managed_eq [OF assms(1,2)]) (simp add: managed_def get_logger_def root_logger_object_def)
  next
    case False
    then have none: "om_find (mg_loggers (w_mgr ?m)) name = None" by (simp add: managed_def om_find_def)
    obtain v where get: "LoggerManager_getLogger name ?m = Inr (1, v)" and v: "v = ?m\<lparr>w_loggers := w_loggers ?m @ [fresh_logger name ?m],
        w_mgr := (w_mgr ?m)\<lparr>mg_loggers := om_put name (length (w_loggers ?m)) (mg_loggers (w_mgr ?m))\<rparr>\<rparr>"
      using getLogger_new [OF mok none] by (simp add: managed_def)
    have "\<exists>w'. LOG_LEVEL 1 level file line msg v = Inr w' \<and>
        w_stdout w' = w_stdout w @ default_line_text w name level file line msg \<and> world_ok w'"
      by (rule * [OF getLogger_new_ok [OF mok none get]])
        (simp_all add: v fresh_logger_def managed_def)
    with get show ?thesis by (simp add: managed_eq [OF assms(1,2)])
  qed
qed

section \<open>Properties\<close>

text \<open>
  C2. Any sequence of calls by the rules is safe. The manager's constructor returns, and from then on,
  whatever loggers and appenders a client makes, gets, changes, links, reopens and logs to, through the
  macros, an event wrapper or log itself, and whatever the clock and the disk do in between, every call
  returns into a well-formed world again: it takes no spin lock twice, follows no null or dangling
  pointer, and leaves no lock held. The one other outcome is the unspecified date buffer of the
  formatter. The rules ask that the client's pointers and those of its events lead to objects, that it
  sets no null formatter, that an appender it logs to directly has a formatter, and that only file
  appenders are reopened. The rule on formatters is needed: setFormatter accepts a null one for any
  appender, and the next record at its level then follows it.
\<close>

theorem api_calls_safe:
  assumes "w_loggers w = []" and "w_appenders w = []"
  shows "\<exists>w0. new_LoggerManager w = Inr w0 \<and> (\<forall>w1 c. api_reach w0 w1 \<longrightarrow> call_ok w1 c \<longrightarrow>
      (\<exists>w2. api_exec c w1 = Inr w2 \<and> world_ok w2) \<or> api_exec c w1 = Inl date_fault) \<and>
    (\<forall>w1 a ap. api_reach w0 w1 \<longrightarrow> get_appender w1 a = Some ap \<longrightarrow>
      (\<exists>w2. api_exec (Call_appenderSetFormatter a None) w1 = Inr w2 \<and>
        (\<forall>v e. ap_level ap \<le> v \<longrightarrow> api_exec (Call_appenderLog a v e) w2 = Inl (Null_Deref ''m_formatter''))))"
proof -
  have ok: "world_ok w1" if "api_reach (managed w) w1" for w1 by (rule api_reach_ok [OF that managed_ok [OF assms]])
  have "(\<exists>w2. api_exec c w1 = Inr w2 \<and> world_ok w2) \<or> api_exec c w1 = Inl date_fault"
    if "api_reach (managed w) w1" and "call_ok w1 c" for w1 c
    using api_exec_fine [OF ok [OF that(1)] that(2)] by (cases "api_exec c w1") (simp_all add: fine_def safe_def)
  moreover have "\<exists>w2. api_exec (Call_appenderSetFormatter a None) w1 = Inr w2 \<and>
      (\<forall>v e. ap_level ap \<le> v \<longrightarrow> api_exec (Call_appenderLog a v e) w2 = Inl (Null_Deref ''m_formatter''))"
    if "api_reach (managed w) w1" and "get_appender w1 a = Some ap" for w1 a ap
    using null_formatter_set [OF ok [OF that(1)] that(2)] by simp
  ultimately show ?thesis using managed_eq [OF assms] by blast
qed

theorem api_calls_safe_witness:
  "(\<exists>w2. api_exec (Call_addAppender 0 0) (managed blank_world) = Inr w2 \<and> world_ok w2) \<or>
   api_exec (Call_addAppender 0 0) (managed blank_world) = Inl date_fault"
proof -
  have c: "call_ok (managed blank_world) (Call_addAppender 0 0)" by (simp add: call_ok_def managed_blank)
  obtain w0 where w0: "new_LoggerManager blank_world = Inr w0" and safe: "\<forall>w1 c. api_reach w0 w1 \<longrightarrow> call_ok w1 c \<longrightarrow>
      (\<exists>w2. api_exec c w1 = Inr w2 \<and> world_ok w2) \<or> api_exec c w1 = Inl date_fault"
    using api_calls_safe [OF blank_simps(1,2)] by blast
  from w0 have "w0 = managed blank_world" by (simp add: managed_eq [OF blank_simps(1,2)])
  with safe c api_start [of w0] show ?thesis by blast
qed

text \<open>
  Levels gate: a record below a logger's level leaves the world untouched, on whichever way it
  comes in: Logger::log, the streaming macro or the formatting macro, with or without a formatted
  text. Appenders gate the same way by their own level.
\<close>

lemma below_level_silent:
  assumes "get_logger w l = Some lg" and "level < lg_level lg"
    and "get_appender w a = Some ap" and "level < ap_level ap"
  shows "Logger_log l level e w = Inr w \<and> LOG_LEVEL l level file line msg w = Inr w \<and>
    LOG_FMT_LEVEL l level file line buf w = Inr w \<and> LogAppender_log a level e w = Inr w"
proof -
  have above: "\<not> lg_level lg \<le> level" using assms(2) by (simp add: not_le)
  have "LOG_FMT_LEVEL l level file line buf w = Inr w"
    by (cases buf) (use Logger_log_below [OF assms(1,2)] in
      \<open>simp_all add: LOG_FMT_LEVEL_def ev_format_def LogEventWrap_dtor_def macro_event_def mk_event_def ev_write_def\<close>)
  moreover have "LOG_LEVEL l level file line msg w = Inr w"
    using assms(1) above by (simp add: LOG_LEVEL_def)
  ultimately show ?thesis
    using Logger_log_below [OF assms(1,2)] appender.log_threshold [OF assms(3,4)] by simp
qed

text \<open>
  A logger without appenders delegates: at or above its own level it behaves exactly as its root
  logger does on the same event, errors included. The lock it holds during the call never gets in
  the root's way.
\<close>

lemma delegates_to_root:
  assumes "world_ok w" and "get_logger w l = Some lg" and "lg_level lg \<le> level"
    and "lg_appenders lg = []" and "lg_root lg = Some r"
  shows "Logger_log l level e w = Logger_log r level e w"
  using assms by (rule Logger_log_fallback_root)

text \<open>
  C28. getLogger is a registry: in a well-formed world it returns a logger of the asked name and makes
  one only for a name it has not seen, with the manager's root to fall back to; it changes no other
  logger, no appender and no other name's entry; and it returns the same object ever after, whatever
  calls by the rules follow, other new names included.
\<close>

theorem getLogger_registers:
  assumes "world_ok w"
  shows "\<exists>l w'. LoggerManager_getLogger name w = Inr (l, w') \<and> world_ok w' \<and>
    map_option lg_name (get_logger w' l) = Some name \<and>
    (\<forall>v. api_reach w' v \<longrightarrow> LoggerManager_getLogger name v = Inr (l, v) \<and> map_option lg_name (get_logger v l) = Some name) \<and>
    (\<forall>n. n \<noteq> name \<longrightarrow> om_find (mg_loggers (w_mgr w')) n = om_find (mg_loggers (w_mgr w)) n) \<and>
    (om_find (mg_loggers (w_mgr w)) name \<noteq> None \<longrightarrow> w' = w) \<and>
    (om_find (mg_loggers (w_mgr w)) name = None \<longrightarrow> l = length (w_loggers w) \<and> get_logger w' l = Some (fresh_logger name w)) \<and>
    take (length (w_loggers w)) (w_loggers w') = w_loggers w \<and> w_appenders w' = w_appenders w"
proof -
  obtain l w' lg where get: "LoggerManager_getLogger name w = Inr (l, w')" "world_ok w'" "get_logger w' l = Some lg"
      "lg_name lg = name" and reg: "om_find (mg_loggers (w_mgr w')) name = Some l"
    using getLogger_ok [OF assms] by blast
  have later: "LoggerManager_getLogger name v = Inr (l, v) \<and> map_option lg_name (get_logger v l) = Some name"
    if "api_reach w' v" for v
    by (rule getLogger_stays [OF that get(2) reg])
  show ?thesis
  proof (cases "om_find (mg_loggers (w_mgr w)) name")
    case None
    note made = getLogger_new_ok(2) [OF assms None get(1)] and new = getLogger_new [OF assms None]
    from get(1) new have "l = length (w_loggers w)" "w_loggers w' = w_loggers w @ [fresh_logger name w]"
      "w_appenders w' = w_appenders w" "mg_loggers (w_mgr w') = om_put name l (mg_loggers (w_mgr w))" by auto
    with get later None made show ?thesis by (auto simp: om.find_put)
  next
    case (Some k)
    with getLogger_known [OF assms Some] get later show ?thesis by auto
  qed
qed

theorem getLogger_registers_witness:
  "\<exists>v w'. LoggerManager_getLogger ''app'' (managed blank_world) = Inr (1, v) \<and>
     LoggerManager_getLogger ''db'' v = Inr (2, w') \<and> LoggerManager_getLogger ''app'' w' = Inr (1, w')"
proof -
  obtain v where v: "LoggerManager_getLogger ''app'' (managed blank_world) = Inr (1, v)" "world_ok v"
      "\<forall>u. api_reach v u \<longrightarrow> LoggerManager_getLogger ''app'' u = Inr (1, u)"
      "om_find (mg_loggers (w_mgr v)) ''db'' = om_find (mg_loggers (w_mgr (managed blank_world))) ''db''"
      "get_logger v 1 = Some (fresh_logger ''app'' (managed blank_world))"
    using getLogger_registers [OF managed_ok [OF blank_simps(1,2)], of "''app''"] by (auto simp: managed_blank)
  then have db: "om_find (mg_loggers (w_mgr v)) ''db'' = None" and two: "length (w_loggers v) = 2"
    using getLogger_new [OF managed_ok [OF blank_simps(1,2)], of "''app''"] by (auto simp: managed_blank managed_def om_find_def)
  obtain w' where w': "LoggerManager_getLogger ''db'' v = Inr (2, w')" using getLogger_new [OF v(2) db] two by auto
  then have "api_reach v w'" by (intro api_call [OF api_start, of _ "Call_getLogger ''db''"]) (simp_all add: call_ok_def)
  with v w' show ?thesis by blast
qed

text \<open>
  setFormatter reaches exactly the appenders that follow their logger: the logger gets the
  formatter, every appender in its list that has none of its own gets it too, and no other field of
  any logger or appender, and nothing else in the world, changes.
\<close>

lemma setFormatter_reaches:
  assumes "get_logger w l = Some lg" and "\<not> lg_mutex lg"
    and "\<forall>a \<in> set (lg_appenders lg). \<exists>ap. get_appender w a = Some ap \<and> \<not> ap_mutex ap"
  shows "\<exists>w'. Logger_setFormatter l val w = Inr w' \<and> w' = w\<lparr>w_appenders := w_appenders w', w_loggers := w_loggers w'\<rparr> \<and>
    w_loggers w' = (w_loggers w)[l := lg\<lparr>lg_formatter := val\<rparr>] \<and>
    (\<forall>b. get_appender w' b = map_option
      (\<lambda>ap. if b \<in> set (lg_appenders lg) \<and> \<not> ap_hasFormatter ap then ap\<lparr>ap_formatter := val\<rparr> else ap) (get_appender w b))"
  using Logger_setFormatter_effect [OF assms, of val] by (simp add: put_logger_def)

end
