(* ===== verification/Outcome.thy ===== *)
theory Outcome
  imports Prelude
begin

text \<open>
  The result of an operation that threads a state and may throw: the state reached survives an
  exception, since the caller may catch it, and is lost when the process ends. \<open>obind\<close> is the
  sequencing of two statements, \<open>oloop\<close> a range-based for loop.
\<close>

datatype ('a, 's) outcome =
    Returns 'a 's
  | Raises exn 's
  | Crashes fault

definition obind :: "('a, 's) outcome \<Rightarrow> ('a \<Rightarrow> 's \<Rightarrow> ('b, 's) outcome) \<Rightarrow> ('b, 's) outcome" where
  "obind r f = (case r of Returns a s \<Rightarrow> f a s | Raises x s \<Rightarrow> Raises x s | Crashes c \<Rightarrow> Crashes c)"

lemma obind_simps [simp]:
  "obind (Returns a s) f = f a s" "obind (Raises x s) f = Raises x s" "obind (Crashes c) f = Crashes c"
  by (simp_all add: obind_def)

lemma obind_return [simp]: "obind r Returns = r"
  by (cases r) simp_all

lemma obind_assoc: "obind (obind r f) g = obind r (\<lambda>a s. obind (f a s) g)"
  by (cases r) simp_all

lemma obind_cong [fundef_cong]:
  "r = r' \<Longrightarrow> (\<And>a s. r' = Returns a s \<Longrightarrow> f a s = f' a s) \<Longrightarrow> obind r f = obind r' f'"
  by (cases r') auto

lemma obind_Returns: "obind r f = Returns b s' \<longleftrightarrow> (\<exists>a s. r = Returns a s \<and> f a s = Returns b s')"
  by (cases r) auto

fun oloop :: "('x \<Rightarrow> 's \<Rightarrow> (unit, 's) outcome) \<Rightarrow> 'x list \<Rightarrow> 's \<Rightarrow> (unit, 's) outcome" where
  "oloop f [] s = Returns () s"
| "oloop f (x # xs) s = obind (f x s) (\<lambda>_. oloop f xs)"

lemma oloop_append: "oloop f (xs @ ys) s = obind (oloop f xs s) (\<lambda>_. oloop f ys)"
proof (induction xs arbitrary: s)
  case (Cons x xs)
  then show ?case by (cases "f x s") simp_all
qed simp

lemma oloop_pure: "(\<And>x s. x \<in> set xs \<Longrightarrow> f x s = Returns () (g x s)) \<Longrightarrow> oloop f xs s = Returns () (fold g xs s)"
  by (induction xs arbitrary: s) auto

lemma oloop_cong: "(\<And>x s. x \<in> set xs \<Longrightarrow> f x s = g x s) \<Longrightarrow> oloop f xs s = oloop g xs s"
  by (induction xs arbitrary: s) (auto intro!: obind_cong)

lemma oloop_invariant:
  assumes "\<And>x s s'. x \<in> set xs \<Longrightarrow> P s \<Longrightarrow> f x s = Returns () s' \<Longrightarrow> P s'" and "P s"
    and "oloop f xs s = Returns () s'"
  shows "P s'"
  using assms by (induction xs arbitrary: s) (auto simp: obind_Returns)

text \<open>\<open>ends_ok\<close>: whatever state the operation leaves satisfies the predicate.\<close>

definition ends_in :: "('s \<Rightarrow> bool) \<Rightarrow> ('a, 's) outcome \<Rightarrow> bool" where
  "ends_in P r = (case r of Returns _ s \<Rightarrow> P s | Raises _ s \<Rightarrow> P s | Crashes _ \<Rightarrow> True)"

lemma ends_in_simps [simp]:
  "ends_in P (Returns a s) = P s" "ends_in P (Raises x s) = P s" "ends_in P (Crashes c)"
  by (simp_all add: ends_in_def)

lemma ends_in_obind:
  "ends_in P r \<Longrightarrow> (\<And>a s. r = Returns a s \<Longrightarrow> P s \<Longrightarrow> ends_in Q (f a s)) \<Longrightarrow> (\<And>s. P s \<Longrightarrow> Q s) \<Longrightarrow> ends_in Q (obind r f)"
  by (cases r) auto

lemma ends_in_oloop:
  "(\<And>x s. x \<in> set xs \<Longrightarrow> P s \<Longrightarrow> ends_in P (f x s)) \<Longrightarrow> P s \<Longrightarrow> ends_in P (oloop f xs s)"
  by (induction xs arbitrary: s) (auto intro!: ends_in_obind [where P = P])

text \<open>A result that leaves the state alone, and a loop with a local variable \<open>a\<close>.\<close>

definition at_state :: "'a res \<Rightarrow> 's \<Rightarrow> ('a, 's) outcome" where
  "at_state r s = (case r of Inr a \<Rightarrow> Returns a s | Inl (Throw e) \<Rightarrow> Raises e s | Inl f \<Rightarrow> Crashes f)"

lemma at_state_simps [simp]: "at_state (Inr a) s = Returns a s" "at_state (Inl (Throw e)) s = Raises e s"
  by (simp_all add: at_state_def)

lemma at_state_Returns: "at_state r s = Returns a s' \<longleftrightarrow> r = Inr a \<and> s' = s"
  by (auto simp: at_state_def split: sum.splits fault.splits)

fun ofold :: "('x \<Rightarrow> 'a \<Rightarrow> 's \<Rightarrow> ('a, 's) outcome) \<Rightarrow> 'x list \<Rightarrow> 'a \<Rightarrow> 's \<Rightarrow> ('a, 's) outcome" where
  "ofold f [] a s = Returns a s"
| "ofold f (x # xs) a s = obind (f x a s) (ofold f xs)"

lemma ofold_append: "ofold f (xs @ ys) a s = obind (ofold f xs a s) (ofold f ys)"
proof (induction xs arbitrary: a s)
  case (Cons x xs)
  then show ?case by (cases "f x a s") simp_all
qed simp

lemma ofold_invariant:
  assumes "\<And>x a s a' s'. P a \<Longrightarrow> f x a s = Returns a' s' \<Longrightarrow> P a'" and "P a"
    and "ofold f xs a s = Returns a' s'"
  shows "P a'"
  using assms(2,3)
proof (induction xs arbitrary: a s)
  case (Cons x xs)
  then obtain b t where "f x a s = Returns b t" and rest: "ofold f xs b t = Returns a' s'" by (auto simp: obind_Returns)
  from assms(1) [OF Cons.prems(1) this(1)] rest show ?case by (rule Cons.IH)
qed simp

text \<open>An operation that cannot throw, as one that can.\<close>

definition of_res :: "'s res \<Rightarrow> (unit, 's) outcome" where
  "of_res r = (case r of Inr s \<Rightarrow> Returns () s | Inl f \<Rightarrow> Crashes f)"

lemma of_res_simps [simp]: "of_res (Inr s) = Returns () s" "of_res (Inl f) = Crashes f"
  by (simp_all add: of_res_def)

end
