(* ===== verification/Config_Var.thy ===== *)
theory Config_Var
  imports Outcome Locks Ordered_Map Log_Level
begin

text \<open>
  ConfigVarBase and ConfigVar (config.h): a named value with change listeners, guarded by a
  read-write lock. The value type is \<open>'v\<close>; the world that listeners and logging act on is \<open>'s\<close>.
  FromStr, ToStr and the root logger are arguments. A listener is a std::function, which may
  be empty (None).
\<close>

type_synonym ('v, 's) on_change_back = "('v \<Rightarrow> 'v \<Rightarrow> 's \<Rightarrow> (unit, 's) outcome) option"

record config_var_base =
  cv_name :: string
  cv_description :: string

record ('v, 's) config_var = config_var_base +
  cv_type :: string                                 \<comment> \<open>typeid(T).name()\<close>
  cv_val :: 'v
  cv_mutex :: rwlock
  cv_cbs :: "(64 word, ('v, 's) on_change_back) omap"

text \<open>
  The root logger as the macros use it: whether a level is enabled, and the writing of a record. The
  message expression is evaluated only when the level is enabled.
\<close>

record 's log_api =
  la_enabled :: "Level \<Rightarrow> 's \<Rightarrow> bool"
  la_write :: "Level \<Rightarrow> string \<Rightarrow> 's \<Rightarrow> (unit, 's) outcome"

definition LOG :: "'s log_api \<Rightarrow> Level \<Rightarrow> string \<Rightarrow> 's \<Rightarrow> (unit, 's) outcome" where
  "LOG la level msg s = (if la_enabled la level s then la_write la level msg s else Returns () s)"

text \<open>The constructors: the base class lowers the name.\<close>

definition ConfigVarBase :: "string \<Rightarrow> string \<Rightarrow> config_var_base" where
  "ConfigVarBase name description = \<lparr>cv_name = map tolower name, cv_description = description\<rparr>"

definition ConfigVar :: "string \<Rightarrow> string \<Rightarrow> 'v \<Rightarrow> string \<Rightarrow> ('v, 's) config_var" where
  "ConfigVar type_name name default_value description =
     config_var_base.extend (ConfigVarBase name description)
       (config_var.fields type_name default_value RWMutex_init [])"

lemma ConfigVar_eq:
  "ConfigVar type_name name default_value description =
     \<lparr>cv_name = map tolower name, cv_description = description, cv_type = type_name,
      cv_val = default_value, cv_mutex = RWMutex_init, cv_cbs = []\<rparr>"
  by (simp add: ConfigVar_def ConfigVarBase_def config_var_base.defs config_var.defs)

text \<open>
  A scope under the variable's lock. The state is the variable and the world; the guard's destructor
  runs on a return and on an exception.
\<close>

definition cv_unlock :: "('v, 's) config_var \<times> 's \<Rightarrow> ('v, 's) config_var \<times> 's" where
  "cv_unlock xs = (case xs of (x, s) \<Rightarrow> (x\<lparr>cv_mutex := RWMutex_unlock (cv_mutex x)\<rparr>, s))"

definition cv_scope ::
  "(rwlock \<Rightarrow> rwlock option) \<Rightarrow> (('v, 's) config_var \<times> 's \<Rightarrow> ('a, ('v, 's) config_var \<times> 's) outcome) \<Rightarrow>
   ('v, 's) config_var \<times> 's \<Rightarrow> ('a, ('v, 's) config_var \<times> 's) outcome" where
  "cv_scope acquire body xs = (case xs of (x, s) \<Rightarrow>
     (case acquire (cv_mutex x) of
        None \<Rightarrow> Crashes (Deadlock ''ConfigVar::m_mutex'')
      | Some m \<Rightarrow> (case body (x\<lparr>cv_mutex := m\<rparr>, s) of
          Returns a xs' \<Rightarrow> Returns a (cv_unlock xs')
        | Raises e xs' \<Rightarrow> Raises e (cv_unlock xs')
        | Crashes f \<Rightarrow> Crashes f)))"

text \<open>An operation of the world, run with the variable unchanged.\<close>

definition on_world :: "('s \<Rightarrow> ('a, 's) outcome) \<Rightarrow> 'x \<times> 's \<Rightarrow> ('a, 'x \<times> 's) outcome" where
  "on_world f xs = (case xs of (x, s) \<Rightarrow> (case f s of
     Returns a s' \<Rightarrow> Returns a (x, s') | Raises e s' \<Rightarrow> Raises e (x, s') | Crashes c \<Rightarrow> Crashes c))"

definition getValue :: "('v, 's) config_var \<times> 's \<Rightarrow> ('v, ('v, 's) config_var \<times> 's) outcome" where
  "getValue = cv_scope RWMutex_rdlock (\<lambda>(x, s). Returns (cv_val x) (x, s))"

text \<open>i.second(m_val, v); an empty std::function throws std::bad_function_call.\<close>

definition call_back :: "('v, 's) on_change_back \<Rightarrow> 'v \<Rightarrow> 'v \<Rightarrow> 's \<Rightarrow> (unit, 's) outcome" where
  "call_back cb old_value new_value s = (case cb of
     None \<Rightarrow> Raises (Std_Exception ''bad_function_call'') s | Some f \<Rightarrow> f old_value new_value s)"

text \<open>setValue. The first scope tells whether the value changes and runs the listeners.\<close>

definition setValue :: "'v \<Rightarrow> ('v, 's) config_var \<times> 's \<Rightarrow> (unit, ('v, 's) config_var \<times> 's) outcome" where
  "setValue v xs = obind
     (cv_scope RWMutex_rdlock (\<lambda>(x, s).
        if v = cv_val x then Returns True (x, s)
        else obind (on_world (oloop (\<lambda>(key, cb). call_back cb (cv_val x) v) (cv_cbs x)) (x, s))
               (\<lambda>_. Returns False)) xs)
     (\<lambda>unchanged xs'. if unchanged then Returns () xs'
        else cv_scope RWMutex_wrlock (\<lambda>(x, s). Returns () (x\<lparr>cv_val := v\<rparr>, s)) xs')"

text \<open>
  toString and fromString catch what derives from std::exception; fromString returns false. A cast
  from text may write to the console, so it acts on the world; \<open>pure_cast\<close> is one that does not.
\<close>

definition pure_cast :: "(string \<Rightarrow> 'v res) \<Rightarrow> string \<Rightarrow> 's \<Rightarrow> ('v, 's) outcome" where
  "pure_cast f text s = at_state (f text) s"

definition toString :: "('v \<Rightarrow> string res) \<Rightarrow> 's log_api \<Rightarrow>
    ('v, 's) config_var \<times> 's \<Rightarrow> (string, ('v, 's) config_var \<times> 's) outcome" where
  "toString to_str la xs =
     (case cv_scope RWMutex_rdlock (\<lambda>(x, s). case to_str (cv_val x) of
         Inr str \<Rightarrow> Returns str (x, s) | Inl (Throw e) \<Rightarrow> Raises e (x, s) | Inl f \<Rightarrow> Crashes f) xs of
       Raises (Std_Exception what) xs' \<Rightarrow>
         obind (on_world (LOG la ERROR (''ConfigVar::toString() exception'' @ what @ '' convert : '' @
                  cv_type (fst xs') @ '' to string '')) xs') (\<lambda>_. Returns [])
     | r \<Rightarrow> r)"

definition fromString :: "(string \<Rightarrow> 's \<Rightarrow> ('v, 's) outcome) \<Rightarrow> 's log_api \<Rightarrow> string \<Rightarrow>
    ('v, 's) config_var \<times> 's \<Rightarrow> (bool, ('v, 's) config_var \<times> 's) outcome" where
  "fromString from_str la val xs =
     (case obind (on_world (from_str val) xs) setValue of
       Returns _ xs' \<Rightarrow> Returns False xs'
     | Raises (Std_Exception what) xs' \<Rightarrow>
         obind (on_world (LOG la ERROR (''ConfigVar::fromString() exception'' @ what @ '' convert : string to '' @
                  cv_type (fst xs') @ '' - '' @ val)) xs') (\<lambda>_. Returns False)
     | Raises Other_Exception xs' \<Rightarrow> Raises Other_Exception xs'
     | Crashes f \<Rightarrow> Crashes f)"

text \<open>
  addListener: \<open>s_fun_id\<close> is the function-local static counter, one per value type; it comes back
  with the result.
\<close>

definition addListener :: "('v, 's) on_change_back \<Rightarrow> 64 word \<Rightarrow>
    ('v, 's) config_var \<times> 's \<Rightarrow> (64 word \<times> 64 word, ('v, 's) config_var \<times> 's) outcome" where
  "addListener ocb s_fun_id = cv_scope RWMutex_wrlock (\<lambda>(x, s).
     let s_fun_id' = s_fun_id + 1 in
     Returns (s_fun_id', s_fun_id') (x\<lparr>cv_cbs := om_put s_fun_id' ocb (cv_cbs x)\<rparr>, s))"

definition delListener :: "64 word \<Rightarrow> ('v, 's) config_var \<times> 's \<Rightarrow> (unit, ('v, 's) config_var \<times> 's) outcome" where
  "delListener key = cv_scope RWMutex_wrlock (\<lambda>(x, s). Returns () (x\<lparr>cv_cbs := om_erase key (cv_cbs x)\<rparr>, s))"

definition getListener :: "64 word \<Rightarrow>
    ('v, 's) config_var \<times> 's \<Rightarrow> (('v, 's) on_change_back, ('v, 's) config_var \<times> 's) outcome" where
  "getListener key = cv_scope RWMutex_rdlock (\<lambda>(x, s).
     Returns (case om_find (cv_cbs x) key of None \<Rightarrow> None | Some cb \<Rightarrow> cb) (x, s))"

definition clearListener :: "('v, 's) config_var \<times> 's \<Rightarrow> (unit, ('v, 's) config_var \<times> 's) outcome" where
  "clearListener = cv_scope RWMutex_wrlock (\<lambda>(x, s). Returns () (x\<lparr>cv_cbs := []\<rparr>, s))"

section \<open>A variable between two operations\<close>

definition cv_idle :: "('v, 's) config_var \<Rightarrow> bool" where
  "cv_idle x \<longleftrightarrow> cv_mutex x = RWMutex_init"

lemma rdlock_init: "RWMutex_rdlock RWMutex_init = Some \<lparr>rw_readers = 1, rw_writer = False\<rparr>"
  by (simp add: RWMutex_rdlock_def RWMutex_init_def)

lemma wrlock_init: "RWMutex_wrlock RWMutex_init = Some \<lparr>rw_readers = 0, rw_writer = True\<rparr>"
  by (simp add: RWMutex_wrlock_def RWMutex_init_def)

lemma unlock_init [simp]:
  "RWMutex_unlock \<lparr>rw_readers = 1, rw_writer = False\<rparr> = RWMutex_init"
  "RWMutex_unlock \<lparr>rw_readers = Suc 0, rw_writer = False\<rparr> = RWMutex_init"
  "RWMutex_unlock \<lparr>rw_readers = 0, rw_writer = True\<rparr> = RWMutex_init"
  by (simp_all add: RWMutex_unlock_def RWMutex_init_def)

lemma cv_mutex_same: "cv_idle x \<Longrightarrow> x\<lparr>cv_mutex := RWMutex_init\<rparr> = x"
  by (cases x) (simp add: cv_idle_def)

lemma getValue_eq: "cv_idle x \<Longrightarrow> getValue (x, s) = Returns (cv_val x) (x, s)"
  by (cases x) (simp add: getValue_def cv_scope_def cv_idle_def rdlock_init cv_unlock_def)

text \<open>What setValue does on an idle variable, in all cases.\<close>

definition set_effect :: "'v \<Rightarrow> ('v, 's) config_var \<Rightarrow> 's \<Rightarrow> (unit, ('v, 's) config_var \<times> 's) outcome" where
  "set_effect v x s =
     (if v = cv_val x then Returns () (x, s)
      else (case oloop (\<lambda>(key, cb). call_back cb (cv_val x) v) (cv_cbs x) s of
          Returns _ s' \<Rightarrow> Returns () (x\<lparr>cv_val := v\<rparr>, s')
        | Raises e s' \<Rightarrow> Raises e (x, s')
        | Crashes f \<Rightarrow> Crashes f))"

lemma setValue_eq: "cv_idle x \<Longrightarrow> setValue v (x, s) = set_effect v x s"
  by (cases x; cases "oloop (\<lambda>(key, cb). call_back cb (cv_val x) v) (cv_cbs x) s")
    (auto simp: setValue_def cv_scope_def set_effect_def on_world_def cv_idle_def rdlock_init wrlock_init cv_unlock_def)


lemma setValue_unchanged: "cv_idle x \<Longrightarrow> setValue (cv_val x) (x, s) = Returns () (x, s)"
  by (simp add: setValue_eq set_effect_def)

text \<open>Converting and setting, on an idle variable.\<close>

lemma toString_eq: "cv_idle x \<Longrightarrow> toString to_str la (x, s) =
    (case to_str (cv_val x) of
       Inr str \<Rightarrow> Returns str (x, s)
     | Inl (Throw (Std_Exception what)) \<Rightarrow>
         obind (on_world (LOG la ERROR (''ConfigVar::toString() exception'' @ what @ '' convert : '' @
                  cv_type x @ '' to string '')) (x, s)) (\<lambda>_. Returns [])
     | Inl (Throw Other_Exception) \<Rightarrow> Raises Other_Exception (x, s)
     | Inl f \<Rightarrow> Crashes f)"
  by (cases x)
    (auto simp: toString_def cv_scope_def cv_idle_def rdlock_init cv_unlock_def split: sum.split fault.split exn.split)

lemma fromString_eq: "cv_idle x \<Longrightarrow> fromString from_str la val (x, s) =
    (case (case from_str val s of
         Returns v s' \<Rightarrow> set_effect v x s' | Raises e s' \<Rightarrow> Raises e (x, s') | Crashes f \<Rightarrow> Crashes f) of
       Returns _ xs' \<Rightarrow> Returns False xs'
     | Raises (Std_Exception what) xs' \<Rightarrow>
         obind (on_world (LOG la ERROR (''ConfigVar::fromString() exception'' @ what @ '' convert : string to '' @
                  cv_type (fst xs') @ '' - '' @ val)) xs') (\<lambda>_. Returns False)
     | Raises Other_Exception xs' \<Rightarrow> Raises Other_Exception xs'
     | Crashes f \<Rightarrow> Crashes f)"
  by (cases "from_str val s") (simp_all add: fromString_def on_world_def setValue_eq)

section \<open>Listeners\<close>

lemma addListener_eq: "cv_idle x \<Longrightarrow> addListener cb n (x, s) =
    Returns (n + 1, n + 1) (x\<lparr>cv_cbs := om_put (n + 1) cb (cv_cbs x)\<rparr>, s)"
  by (cases x) (auto simp: addListener_def cv_scope_def cv_idle_def wrlock_init cv_unlock_def Let_def)

lemma delListener_eq: "cv_idle x \<Longrightarrow> delListener k (x, s) = Returns () (x\<lparr>cv_cbs := om_erase k (cv_cbs x)\<rparr>, s)"
  by (cases x) (auto simp: delListener_def cv_scope_def cv_idle_def wrlock_init cv_unlock_def)

lemma getListener_eq: "cv_idle x \<Longrightarrow> getListener k (x, s) =
    Returns (case om_find (cv_cbs x) k of None \<Rightarrow> None | Some cb \<Rightarrow> cb) (x, s)"
  by (cases x) (auto simp: getListener_def cv_scope_def cv_idle_def rdlock_init cv_unlock_def)

lemma clearListener_eq: "cv_idle x \<Longrightarrow> clearListener (x, s) = Returns () (x\<lparr>cv_cbs := []\<rparr>, s)"
  by (cases x) (auto simp: clearListener_def cv_scope_def cv_idle_def wrlock_init cv_unlock_def)

text \<open>The ids handed out so far are below the counter, so the next one is new unless it wraps.\<close>

definition ids_below :: "64 word \<Rightarrow> ('v, 's) config_var \<Rightarrow> bool" where
  "ids_below n x \<longleftrightarrow> om_ok (cv_cbs x) \<and> (\<forall>k \<in> fst ` set (cv_cbs x). k \<le> n)"

lemma ids_below_fresh: "ids_below n x \<Longrightarrow> n < n + 1 \<Longrightarrow> om_find (cv_cbs x) (n + 1) = None"
  by (auto simp: ids_below_def om_find_None not_le)

lemma ids_below_put: "ids_below n x \<Longrightarrow> n < n + 1 \<Longrightarrow> ids_below (n + 1) (x\<lparr>cv_cbs := om_put (n + 1) cb (cv_cbs x)\<rparr>)"
  by (auto simp: ids_below_def om_ok_put om_put_keys intro: order_trans less_imp_le)

lemma ids_below_del: "ids_below n x \<Longrightarrow> ids_below n (x\<lparr>cv_cbs := om_erase k (cv_cbs x)\<rparr>)"
  by (auto simp: ids_below_def om_ok_erase) (auto simp: om_erase_def)

text \<open>Inside a listener the variable is held for reading: nothing that takes the write lock returns.\<close>

lemma held_for_reading:
  assumes "rw_readers (cv_mutex x) \<noteq> 0"
  shows "cv_scope RWMutex_wrlock body (x, s) = Crashes (Deadlock ''ConfigVar::m_mutex'')"
  using assms by (simp add: cv_scope_def RWMutex_wrlock_def)

text \<open>Every operation leaves an idle variable idle, by return and by exception.\<close>

lemma cv_idle_val [simp]: "cv_idle (x\<lparr>cv_val := v\<rparr>) = cv_idle x"
  by (simp add: cv_idle_def)

lemma cv_idle_cbs [simp]: "cv_idle (x\<lparr>cv_cbs := m\<rparr>) = cv_idle x"
  by (simp add: cv_idle_def)

section \<open>A run of assignments as one listener sees it\<close>

fun setValues :: "'v list \<Rightarrow> ('v, 's) config_var \<times> 's \<Rightarrow> (unit, ('v, 's) config_var \<times> 's) outcome" where
  "setValues [] xs = Returns () xs"
| "setValues (v # vs) xs = obind (setValue v xs) (\<lambda>_. setValues vs)"

fun changes :: "'v \<Rightarrow> 'v list \<Rightarrow> ('v \<times> 'v) list" where
  "changes v [] = []"
| "changes v (u # us) = (if u = v then changes v us else (v, u) # changes u us)"

definition recorder :: "('v, ('v \<times> 'v) list) on_change_back" where
  "recorder = Some (\<lambda>old_value new_value s. Returns () (s @ [(old_value, new_value)]))"

text \<open>
  Now the log is one part of the world, and the listener that keeps it one of several. The others may
  do anything but write to that log, and they may throw.
\<close>

definition recording :: "('v, ('v \<times> 'v) list \<times> 's) on_change_back" where
  "recording = Some (\<lambda>old_value new_value hs. Returns () (fst hs @ [(old_value, new_value)], snd hs))"

definition leaves_log :: "('v, ('v \<times> 'v) list \<times> 's) on_change_back \<Rightarrow> bool" where
  "leaves_log cb \<longleftrightarrow> (\<forall>old_value new_value h s. ends_in (\<lambda>hs. fst hs = h) (call_back cb old_value new_value (h, s)))"

definition returns_always :: "('v, 's) on_change_back \<Rightarrow> bool" where
  "returns_always cb \<longleftrightarrow> (\<forall>old_value new_value s. \<exists>s'. call_back cb old_value new_value s = Returns () s')"

lemma others_leave_log:
  assumes "\<forall>kc \<in> set cbs. leaves_log (snd kc)"
  shows "ends_in (\<lambda>hs. fst hs = h) (oloop (\<lambda>(key, cb). call_back cb u v) cbs (h, s))"
proof -
  have "ends_in (\<lambda>hs. fst hs = h) (case kc of (key, cb) \<Rightarrow> call_back cb u v hs)" if "kc \<in> set cbs" "fst hs = h" for kc hs
    using assms that by (cases kc; cases hs) (auto simp: leaves_log_def)
  then show ?thesis by (intro ends_in_oloop) auto
qed

lemma oloop_returns:
  assumes "\<forall>kc \<in> set cbs. returns_always (snd kc)"
  shows "\<exists>s'. oloop (\<lambda>(key, cb). call_back cb u v) cbs s = Returns () s'"
  using assms
proof (induction cbs arbitrary: s)
  case (Cons kc cbs)
  then have "returns_always (snd kc)" by simp
  then obtain s1 where "call_back (snd kc) u v s = Returns () s1" unfolding returns_always_def by blast
  with Cons show ?case by (simp add: case_prod_beta)
qed simp

text \<open>One change, as the listener sees it.\<close>

lemma one_change_seen:
  assumes "cv_idle x" and "cv_cbs x = before @ (k, recording) # after"
    and "\<forall>kc \<in> set (before @ after). leaves_log (snd kc)" and "v \<noteq> cv_val x"
  shows "case setValue v (x, h, s) of
      Returns _ (x', h', s') \<Rightarrow> x' = x\<lparr>cv_val := v\<rparr> \<and> h' = h @ [(cv_val x, v)]
    | Raises e (x', h', s') \<Rightarrow> x' = x \<and> h' \<in> {h, h @ [(cv_val x, v)]}
    | Crashes f \<Rightarrow> True"
proof -
  let ?loop = "oloop (\<lambda>(key, cb). call_back cb (cv_val x) v)"
  have eq: "?loop (cv_cbs x) (h, s) = obind (?loop before (h, s)) (\<lambda>_ hs. ?loop after (fst hs @ [(cv_val x, v)], snd hs))"
    by (cases "?loop before (h, s)") (simp_all add: assms(2) oloop_append call_back_def recording_def)
  have first: "ends_in (\<lambda>hs. fst hs = h) (?loop before (h, s))" using assms(3) by (intro others_leave_log) simp
  have second: "ends_in (\<lambda>hs. fst hs = h @ [(cv_val x, v)]) (?loop after (h @ [(cv_val x, v)], s1))" for s1
    using assms(3) by (intro others_leave_log) simp
  show ?thesis
  proof (cases "?loop before (h, s)")
    case (Returns u hs)
    with first obtain s1 where hs: "hs = (h, s1)" by (cases hs) simp
    with second [of s1] Returns eq assms(4) show ?thesis
      by (cases "?loop after (h @ [(cv_val x, v)], s1)") (auto simp: setValue_eq [OF assms(1)] set_effect_def)
  next
    case (Raises e hs)
    with first eq assms(4) show ?thesis by (cases hs) (simp add: setValue_eq [OF assms(1)] set_effect_def)
  next
    case (Crashes f)
    with eq assms(4) show ?thesis by (simp add: setValue_eq [OF assms(1)] set_effect_def)
  qed
qed

text \<open>What a run of assignments may end in, from a log and a value.\<close>

definition seen :: "('v, ('v \<times> 'v) list \<times> 's) config_var \<Rightarrow> ('v \<times> 'v) list \<Rightarrow> 'v list \<Rightarrow>
    (unit, ('v, ('v \<times> 'v) list \<times> 's) config_var \<times> ('v \<times> 'v) list \<times> 's) outcome \<Rightarrow> bool" where
  "seen x h vs r = (case r of
      Returns _ (x', h', s') \<Rightarrow> x' = x\<lparr>cv_val := last (cv_val x # vs)\<rparr> \<and> h' = h @ changes (cv_val x) vs
    | Raises e (x', h', s') \<Rightarrow> (\<exists>us v ws. vs = us @ v # ws \<and> x' = x\<lparr>cv_val := last (cv_val x # us)\<rparr> \<and> v \<noteq> cv_val x' \<and>
        h' \<in> {h @ changes (cv_val x) us, h @ changes (cv_val x) us @ [(cv_val x', v)]})
    | Crashes f \<Rightarrow> True)"

lemma seen_same: "seen x h vs r \<Longrightarrow> seen x h (cv_val x # vs) r"
proof (cases r)
  case (Raises e xhs)
  obtain x' h' s' where xhs: "xhs = (x', h', s')" by (cases xhs)
  assume "seen x h vs r"
  then obtain us v ws where "vs = us @ v # ws" "x' = x\<lparr>cv_val := last (cv_val x # us)\<rparr>" "v \<noteq> cv_val x'"
      "h' \<in> {h @ changes (cv_val x) us, h @ changes (cv_val x) us @ [(cv_val x', v)]}"
    by (auto simp: seen_def Raises xhs)
  then show ?thesis
    unfolding seen_def Raises xhs outcome.case prod.case
    by (intro exI [of _ "cv_val x # us"] exI [of _ v] exI [of _ ws]) simp
qed (auto simp: seen_def)

lemma seen_change:
  assumes "seen (x\<lparr>cv_val := v\<rparr>) (h @ [(cv_val x, v)]) vs r" and "v \<noteq> cv_val x"
  shows "seen x h (v # vs) r"
proof (cases r)
  case (Raises e xhs)
  obtain x' h' s' where xhs: "xhs = (x', h', s')" by (cases xhs)
  from assms(1) obtain us u ws where "vs = us @ u # ws" "x' = x\<lparr>cv_val := last (v # us)\<rparr>" "u \<noteq> cv_val x'"
      "h' \<in> {h @ (cv_val x, v) # changes v us, h @ (cv_val x, v) # changes v us @ [(cv_val x', u)]}"
    by (auto simp: seen_def Raises xhs)
  with assms(2) show ?thesis
    unfolding seen_def Raises xhs outcome.case prod.case
    by (intro exI [of _ "v # us"] exI [of _ u] exI [of _ ws]) simp
qed (use assms in \<open>auto simp: seen_def\<close>)

lemma changes_seen:
  assumes "cv_idle x" and "cv_cbs x = before @ (k, recording) # after" and "\<forall>kc \<in> set (before @ after). leaves_log (snd kc)"
  shows "seen x h vs (setValues vs (x, h, s))"
  using assms
proof (induction vs arbitrary: x h s)
  case Nil
  then show ?case by (simp add: seen_def)
next
  case (Cons v vs)
  show ?case
  proof (cases "v = cv_val x")
    case True
    with Cons.prems have "setValues (v # vs) (x, h, s) = setValues vs (x, h, s)" by (simp add: setValue_unchanged)
    with seen_same [OF Cons.IH [OF Cons.prems, of h s]] True show ?thesis by simp
  next
    case False
    note one = one_change_seen [OF Cons.prems False, of h s]
    show ?thesis
    proof (cases "setValue v (x, h, s)")
      case (Returns u xs)
      with one obtain s1 where xs: "xs = (x\<lparr>cv_val := v\<rparr>, h @ [(cv_val x, v)], s1)" by (cases xs) auto
      have "cv_idle (x\<lparr>cv_val := v\<rparr>)" "cv_cbs (x\<lparr>cv_val := v\<rparr>) = before @ (k, recording) # after" using Cons.prems by simp_all
      from seen_change [OF Cons.IH [OF this Cons.prems(3)] False, of h s1] Returns xs show ?thesis by simp
    next
      case (Raises e xs)
      with one False show ?thesis by (cases xs) (simp add: seen_def, intro exI [of _ "[]"], simp)
    next
      case (Crashes f)
      then show ?thesis by (simp add: seen_def)
    qed
  qed
qed

lemma setValues_return:
  assumes "cv_idle x" and "\<forall>kc \<in> set (cv_cbs x). returns_always (snd kc)"
  shows "\<exists>xs'. setValues vs (x, s) = Returns () xs'"
  using assms
proof (induction vs arbitrary: x s)
  case (Cons v vs)
  from oloop_returns [OF Cons.prems(2)] obtain s1 where "oloop (\<lambda>(key, cb). call_back cb (cv_val x) v) (cv_cbs x) s = Returns () s1" by blast
  with Cons.prems have "\<exists>x1 s1. setValue v (x, s) = Returns () (x1, s1) \<and> cv_idle x1 \<and> cv_cbs x1 = cv_cbs x"
    by (simp add: setValue_eq set_effect_def)
  then obtain x1 s1 where "setValue v (x, s) = Returns () (x1, s1)" "cv_idle x1" "cv_cbs x1 = cv_cbs x" by blast
  with Cons show ?case by simp
qed simp

lemma om_erase_put_absent: "om_ok m \<Longrightarrow> om_find m k = None \<Longrightarrow> om_erase k (om_put k v m) = m"
proof (induction k v m rule: om_put.induct)
  case (1 k v)
  then show ?case by (simp add: om_erase_def)
next
  case (2 k v k' v' m)
  have rest: "om_erase k m = m" if "k \<notin> fst ` set m"
    using that by (force simp: om_erase_def filter_id_conv)
  from 2 have "k \<noteq> k'" "om_find m k = None" "om_ok m" "k \<notin> fst ` set m"
    by (auto simp: om_find_None om_ok_Cons)
  with 2 rest show ?case by (auto simp: om_erase_def)
qed

section \<open>Properties\<close>

text \<open>An idle variable of type int with one recording listener.\<close>

definition demo_var :: "(int, (int \<times> int) list) config_var" where
  "demo_var = (ConfigVar ''int'' ''Port'' 8080 ''the port'')\<lparr>cv_cbs := [(1, recorder)]\<rparr>"

lemma demo_var_simps:
  "cv_idle demo_var" "cv_cbs demo_var = [(1, recorder)]" "cv_val demo_var = 8080" "cv_name demo_var = ''port''"
  "ids_below 1 demo_var" "demo_var\<lparr>cv_val := v\<rparr> = demo_var \<longleftrightarrow> v = 8080"
  by (simp_all add: demo_var_def ConfigVar_eq cv_idle_def ids_below_def om_ok_def tolower_def letter_defs)

text \<open>
  C9. setValue is change notification: assigning the value the variable has does nothing; otherwise
  every listener runs, in the order of the ids, on the old and the new value, before the value
  changes; the value changes exactly when they all return; the first one that throws stops the
  assignment with its exception. In every case that ends, the variable's lock is free again.
\<close>

theorem setValue_notifies:
  assumes "cv_idle x"
  shows "setValue v (x, s) =
    (if v = cv_val x then Returns () (x, s)
     else (case oloop (\<lambda>(key, cb). call_back cb (cv_val x) v) (cv_cbs x) s of
         Returns _ s' \<Rightarrow> Returns () (x\<lparr>cv_val := v\<rparr>, s')
       | Raises e s' \<Rightarrow> Raises e (x, s')
       | Crashes f \<Rightarrow> Crashes f))"
  unfolding setValue_eq [OF assms] set_effect_def by (rule refl)

theorem setValue_notifies_witness: "setValue 9090 (demo_var, []) = Returns () (demo_var\<lparr>cv_val := 9090\<rparr>, [(8080, 9090)])"
  unfolding setValue_notifies [OF demo_var_simps(1)] by (simp add: demo_var_simps call_back_def recorder_def)

text \<open>
  C32. Over any run of assignments a listener sees exactly the changes, among any other listeners that
  do not write to its own log: when the run returns, the calls it got are the consecutive pairs of
  different values, starting from the initial value and ending at the value the variable has at the
  end. The run returns when no listener throws. When another one throws, it stops there: the variable
  keeps the value of the assignments before, and the listener has seen their changes, and of the
  abandoned one at most the announcement.
\<close>

theorem listener_sees_changes:
  assumes "cv_idle x" and "cv_cbs x = before @ (k, recording) # after" and "\<forall>kc \<in> set (before @ after). leaves_log (snd kc)"
  shows "(case setValues vs (x, h, s) of
      Returns _ (x', h', s') \<Rightarrow> x' = x\<lparr>cv_val := last (cv_val x # vs)\<rparr> \<and> h' = h @ changes (cv_val x) vs
    | Raises e (x', h', s') \<Rightarrow> (\<exists>us v ws. vs = us @ v # ws \<and> x' = x\<lparr>cv_val := last (cv_val x # us)\<rparr> \<and> v \<noteq> cv_val x' \<and>
        h' \<in> {h @ changes (cv_val x) us, h @ changes (cv_val x) us @ [(cv_val x', v)]})
    | Crashes f \<Rightarrow> True) \<and>
    ((\<forall>kc \<in> set (before @ after). returns_always (snd kc)) \<longrightarrow> (\<exists>xs'. setValues vs (x, h, s) = Returns () xs'))"
proof
  show "(\<forall>kc \<in> set (before @ after). returns_always (snd kc)) \<longrightarrow> (\<exists>xs'. setValues vs (x, h, s) = Returns () xs')"
  proof
    assume "\<forall>kc \<in> set (before @ after). returns_always (snd kc)"
    moreover have "returns_always recording" by (simp add: returns_always_def call_back_def recording_def)
    ultimately have "\<forall>kc \<in> set (cv_cbs x). returns_always (snd kc)" by (auto simp: assms(2))
    then show "\<exists>xs'. setValues vs (x, h, s) = Returns () xs'" by (rule setValues_return [OF assms(1)])
  qed
qed (rule changes_seen [OF assms, unfolded seen_def])

text \<open>The third of three listeners refuses 2.\<close>

definition refusing :: "(int, (int \<times> int) list \<times> nat) on_change_back" where
  "refusing = Some (\<lambda>old_value new_value hs. if new_value = 2 then Raises (Std_Exception ''no'') hs else Returns () hs)"

definition counting :: "(int, (int \<times> int) list \<times> nat) on_change_back" where
  "counting = Some (\<lambda>old_value new_value hs. Returns () (fst hs, snd hs + 1))"

definition demo_watched :: "(int, (int \<times> int) list \<times> nat) config_var" where
  "demo_watched = (ConfigVar ''int'' ''port'' 0 [])\<lparr>cv_cbs := [(1, counting)] @ (2, recording) # [(3, refusing)]\<rparr>"

theorem listener_sees_changes_witness:
  "\<exists>e s' us v ws. setValues [0, 1, 2, 3] (demo_watched, [], 0) = Raises e (demo_watched\<lparr>cv_val := 1\<rparr>, [(0, 1), (1, 2)], s') \<and>
     [0, 1, 2, 3 :: int] = us @ v # ws \<and> [(0, 1), (1, 2)] \<in> {changes 0 us, changes 0 us @ [(1, v)]}"
proof -
  have x: "cv_idle demo_watched" "cv_cbs demo_watched = [(1, counting)] @ (2, recording) # [(3, refusing)]" "cv_val demo_watched = 0"
    by (simp_all add: demo_watched_def ConfigVar_eq cv_idle_def)
  have "\<forall>kc \<in> set ([(1 :: 64 word, counting)] @ [(3, refusing)]). leaves_log (snd kc)"
    by (simp add: leaves_log_def counting_def refusing_def call_back_def)
  note seen = listener_sees_changes [OF x(1,2) this, of "[0, 1, 2, 3]" "[]" 0, THEN conjunct1]
  have run: "setValues [0, 1, 2, 3] (demo_watched, [], 0) =
      Raises (Std_Exception ''no'') (demo_watched\<lparr>cv_val := 1\<rparr>, [(0, 1), (1, 2)], 2)"
    using x by (simp add: setValue_eq set_effect_def call_back_def counting_def recording_def refusing_def)
  have val: "cv_val (demo_watched\<lparr>cv_val := 1\<rparr>) = 1" by simp
  from seen have "\<exists>us v ws. [0, 1, 2, 3 :: int] = us @ v # ws \<and> [(0, 1), (1, 2)] \<in> {changes 0 us, changes 0 us @ [(1, v)]}"
    unfolding run outcome.case prod.case x(3) val append.append_Nil by blast
  with run show ?thesis by blast
qed

text \<open>
  Listener ids are fresh: as long as the 64-bit counter does not wrap, addListener returns an id
  that no listener of the variable has, getListener finds the new listener under it, no other
  listener is lost or replaced, and delListener of that id gives back the variable as it was.
\<close>

lemma listener_ids_fresh:
  assumes "cv_idle x" and "ids_below n x" and "n < n + 1"
  shows "\<exists>x'. addListener cb n (x, s) = Returns (n + 1, n + 1) (x', s) \<and> cv_idle x' \<and> ids_below (n + 1) x' \<and>
    om_find (cv_cbs x) (n + 1) = None \<and> getListener (n + 1) (x', s) = Returns cb (x', s) \<and>
    (\<forall>k. k \<noteq> n + 1 \<longrightarrow> om_find (cv_cbs x') k = om_find (cv_cbs x) k) \<and>
    delListener (n + 1) (x', s) = Returns () (x, s)"
proof -
  let ?x' = "x\<lparr>cv_cbs := om_put (n + 1) cb (cv_cbs x)\<rparr>"
  have ok: "om_ok (cv_cbs x)" using assms(2) by (simp add: ids_below_def)
  note new = ids_below_fresh [OF assms(2,3)]
  have idle: "cv_idle ?x'" using assms(1) by simp
  have "delListener (n + 1) (?x', s) = Returns () (x, s)"
    unfolding delListener_eq [OF idle] by (cases x) (use om_erase_put_absent [OF ok new] in simp)
  moreover have "getListener (n + 1) (?x', s) = Returns cb (?x', s)"
    unfolding getListener_eq [OF idle] by (simp add: om_find_put)
  moreover have "\<forall>k. k \<noteq> n + 1 \<longrightarrow> om_find (cv_cbs ?x') k = om_find (cv_cbs x) k" by (simp add: om_find_put)
  ultimately show ?thesis
    using addListener_eq [OF assms(1), of cb n s] idle ids_below_put [OF assms(2,3)] new by blast
qed

text \<open>
  Inside a listener the variable can be read but not written: while a reader holds the lock,
  getValue returns, and adding, deleting and clearing listeners, and an assignment whose own
  listeners return, all wait for a lock that the same thread holds.
\<close>

lemma no_writing_inside_listeners:
  assumes "cv_mutex x = \<lparr>rw_readers = Suc r, rw_writer = False\<rparr>"
    and "v \<noteq> cv_val x" and "oloop (\<lambda>(key, cb). call_back cb (cv_val x) v) (cv_cbs x) s = Returns u s'"
  shows "getValue (x, s) = Returns (cv_val x) (x, s) \<and>
    addListener cb n (x, s) = Crashes (Deadlock ''ConfigVar::m_mutex'') \<and>
    delListener k (x, s) = Crashes (Deadlock ''ConfigVar::m_mutex'') \<and>
    clearListener (x, s) = Crashes (Deadlock ''ConfigVar::m_mutex'') \<and>
    setValue v (x, s) = Crashes (Deadlock ''ConfigVar::m_mutex'')"
proof -
  have held: "rw_readers (cv_mutex x) \<noteq> 0" using assms(1) by simp
  have same: "x\<lparr>cv_mutex := \<lparr>rw_readers = Suc r, rw_writer = False\<rparr>\<rparr> = x" using assms(1) by (cases x) simp
  have rd: "RWMutex_rdlock (cv_mutex x) = Some \<lparr>rw_readers = Suc (Suc r), rw_writer = False\<rparr>"
    using assms(1) by (simp add: RWMutex_rdlock_def)
  have "getValue (x, s) = Returns (cv_val x) (x, s)"
    by (simp add: getValue_def cv_scope_def rd cv_unlock_def RWMutex_unlock_def same)
  moreover have "setValue v (x, s) = Crashes (Deadlock ''ConfigVar::m_mutex'')"
    using assms(2,3) held_for_reading [OF held]
    by (simp add: setValue_def cv_scope_def rd cv_unlock_def RWMutex_unlock_def on_world_def RWMutex_wrlock_def)
  ultimately show ?thesis
    by (simp add: addListener_def delListener_def clearListener_def held_for_reading [OF held])
qed

end
