(* ===== verification/Yaml_Api.thy ===== *)
theory Yaml_Api
  imports Prelude "HOL-Library.Multiset"
begin

text \<open>
  The part of yaml-cpp the sources call. The library is third-party, so it is a parameter: a record
  of its functions over a type of nodes \<open>'n\<close>. A function that throws has an option as its result.
  The predicates name the documented behaviour the theorems rely on, always at the nodes at hand.
\<close>

record 'n yaml =
  y_load :: "string \<Rightarrow> 'n option"                 \<comment> \<open>YAML::Load\<close>
  y_emit :: "'n \<Rightarrow> string"                        \<comment> \<open>operator<<\<close>
  y_size :: "'n \<Rightarrow> nat"                           \<comment> \<open>Node::size\<close>
  y_at :: "'n \<Rightarrow> nat \<Rightarrow> 'n option"                \<comment> \<open>Node::operator[] with an index\<close>
  y_get :: "'n \<Rightarrow> string \<Rightarrow> 'n option"            \<comment> \<open>Node::operator[] with a key\<close>
  y_entries :: "'n \<Rightarrow> ('n \<times> 'n) list"             \<comment> \<open>begin() to end() of a map\<close>
  y_defined :: "'n \<Rightarrow> bool"                       \<comment> \<open>Node::IsDefined\<close>
  y_is_map :: "'n \<Rightarrow> bool"                        \<comment> \<open>Node::IsMap\<close>
  y_is_scalar :: "'n \<Rightarrow> bool"                     \<comment> \<open>Node::IsScalar\<close>
  y_scalar :: "'n \<Rightarrow> string"                      \<comment> \<open>Node::Scalar\<close>
  y_as_string :: "'n \<Rightarrow> string option"            \<comment> \<open>Node::as<std::string>\<close>
  y_node :: "'n"                                   \<comment> \<open>YAML::Node node;\<close>
  y_of_string :: "string \<Rightarrow> 'n"                   \<comment> \<open>a node assigned a string\<close>
  y_push :: "'n \<Rightarrow> 'n \<Rightarrow> 'n"                      \<comment> \<open>Node::push_back\<close>
  y_put :: "'n \<Rightarrow> string \<Rightarrow> 'n \<Rightarrow> 'n"             \<comment> \<open>node[key] = value\<close>

text \<open>YAML::Exception derives from std::runtime_error.\<close>

definition yaml_throw :: "'a res" where
  "yaml_throw = Inl (Throw (Std_Exception ''YAML::Exception''))"

definition or_throw :: "'a option \<Rightarrow> 'a res" where
  "or_throw x = (case x of None \<Rightarrow> yaml_throw | Some a \<Rightarrow> Inr a)"

lemma or_throw_simps [simp]: "or_throw (Some a) = Inr a" "or_throw None = yaml_throw"
  by (simp_all add: or_throw_def)

lemma or_throw_Inr: "or_throw x = Inr a \<longleftrightarrow> x = Some a"
  by (cases x) (simp_all add: yaml_throw_def)

text \<open>A node built by push_back, and one built by assignments to keys.\<close>

definition seq_node :: "'n yaml \<Rightarrow> 'n list \<Rightarrow> 'n" where
  "seq_node Y ns = fold (\<lambda>x n. y_push Y n x) ns (y_node Y)"

definition map_node :: "'n yaml \<Rightarrow> (string \<times> 'n) list \<Rightarrow> 'n" where
  "map_node Y kvs = fold (\<lambda>(k, x) n. y_put Y n k x) kvs (y_node Y)"

text \<open>Indexing what push_back built gives back the elements in order.\<close>

definition seq_reads :: "'n yaml \<Rightarrow> 'n \<Rightarrow> 'n list \<Rightarrow> bool" where
  "seq_reads Y n ns \<longleftrightarrow> y_size Y n = length ns \<and> (\<forall>i < length ns. y_at Y n i = Some (ns ! i))"

text \<open>Iterating over what the assignments built gives back the entries, in some order.\<close>

definition map_reads :: "'n yaml \<Rightarrow> 'n \<Rightarrow> (string \<times> 'n) list \<Rightarrow> bool" where
  "map_reads Y n kvs \<longleftrightarrow> mset (map (\<lambda>(k, x). (y_scalar Y k, x)) (y_entries Y n)) = mset kvs"

text \<open>A text and the node it stands for: the emitted text of the node loads as a node that reads the same.\<close>

definition seq_survives :: "'n yaml \<Rightarrow> 'n list \<Rightarrow> bool" where
  "seq_survives Y ns \<longleftrightarrow> (\<exists>n. y_load Y (y_emit Y (seq_node Y ns)) = Some n \<and> seq_reads Y n ns)"

definition map_survives :: "'n yaml \<Rightarrow> (string \<times> 'n) list \<Rightarrow> bool" where
  "map_survives Y kvs \<longleftrightarrow> (\<exists>n. y_load Y (y_emit Y (map_node Y kvs)) = Some n \<and> map_reads Y n kvs)"

section \<open>A concrete instance\<close>

text \<open>
  An implementation of the parameter over plain trees, with the text functions left open: it shows
  that the hypotheses can hold, and witnesses evaluate on it.
\<close>

datatype ynode = YUndefined | YNull | YScalar string | YSeq "ynode list" | YMap "(ynode \<times> ynode) list"

fun tree_find :: "(ynode \<times> ynode) list \<Rightarrow> string \<Rightarrow> ynode" where
  "tree_find [] k = YUndefined"
| "tree_find ((n, x) # kvs) k = (if n = YScalar k then x else tree_find kvs k)"

fun tree_put :: "(ynode \<times> ynode) list \<Rightarrow> string \<Rightarrow> ynode \<Rightarrow> (ynode \<times> ynode) list" where
  "tree_put [] k x = [(YScalar k, x)]"
| "tree_put ((n, y) # kvs) k x = (if n = YScalar k then (n, x) # kvs else (n, y) # tree_put kvs k x)"

definition tree_yaml :: "(string \<Rightarrow> ynode option) \<Rightarrow> (ynode \<Rightarrow> string) \<Rightarrow> ynode yaml" where
  "tree_yaml load emit = \<lparr>
     y_load = load, y_emit = emit,
     y_size = (\<lambda>n. case n of YSeq ns \<Rightarrow> length ns | YMap kvs \<Rightarrow> length kvs | _ \<Rightarrow> 0),
     y_at = (\<lambda>n i. case n of YSeq ns \<Rightarrow> Some (if i < length ns then ns ! i else YUndefined)
                         | YScalar s \<Rightarrow> None | _ \<Rightarrow> Some YUndefined),
     y_get = (\<lambda>n k. case n of YMap kvs \<Rightarrow> Some (tree_find kvs k) | YScalar s \<Rightarrow> None | _ \<Rightarrow> Some YUndefined),
     y_entries = (\<lambda>n. case n of YMap kvs \<Rightarrow> kvs | _ \<Rightarrow> []),
     y_defined = (\<lambda>n. n \<noteq> YUndefined),
     y_is_map = (\<lambda>n. case n of YMap _ \<Rightarrow> True | _ \<Rightarrow> False),
     y_is_scalar = (\<lambda>n. case n of YScalar _ \<Rightarrow> True | _ \<Rightarrow> False),
     y_scalar = (\<lambda>n. case n of YScalar s \<Rightarrow> s | _ \<Rightarrow> []),
     y_as_string = (\<lambda>n. case n of YScalar s \<Rightarrow> Some s | YNull \<Rightarrow> Some ''null'' | _ \<Rightarrow> None),
     y_node = YNull, y_of_string = YScalar,
     y_push = (\<lambda>n x. case n of YSeq ns \<Rightarrow> YSeq (ns @ [x]) | _ \<Rightarrow> YSeq [x]),
     y_put = (\<lambda>n k x. case n of YMap kvs \<Rightarrow> YMap (tree_put kvs k x) | _ \<Rightarrow> YMap [(YScalar k, x)])\<rparr>"

lemma tree_push_Seq: "fold (\<lambda>x n. y_push (tree_yaml load emit) n x) ns (YSeq ms) = YSeq (ms @ ns)"
  by (induction ns arbitrary: ms) (simp_all add: tree_yaml_def)

lemma tree_seq_node: "ns \<noteq> [] \<Longrightarrow> seq_node (tree_yaml load emit) ns = YSeq ns"
  using tree_push_Seq [of load emit "tl ns" "[hd ns]"]
  by (cases ns) (simp_all add: seq_node_def, simp add: tree_yaml_def)

lemma tree_seq_reads: "seq_reads (tree_yaml load emit) (seq_node (tree_yaml load emit) ns) ns"
proof (cases "ns = []")
  case True
  then show ?thesis by (simp add: seq_reads_def seq_node_def tree_yaml_def)
next
  case False
  then show ?thesis unfolding seq_reads_def tree_seq_node [OF False] by (simp add: tree_yaml_def)
qed

end
