(* ===== verification/Config.thy ===== *)
theory Config
  imports Config_Var Yaml_Api
begin

text \<open>
  The registry of configuration variables (config.h, config.cpp): Lookup, LookupBase, LoadFromYaml
  with ListAllMember, and Visit. Variables live in a heap; the registry maps a name to an index.
  Values of all C++ types are in the one type \<open>'v\<close>; a variable carries its type's name, and
  \<open>conv\<close> gives the two casts of a type.
\<close>

record ('v, 's) config =
  cf_vars :: "('v, 's) config_var list"
  cf_datas :: "(string, nat) omap"
  cf_mutex :: rwlock

type_synonym ('v, 's) cstate = "('v, 's) config \<times> 's"

type_synonym ('v, 's) converters = "string \<Rightarrow> (string \<Rightarrow> 's \<Rightarrow> ('v, 's) outcome) \<times> ('v \<Rightarrow> string res)"

definition new_config :: "('v, 's) config" where
  "new_config = \<lparr>cf_vars = [], cf_datas = [], cf_mutex = RWMutex_init\<rparr>"

definition cf_unlock :: "('v, 's) cstate \<Rightarrow> ('v, 's) cstate" where
  "cf_unlock cs = (case cs of (c, s) \<Rightarrow> (c\<lparr>cf_mutex := RWMutex_unlock (cf_mutex c)\<rparr>, s))"

definition cf_scope :: "(rwlock \<Rightarrow> rwlock option) \<Rightarrow> (('v, 's) cstate \<Rightarrow> ('a, ('v, 's) cstate) outcome) \<Rightarrow>
    ('v, 's) cstate \<Rightarrow> ('a, ('v, 's) cstate) outcome" where
  "cf_scope acquire body cs = (case cs of (c, s) \<Rightarrow>
     (case acquire (cf_mutex c) of
        None \<Rightarrow> Crashes (Deadlock ''Config::GetMutex()'')
      | Some m \<Rightarrow> (case body (c\<lparr>cf_mutex := m\<rparr>, s) of
          Returns a cs' \<Rightarrow> Returns a (cf_unlock cs')
        | Raises e cs' \<Rightarrow> Raises e (cf_unlock cs')
        | Crashes f \<Rightarrow> Crashes f)))"

text \<open>A method call on the variable behind a pointer.\<close>

definition on_var :: "nat \<Rightarrow> (('v, 's) config_var \<times> 's \<Rightarrow> ('a, ('v, 's) config_var \<times> 's) outcome) \<Rightarrow>
    ('v, 's) cstate \<Rightarrow> ('a, ('v, 's) cstate) outcome" where
  "on_var p f cs = (case cs of (c, s) \<Rightarrow>
     if p < length (cf_vars c) then
       (case f (cf_vars c ! p, s) of
          Returns a (x, s') \<Rightarrow> Returns a (c\<lparr>cf_vars := (cf_vars c)[p := x]\<rparr>, s')
        | Raises e (x, s') \<Rightarrow> Raises e (c\<lparr>cf_vars := (cf_vars c)[p := x]\<rparr>, s')
        | Crashes f \<Rightarrow> Crashes f)
     else Crashes (Null_Deref ''ConfigVarBase''))"

definition name_chars :: string where
  "name_chars = ''abcdefghikjlmnopqrstuvwxyz._0123456789''"

text \<open>Lookup with a default value: the result None is nullptr.\<close>

definition Lookup_default :: "('v, 's) converters \<Rightarrow> 's log_api \<Rightarrow> string \<Rightarrow> string \<Rightarrow> 'v \<Rightarrow> string \<Rightarrow>
    ('v, 's) cstate \<Rightarrow> (nat option, ('v, 's) cstate) outcome" where
  "Lookup_default conv la type_name name default_value description =
     cf_scope RWMutex_wrlock (\<lambda>(c, s).
       case om_find (cf_datas c) name of
         Some p \<Rightarrow>
           if cv_type (cf_vars c ! p) = type_name then
             obind (on_world (LOG la INFO (''Lookup name='' @ name @ '' exists'')) (c, s)) (\<lambda>_. Returns (Some p))
           else if la_enabled la ERROR s then
             obind (on_var p (toString (snd (conv (cv_type (cf_vars c ! p)))) la) (c, s)) (\<lambda>str cs.
               obind (on_world (la_write la ERROR (''Lookup name='' @ name @ '' exists but types not '' @ type_name @
                       '' real type='' @ cv_type (cf_vars c ! p) @ '' '' @ str)) cs) (\<lambda>_. Returns None))
           else Returns None (c, s)
       | None \<Rightarrow>
           if find_first_not_of name name_chars \<noteq> None then
             obind (on_world (LOG la ERROR (''Lookup name invalid '' @ name)) (c, s)) (\<lambda>_. Raises (Std_Exception name))
           else Returns (Some (length (cf_vars c)))
             (c\<lparr>cf_vars := cf_vars c @ [ConfigVar type_name name default_value description],
                cf_datas := om_put name (length (cf_vars c)) (cf_datas c)\<rparr>, s))"

definition Lookup :: "string \<Rightarrow> string \<Rightarrow> ('v, 's) cstate \<Rightarrow> (nat option, ('v, 's) cstate) outcome" where
  "Lookup type_name name = cf_scope RWMutex_rdlock (\<lambda>(c, s). Returns
     (case om_find (cf_datas c) name of
        None \<Rightarrow> None
      | Some p \<Rightarrow> if cv_type (cf_vars c ! p) = type_name then Some p else None) (c, s))"

definition LookupBase :: "string \<Rightarrow> ('v, 's) cstate \<Rightarrow> (nat option, ('v, 's) cstate) outcome" where
  "LookupBase name = cf_scope RWMutex_rdlock (\<lambda>(c, s). Returns (om_find (cf_datas c) name) (c, s))"

text \<open>The character list of ListAllMember has no 9.\<close>

definition member_chars :: string where
  "member_chars = ''abcdefghikjlmnopqrstuvwxyz._012345678''"

text \<open>ListAllMember; the first argument is the number of stack frames left.\<close>

primrec ListAllMember :: "nat \<Rightarrow> 'n yaml \<Rightarrow> 's log_api \<Rightarrow> string \<Rightarrow> 'n \<Rightarrow>
    (string \<times> 'n) list \<times> 's \<Rightarrow> (unit, (string \<times> 'n) list \<times> 's) outcome" where
  "ListAllMember 0 Y la prefix node st = Crashes Stack_Overflow"
| "ListAllMember (Suc frames) Y la prefix node st =
     (if find_first_not_of prefix member_chars \<noteq> None then
        on_world (LOG la ERROR (''Config invalid name: '' @ prefix @ '' : '' @ y_emit Y node)) st
      else (case st of (output, s) \<Rightarrow>
        let st1 = (output @ [(prefix, node)], s) in
        if y_is_map Y node then
          oloop (\<lambda>(k, x). ListAllMember frames Y la
            (if prefix = [] then y_scalar Y k else prefix @ ''.'' @ y_scalar Y k) x) (y_entries Y node) st1
        else Returns () st1))"

text \<open>The loop body of LoadFromYaml.\<close>

definition load_member :: "('v, 's) converters \<Rightarrow> 'n yaml \<Rightarrow> 's log_api \<Rightarrow> string \<times> 'n \<Rightarrow>
    ('v, 's) cstate \<Rightarrow> (unit, ('v, 's) cstate) outcome" where
  "load_member conv Y la i cs = (case i of (key0, node) \<Rightarrow>
     if key0 = [] then Returns () cs
     else (let key = map tolower key0 in
       obind (LookupBase key cs) (\<lambda>var cs1. case var of
         None \<Rightarrow> Returns () cs1
       | Some p \<Rightarrow>
           let val = (if y_is_scalar Y node then y_scalar Y node else y_emit Y node) in
           obind (on_var p (fromString (fst (conv (cv_type (cf_vars (fst cs1) ! p)))) la val) cs1)
             (\<lambda>_. Returns ()))))"

definition LoadFromYaml :: "nat \<Rightarrow> ('v, 's) converters \<Rightarrow> 'n yaml \<Rightarrow> 's log_api \<Rightarrow> 'n \<Rightarrow>
    ('v, 's) cstate \<Rightarrow> (unit, ('v, 's) cstate) outcome" where
  "LoadFromYaml frames conv Y la root cs = (case cs of (c, s) \<Rightarrow>
     (case ListAllMember frames Y la [] root ([], s) of
        Returns _ (all_nodes, s1) \<Rightarrow> oloop (load_member conv Y la) all_nodes (c, s1)
      | Raises e (_, s1) \<Rightarrow> Raises e (c, s1)
      | Crashes f \<Rightarrow> Crashes f))"

text \<open>Visit: the callback runs while the registry is held for reading.\<close>

definition Visit :: "(nat \<Rightarrow> ('v, 's) cstate \<Rightarrow> (unit, ('v, 's) cstate) outcome) \<Rightarrow>
    ('v, 's) cstate \<Rightarrow> (unit, ('v, 's) cstate) outcome" where
  "Visit cb = cf_scope RWMutex_rdlock (\<lambda>(c, s). oloop (\<lambda>(name, p). cb p) (cf_datas c) (c, s))"

section \<open>The names a document lists\<close>

text \<open>The list ListAllMember builds, as a function of the document alone.\<close>

primrec members :: "nat \<Rightarrow> 'n yaml \<Rightarrow> string \<Rightarrow> 'n \<Rightarrow> (string \<times> 'n) list" where
  "members 0 Y prefix node = []"
| "members (Suc d) Y prefix node =
     (if find_first_not_of prefix member_chars \<noteq> None then []
      else (prefix, node) # (if y_is_map Y node then
        concat (map (\<lambda>(k, x). members d Y (if prefix = [] then y_scalar Y k else prefix @ ''.'' @ y_scalar Y k) x)
          (y_entries Y node)) else []))"

text \<open>The nesting of maps is at most \<open>d\<close> deep.\<close>

primrec nested :: "nat \<Rightarrow> 'n yaml \<Rightarrow> 'n \<Rightarrow> bool" where
  "nested 0 Y node = False"
| "nested (Suc d) Y node = (y_is_map Y node \<longrightarrow> list_all (\<lambda>(k, x). nested d Y x) (y_entries Y node))"

lemma members_valid: "(k, n) \<in> set (members d Y prefix node) \<Longrightarrow> set k \<subseteq> set member_chars"
proof (induction d arbitrary: prefix node)
  case (Suc d)
  then show ?case by (auto simp: find_first_not_of_None split: if_splits)
qed simp

lemma tolower_member: "set k \<subseteq> set member_chars \<Longrightarrow> map tolower k = k"
proof -
  assume k: "set k \<subseteq> set member_chars"
  have "\<forall>c \<in> set member_chars. c \<notin> set upper_letters" by (simp add: member_chars_def letter_defs)
  with k show ?thesis by (intro map_idI tolower_id) auto
qed

lemma tolower_name: "set k \<subseteq> set name_chars \<Longrightarrow> map tolower k = k"
proof -
  assume k: "set k \<subseteq> set name_chars"
  have "\<forall>c \<in> set name_chars. c \<notin> set upper_letters" by (simp add: name_chars_def letter_defs)
  with k show ?thesis by (intro map_idI tolower_id) auto
qed


section \<open>The invariant of the registry\<close>

text \<open>
  Between two calls no lock is held, and a name leads to the variable of that name, made of the
  characters Lookup accepts.
\<close>

definition config_ok :: "('v, 's) config \<Rightarrow> bool" where
  "config_ok c \<longleftrightarrow> cf_mutex c = RWMutex_init \<and> om_ok (cf_datas c) \<and> (\<forall>x \<in> set (cf_vars c). cv_idle x) \<and>
     (\<forall>n p. om_find (cf_datas c) n = Some p \<longrightarrow>
        p < length (cf_vars c) \<and> cv_name (cf_vars c ! p) = n \<and> set n \<subseteq> set name_chars)"

lemma config_ok_idle: "config_ok c \<Longrightarrow> p < length (cf_vars c) \<Longrightarrow> cv_idle (cf_vars c ! p)"
  by (simp add: config_ok_def)

lemma config_ok_find: "config_ok c \<Longrightarrow> om_find (cf_datas c) n = Some p \<Longrightarrow>
    p < length (cf_vars c) \<and> cv_name (cf_vars c ! p) = n \<and> set n \<subseteq> set name_chars"
  by (simp add: config_ok_def)

lemma config_ok_new: "config_ok new_config"
  by (simp add: config_ok_def new_config_def om_find_def)

text \<open>What an operation on variables may change: values only.\<close>

definition cv_shape :: "('v, 's) config_var \<Rightarrow> string \<times> string \<times> string \<times> rwlock \<times> (64 word, ('v, 's) on_change_back) omap" where
  "cv_shape x = (cv_name x, cv_description x, cv_type x, cv_mutex x, cv_cbs x)"

definition loads :: "nat set \<Rightarrow> ('v, 's) config \<Rightarrow> ('v, 's) config \<Rightarrow> bool" where
  "loads ps c c' \<longleftrightarrow> cf_datas c' = cf_datas c \<and> cf_mutex c' = cf_mutex c \<and>
     map cv_shape (cf_vars c') = map cv_shape (cf_vars c) \<and>
     (\<forall>p. p < length (cf_vars c) \<longrightarrow> p \<notin> ps \<longrightarrow> cf_vars c' ! p = cf_vars c ! p)"

lemma loads_refl [simp]: "loads ps c c"
  by (simp add: loads_def)

lemma loads_length: "loads ps c c' \<Longrightarrow> length (cf_vars c') = length (cf_vars c)"
  unfolding loads_def by (metis length_map)

lemma loads_trans: "loads ps c c' \<Longrightarrow> loads ps c' c'' \<Longrightarrow> loads ps c c''"
  by (frule loads_length) (simp add: loads_def)

lemma loads_mono: "loads ps c c' \<Longrightarrow> ps \<subseteq> qs \<Longrightarrow> loads qs c c'"
  by (auto simp: loads_def)

lemma loads_shape: "loads ps c c' \<Longrightarrow> p < length (cf_vars c) \<Longrightarrow> cv_shape (cf_vars c' ! p) = cv_shape (cf_vars c ! p)"
  by (frule loads_length) (unfold loads_def, metis nth_map)

lemma loads_config_ok: "config_ok c \<Longrightarrow> loads ps c c' \<Longrightarrow> config_ok c'"
proof -
  assume ok: "config_ok c" and ld: "loads ps c c'"
  have sh: "cv_shape (cf_vars c' ! p) = cv_shape (cf_vars c ! p)" if "p < length (cf_vars c)" for p
    using loads_shape [OF ld that] .
  then have "cv_idle (cf_vars c' ! p)" if "p < length (cf_vars c)" for p
    using config_ok_idle [OF ok that] that by (auto simp: cv_shape_def cv_idle_def)
  then have "\<forall>x \<in> set (cf_vars c'). cv_idle x"
    using loads_length [OF ld] by (metis in_set_conv_nth)
  moreover have "cv_name (cf_vars c' ! p) = cv_name (cf_vars c ! p)" if "p < length (cf_vars c)" for p
    using sh [OF that] by (simp add: cv_shape_def)
  ultimately show ?thesis
    using ok ld loads_length [OF ld] by (auto simp: config_ok_def loads_def)
qed

lemma loads_put:
  "p < length (cf_vars c) \<Longrightarrow> cv_shape x = cv_shape (cf_vars c ! p) \<Longrightarrow> loads {p} c (c\<lparr>cf_vars := (cf_vars c)[p := x]\<rparr>)"
  by (auto simp: loads_def map_update list_update_same_conv)

section \<open>Scopes on a well-formed registry\<close>

lemma config_same: "cf_mutex c = RWMutex_init \<Longrightarrow> c\<lparr>cf_mutex := RWMutex_init\<rparr> = c"
  by (cases c) simp

lemma LookupBase_eq: "config_ok c \<Longrightarrow> LookupBase n (c, s) = Returns (om_find (cf_datas c) n) (c, s)"
  by (cases c) (auto simp: config_ok_def LookupBase_def cf_scope_def rdlock_init cf_unlock_def)

lemma Lookup_eq: "config_ok c \<Longrightarrow> Lookup T n (c, s) = Returns
    (case om_find (cf_datas c) n of None \<Rightarrow> None | Some p \<Rightarrow> if cv_type (cf_vars c ! p) = T then Some p else None) (c, s)"
  by (cases c) (auto simp: config_ok_def Lookup_def cf_scope_def rdlock_init cf_unlock_def split: option.split)

lemma Lookup_default_new:
  assumes ok: "config_ok c" and none: "om_find (cf_datas c) n = None" and chars: "set n \<subseteq> set name_chars"
  shows "Lookup_default conv la T n v d (c, s) = Returns (Some (length (cf_vars c)))
    (c\<lparr>cf_vars := cf_vars c @ [ConfigVar T n v d], cf_datas := om_put n (length (cf_vars c)) (cf_datas c)\<rparr>, s)"
  using assms find_first_not_of_None [of n name_chars]
  by (cases c) (auto simp: config_ok_def Lookup_default_def cf_scope_def wrlock_init cf_unlock_def)

lemma config_ok_add:
  assumes ok: "config_ok c" and none: "om_find (cf_datas c) n = None" and chars: "set n \<subseteq> set name_chars"
  shows "config_ok (c\<lparr>cf_vars := cf_vars c @ [ConfigVar T n v d], cf_datas := om_put n (length (cf_vars c)) (cf_datas c)\<rparr>)"
proof -
  have "cv_name (ConfigVar T n v d) = n" by (simp add: ConfigVar_eq tolower_name [OF chars])
  moreover have "cv_idle (ConfigVar T n v d)" by (simp add: cv_idle_def ConfigVar_eq)
  ultimately show ?thesis
    using ok chars by (auto simp: config_ok_def om_ok_put om_find_put nth_append less_Suc_eq split: if_splits)
qed

lemma on_world_cases:
  "on_world f (x, s) = (case f s of Returns a s' \<Rightarrow> Returns a (x, s') | Raises e s' \<Rightarrow> Raises e (x, s') | Crashes c \<Rightarrow> Crashes c)"
  by (simp add: on_world_def)

text \<open>Lookup of a known name, and of an invalid one, in terms of what logging does.\<close>

definition relabel :: "('x \<Rightarrow> 'y) \<Rightarrow> ('a, 'x) outcome \<Rightarrow> ('a, 'y) outcome" where
  "relabel f r = (case r of Returns a s \<Rightarrow> Returns a (f s) | Raises e s \<Rightarrow> Raises e (f s) | Crashes c \<Rightarrow> Crashes c)"

lemma ends_in_relabel: "ends_in P (relabel f r) \<longleftrightarrow> ends_in (\<lambda>s. P (f s)) r"
  by (cases r) (simp_all add: relabel_def)

lemma ends_in_on_world: "ends_in P (on_world f (x, s)) \<longleftrightarrow> ends_in (\<lambda>s'. P (x, s')) (f s)"
  by (cases "f s") (simp_all add: on_world_def)

lemma ends_in_mono: "ends_in P r \<Longrightarrow> (\<And>s. P s \<Longrightarrow> Q s) \<Longrightarrow> ends_in Q r"
  by (cases r) simp_all

lemma ends_in_trivial: "ends_in (\<lambda>_. True) r"
  by (cases r) simp_all

text \<open>toString and fromString on an idle variable change at most its value.\<close>

lemma toString_ends: "cv_idle x \<Longrightarrow> ends_in (\<lambda>(x', s'). x' = x) (toString to_str la (x, s))"
  by (auto simp: toString_eq ends_in_on_world ends_in_trivial intro!: ends_in_obind [where P = "\<lambda>(x', s'). x' = x"]
      split: sum.split fault.split exn.split)

lemma set_effect_ends: "ends_in (\<lambda>(x', s'). cv_shape x' = cv_shape x) (set_effect v x s)"
  by (auto simp: set_effect_def cv_shape_def split: outcome.split)

lemma fromString_ends:
  assumes idle: "cv_idle x"
  shows "ends_in (\<lambda>(x', s'). cv_shape x' = cv_shape x) (fromString from_str la val (x, s))"
proof -
  let ?P = "\<lambda>(x', s'). cv_shape x' = cv_shape x"
  let ?r = "case from_str val s of Returns v s' \<Rightarrow> set_effect v x s' | Raises e s' \<Rightarrow> Raises e (x, s') | Crashes f \<Rightarrow> Crashes f"
  have "ends_in ?P ?r" using set_effect_ends by (auto split: outcome.split)
  moreover have "ends_in ?P (obind (on_world f xs) (\<lambda>_. Returns b))" if "?P xs" for f xs and b :: bool
    using that by (cases xs) (auto simp: ends_in_on_world ends_in_trivial intro!: ends_in_obind [where P = ?P])
  ultimately show ?thesis
    unfolding fromString_eq [OF idle] by (cases ?r) (auto split: exn.split)
qed

lemma ends_in_on_var:
  assumes "p < length (cf_vars c)" and "ends_in (\<lambda>(x', s'). cv_shape x' = cv_shape (cf_vars c ! p)) (f (cf_vars c ! p, s))"
  shows "ends_in (\<lambda>(c', s'). loads {p} c c') (on_var p f (c, s))"
  using assms by (cases "f (cf_vars c ! p, s)") (auto simp: on_var_def loads_put)


section \<open>Every operation keeps the invariant\<close>

lemma ends_in_cf_scope_read:
  assumes ok: "config_ok c"
    and body: "ends_in (\<lambda>(c', s'). loads ps (c\<lparr>cf_mutex := \<lparr>rw_readers = 1, rw_writer = False\<rparr>\<rparr>) c')
      (f (c\<lparr>cf_mutex := \<lparr>rw_readers = 1, rw_writer = False\<rparr>\<rparr>, s))"
  shows "ends_in (\<lambda>(c', s'). loads ps c c') (cf_scope RWMutex_rdlock f (c, s))"
proof -
  let ?c1 = "c\<lparr>cf_mutex := \<lparr>rw_readers = 1, rw_writer = False\<rparr>\<rparr>"
  have m: "cf_mutex c = RWMutex_init" using ok by (simp add: config_ok_def)
  have un: "loads ps c (c'\<lparr>cf_mutex := RWMutex_unlock (cf_mutex c')\<rparr>)" if "loads ps ?c1 c'" for c'
  proof -
    from that have "cf_mutex c' = \<lparr>rw_readers = 1, rw_writer = False\<rparr>" by (simp add: loads_def)
    with that m show ?thesis by (simp add: loads_def)
  qed
  have "cf_scope RWMutex_rdlock f (c, s) = (case f (?c1, s) of
      Returns a cs' \<Rightarrow> Returns a (cf_unlock cs') | Raises e cs' \<Rightarrow> Raises e (cf_unlock cs') | Crashes f \<Rightarrow> Crashes f)"
    by (simp add: cf_scope_def m rdlock_init)
  with body un show ?thesis by (cases "f (?c1, s)") (auto simp: cf_unlock_def)
qed

lemma ends_in_oloop_loads:
  assumes "\<And>x c s. x \<in> set xs \<Longrightarrow> loads ps c0 c \<Longrightarrow> ends_in (\<lambda>(c', s'). loads ps c c') (f x (c, s))"
  shows "loads ps c0 c \<Longrightarrow> ends_in (\<lambda>(c', s'). loads ps c c') (oloop f xs (c, s))"
  using assms
proof (induction xs arbitrary: c s)
  case Nil
  then show ?case by simp
next
  case (Cons x xs)
  have 1: "ends_in (\<lambda>(c', s'). loads ps c c') (f x (c, s))" using Cons.prems by simp
  show ?case
  proof (cases "f x (c, s)")
    case (Returns u cs')
    obtain c1 s1 where cs': "cs' = (c1, s1)" by (cases cs')
    with 1 Returns have c1: "loads ps c c1" by simp
    with Cons.prems(1) have "loads ps c0 c1" by (rule loads_trans)
    with Cons have "ends_in (\<lambda>(c', s'). loads ps c1 c') (oloop f xs (c1, s1))" by simp
    then have "ends_in (\<lambda>(c', s'). loads ps c c') (oloop f xs (c1, s1))"
      by (rule ends_in_mono) (use loads_trans [OF c1] in auto)
    with Returns cs' show ?thesis by simp
  qed (use 1 in auto)
qed

definition keys_ptrs :: "('v, 's) config \<Rightarrow> string set \<Rightarrow> nat set" where
  "keys_ptrs c ks = {p. \<exists>k \<in> ks. om_find (cf_datas c) k = Some p}"

lemma load_member_ends:
  assumes ok: "config_ok c"
  shows "ends_in (\<lambda>(c', s'). loads (keys_ptrs c {map tolower (fst i)}) c c') (load_member conv Y la i (c, s))"
proof (cases "fst i = [] \<or> om_find (cf_datas c) (map tolower (fst i)) = None")
  case True
  then show ?thesis
    by (cases i) (auto simp: load_member_def LookupBase_eq [OF ok] Let_def)
next
  case False
  then obtain p where p: "fst i \<noteq> []" "om_find (cf_datas c) (map tolower (fst i)) = Some p" by auto
  from config_ok_find [OF ok p(2)] have len: "p < length (cf_vars c)" by simp
  let ?k = "map tolower (fst i)"
  have sub: "{p} \<subseteq> keys_ptrs c {?k}" using p by (simp add: keys_ptrs_def)
  have "ends_in (\<lambda>(c', s'). loads {p} c c') (on_var p (fromString fs la val) (c, s))" for fs val
    by (intro ends_in_on_var len fromString_ends config_ok_idle [OF ok len])
  then have "ends_in (\<lambda>(c', s'). loads (keys_ptrs c {?k}) c c')
      (obind (on_var p (fromString fs la val) (c, s)) (\<lambda>_. Returns ()))" for fs val
    by (rule ends_in_obind) (use loads_mono [OF _ sub] in auto)
  with p show ?thesis
    by (cases i) (simp add: load_member_def LookupBase_eq [OF ok] Let_def)
qed

lemma ListAllMember_Returns:
  assumes "ListAllMember d Y la prefix node (out, s) = Returns u (out', s')"
  shows "out' = out @ members d Y prefix node"
  using assms
proof (induction d arbitrary: prefix node out s out' s' u)
  case (Suc d)
  show ?case
  proof (cases "find_first_not_of prefix member_chars")
    case (Some i)
    with Suc.prems show ?thesis by (auto simp: on_world_def split: outcome.splits)
  next
    case None
    let ?f = "\<lambda>(k, x). ListAllMember d Y la (if prefix = [] then y_scalar Y k else prefix @ ''.'' @ y_scalar Y k) x"
    let ?g = "\<lambda>(k, x). members d Y (if prefix = [] then y_scalar Y k else prefix @ ''.'' @ y_scalar Y k) x"
    have loop: "out' = out @ concat (map ?g es)" if "oloop ?f es (out, s) = Returns () (out', s')" for es out s out' s'
      using that
    proof (induction es arbitrary: out s)
      case (Cons x es)
      obtain k n where x: "x = (k, n)" by (cases x)
      from Cons.prems x obtain out1 s1 u where
        1: "?f x (out, s) = Returns u (out1, s1)" and 2: "oloop ?f es (out1, s1) = Returns () (out', s')"
        by (auto simp: obind_Returns)
      from Suc.IH 1 x have "out1 = out @ ?g x" by simp
      with Cons.IH [OF 2] show ?case by simp
    qed simp
    show ?thesis
    proof (cases "y_is_map Y node")
      case True
      with Suc.prems None have "oloop ?f (y_entries Y node) (out @ [(prefix, node)], s) = Returns () (out', s')"
        by (simp add: Let_def)
      from loop [OF this] True None show ?thesis by simp
    next
      case False
      with Suc.prems None show ?thesis by (simp add: Let_def)
    qed
  qed
qed simp

lemma LoadFromYaml_ends:
  assumes ok: "config_ok c"
  shows "ends_in (\<lambda>(c', s'). loads (keys_ptrs c (fst ` set (members d Y [] root))) c c')
    (LoadFromYaml d conv Y la root (c, s))"
proof (cases "ListAllMember d Y la [] root ([], s)")
  case (Returns u st)
  obtain nodes s1 where st: "st = (nodes, s1)" by (cases st)
  from ListAllMember_Returns [of d Y la "[]" root "[]" s u nodes s1] Returns st
  have nodes: "nodes = members d Y [] root" by simp
  let ?ps = "keys_ptrs c (fst ` set nodes)"
  have "ends_in (\<lambda>(c', s'). loads ?ps c1 c') (load_member conv Y la i (c1, s2))"
    if "i \<in> set nodes" and ld: "loads ?ps c c1" for i c1 s2
  proof -
    have "map tolower (fst i) = fst i"
      using that(1) members_valid [of "fst i" "snd i"] by (intro tolower_member) (simp add: nodes)
    moreover have "cf_datas c1 = cf_datas c" using ld by (simp add: loads_def)
    ultimately have sub: "keys_ptrs c1 {map tolower (fst i)} \<subseteq> ?ps" using that(1) by (auto simp: keys_ptrs_def)
    from load_member_ends [OF loads_config_ok [OF ok ld]]
    show ?thesis by (rule ends_in_mono) (use loads_mono [OF _ sub] in auto)
  qed
  then have "ends_in (\<lambda>(c', s'). loads ?ps c c') (oloop (load_member conv Y la) nodes (c, s1))"
    by (rule ends_in_oloop_loads [OF _ loads_refl])
  with Returns st show ?thesis by (simp add: LoadFromYaml_def nodes)
next
  case (Raises e st)
  then show ?thesis by (cases st) (simp add: LoadFromYaml_def)
qed (simp add: LoadFromYaml_def)

lemma Lookup_default_ok:
  assumes ok: "config_ok c"
  shows "ends_in (\<lambda>(c', s'). config_ok c') (Lookup_default conv la T n v d (c, s))"
proof (cases "om_find (cf_datas c) n")
  case None
  show ?thesis
  proof (cases "find_first_not_of n name_chars")
    case None': None
    then have "set n \<subseteq> set name_chars" by (simp add: find_first_not_of_None)
    with None ok show ?thesis by (simp add: Lookup_default_new config_ok_add)
  next
    case (Some i)
    have m: "cf_mutex c = RWMutex_init" using ok by (simp add: config_ok_def)
    from None Some ok show ?thesis
      by (cases "LOG la ERROR (''Lookup name invalid '' @ n) s")
        (simp_all add: Lookup_default_def cf_scope_def m wrlock_init on_world_def cf_unlock_def config_same)
  qed
next
  case (Some p)
  have m: "cf_mutex c = RWMutex_init" using ok by (simp add: config_ok_def)
  let ?c1 = "c\<lparr>cf_mutex := \<lparr>rw_readers = 0, rw_writer = True\<rparr>\<rparr>"
  from config_ok_find [OF ok Some] have p: "p < length (cf_vars ?c1)" by simp
  have idle: "cv_idle (cf_vars ?c1 ! p)" using config_ok_idle [OF ok] p by simp
  have same: "cf_unlock (?c1, s') = (c, s')" for s'
    using config_same [OF m] by (cases c) (simp add: cf_unlock_def)
  let ?P = "\<lambda>(c', s'). c' = ?c1"
  have vs: "?c1\<lparr>cf_vars := cf_vars c\<rparr> = ?c1" by (cases c) simp
  have tos: "ends_in ?P (on_var p (toString ts la) (?c1, s))" for ts
  proof -
    have e: "ends_in (\<lambda>(x', s'). x' = cf_vars c ! p) (toString ts la (cf_vars c ! p, s))"
      using toString_ends [OF idle] by simp
    show ?thesis
      using p vs e by (cases "toString ts la (cf_vars c ! p, s)") (auto simp: on_var_def)
  qed
  have log: "ends_in ?P (obind (on_world f cs) (\<lambda>_. Returns r))" if "?P cs" for f :: "'b \<Rightarrow> (unit, 'b) outcome" and cs and r :: "nat option"
    using that by (cases cs) (auto simp: ends_in_on_world ends_in_trivial intro!: ends_in_obind [where P = ?P])
  have body: "ends_in ?P (case om_find (cf_datas ?c1) n of
         Some p \<Rightarrow>
           if cv_type (cf_vars ?c1 ! p) = T then
             obind (on_world (LOG la INFO (''Lookup name='' @ n @ '' exists'')) (?c1, s)) (\<lambda>_. Returns (Some p))
           else if la_enabled la ERROR s then
             obind (on_var p (toString (snd (conv (cv_type (cf_vars ?c1 ! p)))) la) (?c1, s)) (\<lambda>str cs.
               obind (on_world (la_write la ERROR (''Lookup name='' @ n @ '' exists but types not '' @ T @
                       '' real type='' @ cv_type (cf_vars ?c1 ! p) @ '' '' @ str)) cs) (\<lambda>_. Returns None))
           else Returns None (?c1, s)
       | None \<Rightarrow>
           if find_first_not_of n name_chars \<noteq> None then
             obind (on_world (LOG la ERROR (''Lookup name invalid '' @ n)) (?c1, s)) (\<lambda>_. Raises (Std_Exception n))
           else Returns (Some (length (cf_vars ?c1)))
             (?c1\<lparr>cf_vars := cf_vars ?c1 @ [ConfigVar T n v d],
                cf_datas := om_put n (length (cf_vars ?c1)) (cf_datas ?c1)\<rparr>, s))" (is "ends_in ?P ?body")
    using Some by (auto intro!: log ends_in_obind [OF tos])
  have "Lookup_default conv la T n v d (c, s) = (case ?body of
      Returns a cs' \<Rightarrow> Returns a (cf_unlock cs') | Raises e cs' \<Rightarrow> Raises e (cf_unlock cs') | Crashes f \<Rightarrow> Crashes f)"
    by (simp add: Lookup_default_def cf_scope_def m wrlock_init)
  with body same ok show ?thesis by (cases ?body) auto
qed


section \<open>What the registry needs of its logger\<close>

text \<open>
  \<open>reports good r\<close>: the operation returns in a good state, or ends in the one fault a well-formed
  logger has. A logger that meets it never disturbs its callers with an exception.
\<close>

definition reports :: "('s \<Rightarrow> bool) \<Rightarrow> ('a, 's) outcome \<Rightarrow> bool" where
  "reports good r = (case r of Returns _ s \<Rightarrow> good s | Raises _ _ \<Rightarrow> False | Crashes f \<Rightarrow> f = date_fault)"

lemma reports_simps [simp]:
  "reports good (Returns a s) = good s" "reports good (Raises e s) = False"
  "reports good (Crashes f) = (f = date_fault)"
  by (simp_all add: reports_def)

lemma reports_obind:
  "reports good r \<Longrightarrow> (\<And>a s. r = Returns a s \<Longrightarrow> good s \<Longrightarrow> reports good' (f a s)) \<Longrightarrow> reports good' (obind r f)"
  by (cases r) auto

lemma reports_oloop:
  "(\<And>x s. x \<in> set xs \<Longrightarrow> good s \<Longrightarrow> reports good (f x s)) \<Longrightarrow> good s \<Longrightarrow> reports good (oloop f xs s)"
  by (induction xs arbitrary: s) (auto intro!: reports_obind)

lemma reports_on_world: "reports P (on_world f (x, s)) \<longleftrightarrow> reports (\<lambda>s'. P (x, s')) (f s)"
  by (cases "f s") (simp_all add: on_world_def)

lemma reports_mono: "reports P r \<Longrightarrow> (\<And>s. P s \<Longrightarrow> Q s) \<Longrightarrow> reports Q r"
  by (cases r) auto

lemma reports_on_var:
  "p < length (cf_vars c) \<Longrightarrow> reports (\<lambda>(x', s'). good s') (f (cf_vars c ! p, s)) \<Longrightarrow>
     reports (\<lambda>cs. good (snd cs)) (on_var p f (c, s))"
  by (cases "f (cf_vars c ! p, s)") (auto simp: on_var_def case_prod_beta)

text \<open>Casts and listeners that end in a good state, normally or in a standard exception.\<close>

definition ends_std :: "('s \<Rightarrow> bool) \<Rightarrow> ('a, 's) outcome \<Rightarrow> bool" where
  "ends_std good r = (case r of Returns _ s' \<Rightarrow> good s' | Raises e s' \<Rightarrow> good s' \<and> (\<exists>w. e = Std_Exception w)
     | Crashes f \<Rightarrow> f = date_fault)"

lemma ends_std_simps [simp]:
  "ends_std good (Returns a s) = good s" "ends_std good (Raises e s) = (good s \<and> (\<exists>w. e = Std_Exception w))"
  "ends_std good (Crashes f) = (f = date_fault)"
  by (simp_all add: ends_std_def)

definition converters_std :: "('s \<Rightarrow> bool) \<Rightarrow> ('v, 's) converters \<Rightarrow> bool" where
  "converters_std good conv \<longleftrightarrow> (\<forall>T text s. good s \<longrightarrow> ends_std good (fst (conv T) text s))"

definition listener_std :: "('s \<Rightarrow> bool) \<Rightarrow> ('v, 's) on_change_back \<Rightarrow> bool" where
  "listener_std good cb \<longleftrightarrow> (\<forall>v v' s. good s \<longrightarrow> ends_std good (call_back cb v v' s))"

definition var_std :: "('s \<Rightarrow> bool) \<Rightarrow> ('v, 's) config_var \<Rightarrow> bool" where
  "var_std good x \<longleftrightarrow> (\<forall>(k, cb) \<in> set (cv_cbs x). listener_std good cb)"

locale reporter =
  fixes la :: "'s log_api" and good :: "'s \<Rightarrow> bool"
  assumes write_reports: "good s \<Longrightarrow> reports good (la_write la level msg s)"
begin

lemma LOG_reports: "good s \<Longrightarrow> reports good (LOG la level msg s)"
  by (simp add: LOG_def write_reports)

text \<open>ListAllMember does not run out of stack on a document nested less deeply.\<close>

lemma list_reports:
  assumes "nested d Y node" and "good s"
  shows "reports (\<lambda>(out', s'). good s') (ListAllMember d Y la prefix node (out, s))"
  using assms
proof (induction d arbitrary: prefix node out s)
  case (Suc d)
  show ?case
  proof (cases "find_first_not_of prefix member_chars \<noteq> None")
    case True
    with Suc.prems show ?thesis by (auto simp: reports_on_world LOG_reports)
  next
    case False
    let ?P = "\<lambda>st :: (string \<times> 'b) list \<times> 's. good (snd st)"
    let ?f = "\<lambda>(k, x). ListAllMember d Y la (if prefix = [] then y_scalar Y k else prefix @ ''.'' @ y_scalar Y k) x"
    have "reports ?P (?f e st)" if "e \<in> set (y_entries Y node)" "?P st" "y_is_map Y node" for e st
    proof -
      from Suc.prems(1) that have "nested d Y (snd e)" by (auto simp: list_all_iff)
      with Suc.IH [of "snd e" "snd st"] that(2) show ?thesis by (cases e; cases st) (simp add: case_prod_beta)
    qed
    then have "reports ?P (oloop ?f (y_entries Y node) (out @ [(prefix, node)], s))" if "y_is_map Y node"
      using that Suc.prems(2) by (intro reports_oloop) auto
    with False Suc.prems show ?thesis by (simp add: Let_def case_prod_beta)
  qed
qed simp

lemma fromString_reports:
  assumes idle: "cv_idle x" and std: "var_std good x" and conv: "ends_std good (from_str val s)"
  shows "reports (\<lambda>(x', s'). good s') (fromString from_str la val (x, s))"
proof -
  let ?P = "\<lambda>xs. good (snd xs)"
  have cbs: "ends_std good (oloop (\<lambda>(key, cb). call_back cb v v') cbs s)"
    if "\<forall>(k, cb) \<in> set cbs. listener_std good cb" "good s" for cbs v v' s
    using that
  proof (induction cbs arbitrary: s)
    case (Cons y cbs)
    obtain k cb where y: "y = (k, cb)" by (cases y)
    from Cons.prems y have "ends_std good (call_back cb v v' s)" by (simp add: listener_std_def)
    with Cons y show ?case by (cases "call_back cb v v' s") auto
  qed simp
  have log: "reports ?P (obind (on_world (LOG la ERROR m) xs) (\<lambda>_. Returns b))" if "?P xs" for m xs and b :: bool
    using that by (cases xs) (auto intro!: reports_obind [where good = ?P] simp: reports_on_world LOG_reports)
  have "reports ?P (fromString from_str la val (x, s))"
  proof (cases "from_str val s")
    case (Returns v s')
    with conv have s': "good s'" by simp
    from cbs [OF std [unfolded var_std_def] s', of "cv_val x" v] Returns s' log show ?thesis
      by (auto simp: fromString_eq [OF idle] set_effect_def split: outcome.splits)
  next
    case (Raises e s')
    with conv obtain w where "e = Std_Exception w" "good s'" by auto
    with Raises log [of "(x, s')"] show ?thesis by (simp add: fromString_eq [OF idle])
  next
    case (Crashes f)
    with conv show ?thesis by (simp add: fromString_eq [OF idle])
  qed
  then show ?thesis by (rule reports_mono) auto
qed

lemma load_member_reports:
  assumes ok: "config_ok c" and conv: "converters_std good conv" and "good s"
    and std: "\<And>p. om_find (cf_datas c) (map tolower (fst i)) = Some p \<Longrightarrow> var_std good (cf_vars c ! p)"
  shows "reports (\<lambda>(c', s'). good s') (load_member conv Y la i (c, s))"
proof (cases "fst i = [] \<or> om_find (cf_datas c) (map tolower (fst i)) = None")
  case True
  with assms(3) show ?thesis by (cases i) (auto simp: load_member_def LookupBase_eq [OF ok] Let_def)
next
  case False
  then obtain p where p: "fst i \<noteq> []" "om_find (cf_datas c) (map tolower (fst i)) = Some p" by auto
  from config_ok_find [OF ok p(2)] have len: "p < length (cf_vars c)" by simp
  let ?x = "cf_vars c ! p" and ?P = "\<lambda>cs :: ('a, 's) config \<times> 's. good (snd cs)"
  have "reports (\<lambda>(x', s'). good s') (fromString (fst (conv T)) la val (?x, s))" for T val
    using conv assms(3)
    by (intro fromString_reports config_ok_idle [OF ok len] std [OF p(2)]) (simp add: converters_std_def)
  then have "reports ?P (on_var p (fromString (fst (conv T)) la val) (c, s))" for T val
    by (intro reports_on_var len)
  then have "reports ?P (obind (on_var p (fromString (fst (conv T)) la val) (c, s)) (\<lambda>_. Returns ()))" for T val
    by (rule reports_obind) simp
  with p show ?thesis
    by (cases i) (simp add: load_member_def LookupBase_eq [OF ok] Let_def case_prod_beta')
qed

text \<open>The loop of LoadFromYaml over any part of the list, which changes only what that part names.\<close>

lemma loop_reports:
  assumes ok: "config_ok c" and conv: "converters_std good conv" and "good s"
    and std: "\<And>i p. i \<in> set is \<Longrightarrow> om_find (cf_datas c) (map tolower (fst i)) = Some p \<Longrightarrow> var_std good (cf_vars c ! p)"
  shows "reports (\<lambda>(c', s'). good s' \<and> loads (keys_ptrs c ((map tolower \<circ> fst) ` set is)) c c')
    (oloop (load_member conv Y la) is (c, s))"
proof (rule reports_oloop)
  let ?ps = "keys_ptrs c ((map tolower \<circ> fst) ` set is)"
  let ?P = "\<lambda>(c', s'). good s' \<and> loads ?ps c c'"
  show "reports ?P (load_member conv Y la i cs)" if i: "i \<in> set is" and P: "?P cs" for i cs
  proof -
    obtain c1 s1 where cs: "cs = (c1, s1)" and g: "good s1" and ld: "loads ?ps c c1" using P by (cases cs) auto
    note ok1 = loads_config_ok [OF ok ld]
    have datas: "cf_datas c1 = cf_datas c" using ld by (simp add: loads_def)
    have "var_std good (cf_vars c1 ! p)" if "om_find (cf_datas c1) (map tolower (fst i)) = Some p" for p
    proof -
      from that datas have p: "om_find (cf_datas c) (map tolower (fst i)) = Some p" by simp
      have "cv_shape (cf_vars c1 ! p) = cv_shape (cf_vars c ! p)"
        using loads_shape [OF ld] config_ok_find [OF ok p] by simp
      with std [OF i p] show ?thesis by (simp add: var_std_def cv_shape_def)
    qed
    then have r: "reports (\<lambda>(c', s'). good s') (load_member conv Y la i (c1, s1))"
      by (rule load_member_reports [OF ok1 conv g])
    have "keys_ptrs c1 {map tolower (fst i)} \<subseteq> ?ps" using i datas by (auto simp: keys_ptrs_def)
    then have "loads ?ps c c'" if "loads (keys_ptrs c1 {map tolower (fst i)}) c1 c'" for c'
      using loads_trans [OF ld loads_mono [OF that]] by blast
    with r load_member_ends [OF ok1, of i conv Y la s1] show ?thesis
      unfolding cs by (cases "load_member conv Y la i (c1, s1)") auto
  qed
qed (use assms(3) loads_refl in auto)

text \<open>
  The whole of LoadFromYaml: no exception, no deadlock, no null pointer, no stack overflow. Only the
  listeners of the variables that the document names matter.
\<close>

lemma load_reports:
  assumes ok: "config_ok c" and conv: "converters_std good conv" and nest: "nested d Y root" and "good s"
    and std: "\<And>i q. i \<in> set (members d Y [] root) \<Longrightarrow> om_find (cf_datas c) (fst i) = Some q \<Longrightarrow> var_std good (cf_vars c ! q)"
  shows "reports (\<lambda>(c', s'). good s') (LoadFromYaml d conv Y la root (c, s))"
proof (cases "ListAllMember d Y la [] root ([], s)")
  case (Returns u st)
  obtain nodes s1 where st: "st = (nodes, s1)" by (cases st)
  with ListAllMember_Returns [of d Y la "[]" root "[]" s u nodes s1] Returns
  have nodes: "nodes = members d Y [] root" by simp
  have "good s1" using list_reports [OF nest \<open>good s\<close>, of "[]" "[]"] Returns st by simp
  moreover have "var_std good (cf_vars c ! q)" if "i \<in> set nodes" "om_find (cf_datas c) (map tolower (fst i)) = Some q" for i q
  proof -
    have "map tolower (fst i) = fst i"
      using that(1) members_valid [of "fst i" "snd i"] by (intro tolower_member) (simp add: nodes)
    with that std [of i q] show ?thesis by (simp add: nodes)
  qed
  ultimately have "reports (\<lambda>(c', s'). good s') (oloop (load_member conv Y la) nodes (c, s1))"
    by (intro reports_mono [OF loop_reports [OF ok conv]]) auto
  with Returns st show ?thesis by (simp add: LoadFromYaml_def)
qed (use list_reports [OF nest \<open>good s\<close>, of "[]" "[]"] in \<open>simp_all add: LoadFromYaml_def\<close>)

end


section \<open>The value a document gives a variable\<close>

definition node_text :: "'n yaml \<Rightarrow> 'n \<Rightarrow> string" where
  "node_text Y node = (if y_is_scalar Y node then y_scalar Y node else y_emit Y node)"

definition never_raises :: "('v, 's) config_var \<Rightarrow> bool" where
  "never_raises x \<longleftrightarrow> (\<forall>(k, cb) \<in> set (cv_cbs x). \<forall>v v' s e s'. call_back cb v v' s \<noteq> Raises e s')"

lemma oloop_never_raises:
  "(\<And>x s e s'. x \<in> set xs \<Longrightarrow> f x s \<noteq> Raises e s') \<Longrightarrow> oloop f xs s \<noteq> Raises e s'"
proof (induction xs arbitrary: s)
  case (Cons x xs)
  then show ?case by (cases "f x s") simp_all
qed simp

text \<open>A cast makes a value of a text, whatever the world; it may write to the console.\<close>

definition casts :: "(string \<Rightarrow> 's \<Rightarrow> ('v, 's) outcome) \<Rightarrow> string \<Rightarrow> 'v \<Rightarrow> bool" where
  "casts from_str text v \<longleftrightarrow> (\<forall>s. \<exists>s'. from_str text s = Returns v s')"

lemma fromString_value:
  assumes idle: "cv_idle x" and nr: "never_raises x" and conv: "casts from_str val v"
    and run: "fromString from_str la val (x, s) = Returns b (x', s')"
  shows "cv_val x' = v"
proof -
  have "oloop (\<lambda>(key, cb). call_back cb (cv_val x) v) (cv_cbs x) s \<noteq> Raises e s'" for e s s'
    using nr by (intro oloop_never_raises) (auto simp: never_raises_def)
  moreover obtain s1 where "from_str val s = Returns v s1" using conv by (auto simp: casts_def)
  ultimately show ?thesis
    using run by (auto simp: fromString_eq [OF idle] set_effect_def split: outcome.splits if_splits)
qed

lemma load_member_value:
  assumes ok: "config_ok c" and k: "k \<noteq> []" "map tolower k = k" "om_find (cf_datas c) k = Some p"
    and nr: "never_raises (cf_vars c ! p)" and conv: "casts (fst (conv (cv_type (cf_vars c ! p)))) (node_text Y node) v"
    and run: "load_member conv Y la (k, node) (c, s) = Returns u (c', s')"
  shows "cv_val (cf_vars c' ! p) = v"
proof -
  from config_ok_find [OF ok k(3)] have len: "p < length (cf_vars c)" by simp
  let ?fs = "fst (conv (cv_type (cf_vars c ! p)))"
  from run k have "obind (on_var p (fromString ?fs la (node_text Y node)) (c, s)) (\<lambda>_. Returns ()) = Returns u (c', s')"
    by (simp add: load_member_def LookupBase_eq [OF ok] Let_def node_text_def)
  then obtain b x' where "fromString ?fs la (node_text Y node) (cf_vars c ! p, s) = Returns b (x', s')"
    and c': "c' = c\<lparr>cf_vars := (cf_vars c)[p := x']\<rparr>"
    using len by (cases "fromString ?fs la (node_text Y node) (cf_vars c ! p, s)") (auto simp: on_var_def)
  from fromString_value [where from_str = ?fs, OF config_ok_idle [OF ok len] nr conv this(1)] c' len
  show ?thesis by simp
qed

text \<open>
  A variable named by the document holds, after the load, the value of the last node under its name.
\<close>

lemma load_value:
  assumes ok: "config_ok c" and mem: "members d Y [] root = xs @ (k, node) # ys" and last: "k \<notin> fst ` set ys"
    and k: "k \<noteq> []" "om_find (cf_datas c) k = Some p" and nr: "never_raises (cf_vars c ! p)"
    and conv: "casts (fst (conv (cv_type (cf_vars c ! p)))) (node_text Y node) v"
    and run: "LoadFromYaml d conv Y la root (c, s) = Returns u (c', s')"
  shows "cv_val (cf_vars c' ! p) = v"
proof -
  let ?f = "load_member conv Y la"
  have lower: "map tolower (fst i) = fst i" if "i \<in> set (members d Y [] root)" for i
    using that members_valid [of "fst i" "snd i"] by (intro tolower_member) simp
  from run obtain s0 where "oloop ?f (members d Y [] root) (c, s0) = Returns u (c', s')"
    using ListAllMember_Returns [of d Y la "[]" root "[]" s]
    by (cases "ListAllMember d Y la [] root ([], s)") (auto simp: LoadFromYaml_def)
  with mem obtain c1 s1 c2 s2 where run1: "oloop ?f xs (c, s0) = Returns () (c1, s1)"
    and run2: "?f (k, node) (c1, s1) = Returns () (c2, s2)" and run3: "oloop ?f ys (c2, s2) = Returns () (c', s')"
    by (auto simp: oloop_append obind_Returns)
  have part: "loads (keys_ptrs c0 (fst ` set is)) c0 c9"
    if "oloop ?f is (c0, s8) = Returns () (c9, s9)" "config_ok c0" "set is \<subseteq> set (members d Y [] root)" for "is" c0 s8 c9 s9
  proof -
    let ?ps = "keys_ptrs c0 (fst ` set is)"
    have "ends_in (\<lambda>(c', s'). loads ?ps ca c') (?f i (ca, sa))" if i: "i \<in> set is" and ld: "loads ?ps c0 ca" for i ca sa
    proof -
      have "cf_datas ca = cf_datas c0" using ld by (simp add: loads_def)
      moreover have "map tolower (fst i) = fst i" using i \<open>set is \<subseteq> _\<close> by (intro lower) auto
      ultimately have sub: "keys_ptrs ca {map tolower (fst i)} \<subseteq> ?ps" using i by (auto simp: keys_ptrs_def)
      from load_member_ends [OF loads_config_ok [OF \<open>config_ok c0\<close> ld]]
      show ?thesis by (rule ends_in_mono) (use loads_mono [OF _ sub] in auto)
    qed
    then have "ends_in (\<lambda>(c', s'). loads ?ps c0 c') (oloop ?f is (c0, s8))"
      by (rule ends_in_oloop_loads [OF _ loads_refl])
    with that(1) show ?thesis by simp
  qed
  have sub: "set xs \<subseteq> set (members d Y [] root)" "set ys \<subseteq> set (members d Y [] root)" by (auto simp: mem)
  from part [OF run1 ok sub(1)] have ld1: "loads (keys_ptrs c (fst ` set xs)) c c1" .
  have ok1: "config_ok c1" by (rule loads_config_ok [OF ok ld1])
  from config_ok_find [OF ok k(2)] have len: "p < length (cf_vars c)" by simp
  have sh: "cv_shape (cf_vars c1 ! p) = cv_shape (cf_vars c ! p)" by (rule loads_shape [OF ld1 len])
  have f1: "om_find (cf_datas c1) k = Some p" using k(2) ld1 by (simp add: loads_def)
  have "map tolower k = k" using lower [of "(k, node)"] by (simp add: mem)
  moreover have "never_raises (cf_vars c1 ! p)" using nr sh by (simp add: never_raises_def cv_shape_def)
  moreover have "casts (fst (conv (cv_type (cf_vars c1 ! p)))) (node_text Y node) v"
    using conv sh by (simp add: cv_shape_def)
  ultimately have v: "cv_val (cf_vars c2 ! p) = v"
    using load_member_value [where conv = conv, OF ok1 k(1) _ f1 _ _ run2] by blast
  have ld2: "loads (keys_ptrs c1 {map tolower (fst (k, node))}) c1 c2"
    using load_member_ends [OF ok1, of "(k, node)" conv Y la s1] run2 by simp
  have ok2: "config_ok c2" by (rule loads_config_ok [OF ok1 ld2])
  have f2: "om_find (cf_datas c2) k = Some p" using f1 ld2 by (simp add: loads_def)
  from part [OF run3 ok2 sub(2)] have ld3: "loads (keys_ptrs c2 (fst ` set ys)) c2 c'" .
  have "p \<notin> keys_ptrs c2 (fst ` set ys)"
    using last config_ok_find [OF ok2 f2] config_ok_find [OF ok2] by (auto simp: keys_ptrs_def)
  moreover from config_ok_find [OF ok2 f2] have "p < length (cf_vars c2)" by simp
  ultimately show ?thesis using ld3 v by (simp add: loads_def)
qed

section \<open>Properties\<close>

text \<open>A registry with one integer variable, casts for integers, a silent logger and a document.\<close>

definition demo_conv :: "(int, 's) converters" where
  "demo_conv T = (pure_cast (\<lambda>s. if s = ''80'' then Inr 80 else Inl (Throw (Std_Exception ''bad_lexical_cast''))), \<lambda>v. Inr (show_int v))"

definition quiet :: "'s log_api" where
  "quiet = \<lparr>la_enabled = (\<lambda>level s. False), la_write = (\<lambda>level msg s. Returns () s)\<rparr>"

definition demo_config :: "string \<Rightarrow> (int, 's) config" where
  "demo_config n = \<lparr>cf_vars = [ConfigVar ''int'' n 8080 ''the port''], cf_datas = [(n, 0)], cf_mutex = RWMutex_init\<rparr>"

definition demo_doc :: ynode where
  "demo_doc = YMap [(YScalar ''port'', YScalar ''80''), (YScalar ''Port'', YScalar ''81'')]"

abbreviation demo_tree :: "ynode yaml" where
  "demo_tree \<equiv> tree_yaml (\<lambda>s. Some (YScalar s)) (\<lambda>n. [])"

lemma demo_config_ok:
  assumes "set n \<subseteq> set name_chars"
  shows "config_ok (demo_config n)"
  using assms tolower_name [OF assms]
  by (auto simp: config_ok_def demo_config_def cv_idle_def ConfigVar_eq om_ok_def om_find_def)

lemma port_chars: "set ''port'' \<subseteq> set name_chars" "set ''port9'' \<subseteq> set name_chars" "set ''host'' \<subseteq> set name_chars"
  by (simp_all add: name_chars_def)

lemma demo_members:
  "members 2 demo_tree [] demo_doc = [([], demo_doc)] @ (''port'', YScalar ''80'') # []"
  by (simp add: numeral_2_eq_2 demo_doc_def tree_yaml_def find_first_not_of_None member_chars_def)

text \<open>
  C20. Lookup with a default registers a new name: a name of accepted characters gets a variable of
  the default value, which every later look-up by name finds, and a look-up by name and type finds
  exactly under its type; all other variables stay. A name with any other character is reported and
  refused with an exception, and the registry stays as it was. Either way the registry is
  well-formed and its lock free.
\<close>

theorem Lookup_registers:
  assumes "config_ok c" and "om_find (cf_datas c) n = None"
    and "LOG la ERROR (''Lookup name invalid '' @ n) s = Returns () s'"
  shows "if set n \<subseteq> set name_chars
    then (\<exists>c'. Lookup_default conv la T n v d (c, s) = Returns (Some (length (cf_vars c))) (c', s) \<and> config_ok c' \<and>
      LookupBase n (c', s) = Returns (Some (length (cf_vars c))) (c', s) \<and>
      Lookup T' n (c', s) = Returns (if T' = T then Some (length (cf_vars c)) else None) (c', s) \<and>
      cf_vars c' = cf_vars c @ [ConfigVar T n v d] \<and>
      (\<forall>n'. n' \<noteq> n \<longrightarrow> om_find (cf_datas c') n' = om_find (cf_datas c) n'))
    else Lookup_default conv la T n v d (c, s) = Raises (Std_Exception n) (c, s')"
proof (cases "set n \<subseteq> set name_chars")
  case True
  let ?c = "c\<lparr>cf_vars := cf_vars c @ [ConfigVar T n v d], cf_datas := om_put n (length (cf_vars c)) (cf_datas c)\<rparr>"
  have ok: "config_ok ?c" by (rule config_ok_add [OF assms(1,2) True])
  have "Lookup T' n (?c, s) = Returns (if T' = T then Some (length (cf_vars c)) else None) (?c, s)"
    unfolding Lookup_eq [OF ok] by (auto simp: om_find_put ConfigVar_eq)
  moreover have "LookupBase n (?c, s) = Returns (Some (length (cf_vars c))) (?c, s)"
    unfolding LookupBase_eq [OF ok] by (simp add: om_find_put)
  ultimately show ?thesis
    using True ok Lookup_default_new [OF assms(1,2) True] by (auto simp: om_find_put)
next
  case False
  then obtain i where "find_first_not_of n name_chars = Some i"
    using find_first_not_of_None [of n name_chars] by auto
  moreover have m: "cf_mutex c = RWMutex_init" using assms(1) by (simp add: config_ok_def)
  ultimately have "Lookup_default conv la T n v d (c, s) = Raises (Std_Exception n) (c, s')"
    using assms(2,3) by (simp add: Lookup_default_def cf_scope_def m wrlock_init on_world_def cf_unlock_def config_same)
  with False show ?thesis by simp
qed

theorem Lookup_registers_witness:
  "Lookup_default demo_conv quiet ''int'' ''Host'' 1 [] (demo_config ''port'', ()) =
     Raises (Std_Exception ''Host'') (demo_config ''port'', ()) \<and>
   (\<exists>c'. Lookup_default demo_conv quiet ''int'' ''host'' 1 [] (demo_config ''port'', ()) = Returns (Some 1) (c', ()))"
proof -
  note ok = demo_config_ok [OF port_chars(1)]
  have none: "om_find (cf_datas (demo_config ''port'')) n = (if n = ''port'' then Some 0 else None)" for n
    by (simp add: demo_config_def om_find_def)
  have log: "LOG quiet ERROR m () = Returns () ()" for m by (simp add: LOG_def quiet_def)
  have bad: "\<not> set ''Host'' \<subseteq> set name_chars" by (simp add: name_chars_def)
  show ?thesis
    using Lookup_registers [OF ok _ log, of "''Host''" demo_conv "''int''" 1 "[]"] bad port_chars(3)
      Lookup_registers [OF ok _ log, of "''host''" demo_conv "''int''" 1 "[]"]
    by (auto simp: none) (auto simp: demo_config_def)
qed

text \<open>
  LoadFromYaml changes nothing but values, and only of the variables whose names the document
  lists: whichever way it ends, by return or by exception, names, types, descriptions, locks and
  listeners, the registry itself and every other variable are as before.
\<close>

lemma load_touches_named:
  assumes "config_ok c"
  shows "ends_in (\<lambda>(c', s'). config_ok c' \<and> cf_datas c' = cf_datas c \<and>
      map cv_shape (cf_vars c') = map cv_shape (cf_vars c) \<and>
      (\<forall>n p. om_find (cf_datas c) n = Some p \<longrightarrow> n \<notin> fst ` set (members d Y [] root) \<longrightarrow>
         cf_vars c' ! p = cf_vars c ! p))
    (LoadFromYaml d conv Y la root (c, s))"
proof (rule ends_in_mono [OF LoadFromYaml_ends [OF assms]])
  fix cs
  let ?ps = "keys_ptrs c (fst ` set (members d Y [] root))"
  assume "case cs of (c', s') \<Rightarrow> loads ?ps c c'"
  then obtain c' s' where cs: "cs = (c', s')" and ld: "loads ?ps c c'" by (cases cs) auto
  have "cf_vars c' ! p = cf_vars c ! p"
    if p: "om_find (cf_datas c) n = Some p" and n: "n \<notin> fst ` set (members d Y [] root)" for n p
  proof -
    have "p \<notin> ?ps"
    proof
      assume "p \<in> ?ps"
      then obtain k where "k \<in> fst ` set (members d Y [] root)" "om_find (cf_datas c) k = Some p"
        by (auto simp: keys_ptrs_def)
      with config_ok_find [OF assms this(2)] config_ok_find [OF assms p] n show False by simp
    qed
    with ld config_ok_find [OF assms p] show ?thesis by (simp add: loads_def)
  qed
  with ld loads_config_ok [OF assms ld] cs
  show "case cs of (c', s') \<Rightarrow> config_ok c' \<and> cf_datas c' = cf_datas c \<and>
      map cv_shape (cf_vars c') = map cv_shape (cf_vars c) \<and>
      (\<forall>n p. om_find (cf_datas c) n = Some p \<longrightarrow> n \<notin> fst ` set (members d Y [] root) \<longrightarrow>
         cf_vars c' ! p = cf_vars c ! p)"
    by (simp add: loads_def)
qed

text \<open>
  A name that Lookup accepts may be out of reach of every document: a variable whose name has a
  9 keeps its value, however the document is written, because the character list of ListAllMember
  lacks that digit.
\<close>

lemma digit_nine_never_loaded:
  assumes "config_ok c" and "om_find (cf_datas c) n = Some p" and "CHR ''9'' \<in> set n"
  shows "ends_in (\<lambda>(c', s'). cf_vars c' ! p = cf_vars c ! p) (LoadFromYaml d conv Y la root (c, s))"
proof (rule ends_in_mono [OF LoadFromYaml_ends [OF assms(1)]])
  fix cs
  assume ld: "case cs of (c', s') \<Rightarrow> loads (keys_ptrs c (fst ` set (members d Y [] root))) c c'"
  have "p \<notin> keys_ptrs c (fst ` set (members d Y [] root))"
  proof
    assume "p \<in> keys_ptrs c (fst ` set (members d Y [] root))"
    then obtain k x where k: "(k, x) \<in> set (members d Y [] root)" "om_find (cf_datas c) k = Some p"
      by (auto simp: keys_ptrs_def)
    with config_ok_find [OF assms(1) k(2)] config_ok_find [OF assms(1,2)] have "k = n" by simp
    with members_valid [OF k(1)] assms(3) have "CHR ''9'' \<in> set member_chars" by auto
    then show False by (simp add: member_chars_def)
  qed
  with ld config_ok_find [OF assms(1,2)] show "case cs of (c', s') \<Rightarrow> cf_vars c' ! p = cf_vars c ! p"
    by (cases cs) (simp add: loads_def)
qed

end
