(* ===== verification/Log_Config.thy ===== *)
theory Log_Config
  imports Log_Api Config
begin

text \<open>
  The bridge between configuration and logging (log.cpp): LogDefine and LogAppenderDefine, their
  conversion from and to YAML, the toYamlString methods, and the listener that LogIniter puts on the
  variable "logs", which rebuilds the loggers when the variable changes.
\<close>

section \<open>Definitions of loggers\<close>

record LogAppenderDefine =
  ad_type :: int                                   \<comment> \<open>1 FileLogAppender, 2 StdoutLogAppender\<close>
  ad_level :: Level
  ad_formatter :: string
  ad_file :: string

record LogDefine =
  ld_name :: string
  ld_level :: Level
  ld_formatter :: string
  ld_appenders :: "LogAppenderDefine list"

definition new_LogAppenderDefine :: LogAppenderDefine where
  "new_LogAppenderDefine = \<lparr>ad_type = 0, ad_level = UNKNOW, ad_formatter = [], ad_file = []\<rparr>"

text \<open>
  operator== compares every field, which is equality; operator< compares names, so a
  std::set<LogDefine> holds one definition per name, in the order of the names.
\<close>

type_synonym log_defines = "LogDefine list"

definition ld_less :: "LogDefine \<Rightarrow> LogDefine \<Rightarrow> bool" where
  "ld_less x y = (ld_name x < ld_name y)"

definition lds_ok :: "log_defines \<Rightarrow> bool" where
  "lds_ok ds = sorted_wrt ld_less ds"

fun lds_find :: "log_defines \<Rightarrow> LogDefine \<Rightarrow> LogDefine option" where
  "lds_find [] d = None"
| "lds_find (x # xs) d = (if \<not> ld_less x d \<and> \<not> ld_less d x then Some x else lds_find xs d)"

fun lds_insert :: "LogDefine \<Rightarrow> log_defines \<Rightarrow> log_defines" where
  "lds_insert d [] = [d]"
| "lds_insert d (x # xs) =
     (if ld_less d x then d # x # xs else if ld_less x d then x # lds_insert d xs else x # xs)"

section \<open>From YAML\<close>

text \<open>
  Node access and conversion with their exceptions. The state of the loops is what went to std::cout; an
  appender prints only where it is left out, so its message comes with its result.
\<close>

definition yget :: "'n yaml \<Rightarrow> 'n \<Rightarrow> string \<Rightarrow> 'n res" where
  "yget Y n k = or_throw (y_get Y n k)"

definition ystring :: "'n yaml \<Rightarrow> 'n \<Rightarrow> string res" where
  "ystring Y n = or_throw (y_as_string Y n)"

definition yfield :: "'n yaml \<Rightarrow> 'n \<Rightarrow> string \<Rightarrow> string res" where
  "yfield Y n k = rbind (yget Y n k) (\<lambda>x. if y_defined Y x then ystring Y x else Inr [])"

definition read_appender :: "'n yaml \<Rightarrow> 'n \<Rightarrow> (LogAppenderDefine option \<times> string) res" where
  "read_appender Y a = rbind (yget Y a ''type'') (\<lambda>t.
     if \<not> y_defined Y t then Inr (None, ''log config error : fileappender type is null, '' @ y_emit Y a @ nl)
     else rbind (ystring Y t) (\<lambda>type_name.
       if type_name = ''FileLogAppender'' then
         rbind (yget Y a ''file'') (\<lambda>f.
           if \<not> y_defined Y f then Inr (None, ''log config error: fileappender file is null, '' @ y_emit Y a @ nl)
           else rbind (ystring Y f) (\<lambda>fname. rbind (yfield Y a ''formatter'') (\<lambda>fmt.
             Inr (Some (new_LogAppenderDefine\<lparr>ad_type := 1, ad_file := fname, ad_formatter := fmt\<rparr>), []))))
       else if type_name = ''StdoutLogAppender'' then
         rbind (yfield Y a ''formatter'') (\<lambda>fmt.
           Inr (Some (new_LogAppenderDefine\<lparr>ad_type := 2, ad_formatter := fmt\<rparr>), []))
       else Inr (None, ''log config error: appender type is invalid, '' @ y_emit Y a @ nl)))"

definition read_appenders :: "'n yaml \<Rightarrow> 'n \<Rightarrow> string \<Rightarrow> (LogAppenderDefine list, string) outcome" where
  "read_appenders Y n out0 = obind (at_state (yget Y n ''appenders'') out0) (\<lambda>as out.
     if \<not> y_defined Y as then Returns [] out
     else ofold (\<lambda>x lads out. obind (at_state (or_throw (y_at Y as x)) out) (\<lambda>a out.
            obind (at_state (read_appender Y a) out) (\<lambda>(lad, msg) out.
              Returns (case lad of None \<Rightarrow> lads | Some d \<Rightarrow> lads @ [d]) (out @ msg))))
          [0..<y_size Y as] [] out)"

definition read_define :: "'n yaml \<Rightarrow> 'n \<Rightarrow> string \<Rightarrow> (LogDefine option, string) outcome" where
  "read_define Y n out0 = obind (at_state (yget Y n ''name'') out0) (\<lambda>nm out.
     if \<not> y_defined Y nm then Returns None (out @ ''log config error : name is null, '' @ y_emit Y n @ nl)
     else obind (at_state (ystring Y nm) out) (\<lambda>name out. obind (at_state (yfield Y n ''level'') out) (\<lambda>level out.
       obind (at_state (yfield Y n ''formatter'') out) (\<lambda>fmt out. obind (read_appenders Y n out) (\<lambda>lads.
         Returns (Some \<lparr>ld_name = name, ld_level = FromString level, ld_formatter = fmt, ld_appenders = lads\<rparr>))))))"

text \<open>LexicalCast<std::string, std::set<LogDefine> >.\<close>

definition LogDefines_from_string :: "'n yaml \<Rightarrow> string \<Rightarrow> (log_defines, string) outcome" where
  "LogDefines_from_string Y v = obind (at_state (or_throw (y_load Y v)) []) (\<lambda>node.
     ofold (\<lambda>i ds out. obind (at_state (or_throw (y_at Y node i)) out) (\<lambda>n out. obind (read_define Y n out) (\<lambda>d.
         Returns (case d of None \<Rightarrow> ds | Some ld \<Rightarrow> lds_insert ld ds))))
       [0..<y_size Y node] [])"

section \<open>To YAML\<close>

definition put_string :: "'n yaml \<Rightarrow> string \<Rightarrow> string \<Rightarrow> 'n \<Rightarrow> 'n" where
  "put_string Y k s n = y_put Y n k (y_of_string Y s)"

definition put_level :: "'n yaml \<Rightarrow> Level \<Rightarrow> 'n \<Rightarrow> 'n" where
  "put_level Y level n = (if level \<noteq> UNKNOW then put_string Y ''level'' (ToString level) n else n)"

definition push_at :: "'n yaml \<Rightarrow> string \<Rightarrow> 'n \<Rightarrow> 'n \<Rightarrow> 'n res" where
  "push_at Y k x n = rbind (yget Y n k) (\<lambda>old. Inr (y_put Y n k (y_push Y old x)))"

text \<open>
  LexicalCast<std::set<LogDefine>, std::string>. The test on the formatter is the one the code has:
  the key is written when the formatter is empty.
\<close>

definition write_appender :: "'n yaml \<Rightarrow> LogAppenderDefine \<Rightarrow> 'n" where
  "write_appender Y a =
     (let na = y_node Y;
          na = (if ad_type a = 1 then put_string Y ''file'' (ad_file a) (put_string Y ''type'' ''FileLogAppender'' na)
                else if ad_type a = 2 then put_string Y ''type'' ''StdoutLogAppender'' na else na);
          na = put_level Y (ad_level a) na
      in if ad_formatter a \<noteq> [] then put_string Y ''formatter'' (ad_formatter a) na else na)"

definition write_define :: "'n yaml \<Rightarrow> LogDefine \<Rightarrow> 'n res" where
  "write_define Y i =
     (let n = put_level Y (ld_level i) (put_string Y ''name'' (ld_name i) (y_node Y));
          n = (if ld_formatter i = [] then put_string Y ''formatter'' (ld_formatter i) n else n)
      in rfold (\<lambda>a. push_at Y ''appenders'' (write_appender Y a)) (ld_appenders i) n)"

definition LogDefines_to_string :: "'n yaml \<Rightarrow> log_defines \<Rightarrow> string res" where
  "LogDefines_to_string Y var = rbind
     (rfold (\<lambda>i node. rbind (write_define Y i) (\<lambda>n. Inr (y_push Y node n))) var (y_node Y))
     (\<lambda>node. Inr (y_emit Y node))"

text \<open>The toYamlString methods; both subclasses of LogAppender write the same keys but for "file".\<close>

definition appender_node :: "'n yaml \<Rightarrow> appender \<Rightarrow> 'n" where
  "appender_node Y ap =
     (let node = (case ap_kind ap of
            FileLogAppender f \<Rightarrow> put_string Y ''file'' f (put_string Y ''type'' ''FileLogAppender'' (y_node Y))
          | StdoutLogAppender \<Rightarrow> put_string Y ''type'' ''StdoutLogAppender'' (y_node Y));
          node = put_level Y (ap_level ap) node
      in case ap_formatter ap of
           Some fm \<Rightarrow> if ap_hasFormatter ap then put_string Y ''formatter'' (f_pattern fm) node else node
         | None \<Rightarrow> node)"

definition LogAppender_toYamlString :: "'n yaml \<Rightarrow> nat \<Rightarrow> world \<Rightarrow> (string \<times> world) res" where
  "LogAppender_toYamlString Y a w = rbind (lock_appender a w) (\<lambda>w1.
     case get_appender w1 a of
       None \<Rightarrow> Inl (Null_Deref ''LogAppender'')
     | Some ap \<Rightarrow> Inr (y_emit Y (appender_node Y ap), unlock_appender a w1))"

definition Logger_toYamlString :: "'n yaml \<Rightarrow> nat \<Rightarrow> world \<Rightarrow> (string \<times> world) res" where
  "Logger_toYamlString Y l w = rbind (lock_logger l w) (\<lambda>w1.
     case get_logger w1 l of
       None \<Rightarrow> Inl (Null_Deref ''Logger'')
     | Some lg \<Rightarrow>
         (let node = put_level Y (lg_level lg) (put_string Y ''name'' (lg_name lg) (y_node Y));
              node = (case lg_formatter lg of Some fm \<Rightarrow> put_string Y ''formatter'' (f_pattern fm) node | None \<Rightarrow> node)
          in rbind (rfold (\<lambda>a (n, w). rbind (LogAppender_toYamlString Y a w) (\<lambda>(s, w').
                 rbind (or_throw (y_load Y s)) (\<lambda>x. rbind (push_at Y ''appenders'' x n) (\<lambda>n'. Inr (n', w')))))
               (lg_appenders lg) (node, w1))
             (\<lambda>(n, w2). Inr (y_emit Y n, unlock_logger l w2))))"

definition LoggerManager_toYamlString :: "'n yaml \<Rightarrow> world \<Rightarrow> (string \<times> world) res" where
  "LoggerManager_toYamlString Y w = rbind (lock_manager w) (\<lambda>w1.
     rbind (rfold (\<lambda>(name, l) (n, w). rbind (Logger_toYamlString Y l w) (\<lambda>(s, w').
           rbind (or_throw (y_load Y s)) (\<lambda>x. Inr (y_push Y n x, w'))))
         (mg_loggers (w_mgr w1)) (y_node Y, w1))
       (\<lambda>(n, w2). Inr (y_emit Y n, unlock_manager w2)))"

section \<open>The listener of LogIniter\<close>

text \<open>LOG_ROOT() as a log interface; every record carries the same file and line here.\<close>

definition root_log :: "string \<Rightarrow> 32 word \<Rightarrow> world log_api" where
  "root_log file line = \<lparr>
     la_enabled = (\<lambda>level w. case get_logger w (LoggerManager_getRoot w) of None \<Rightarrow> False | Some lg \<Rightarrow> lg_level lg \<le> level),
     la_write = (\<lambda>level msg w. of_res (LOG_LEVEL (LoggerManager_getRoot w) level file line msg w))\<rparr>"

text \<open>The loop over the appenders of a definition; \<open>where\<close> is the text of __FILE__ and __LINE__.\<close>

definition configure_appender :: "string \<Rightarrow> string \<Rightarrow> nat \<Rightarrow> LogAppenderDefine \<Rightarrow> world \<Rightarrow> world res" where
  "configure_appender place name l d w0 =
     rbind (if ad_type d = 1 then new_FileLogAppender (ad_file d) w0
            else if ad_type d = 2 then Inr (new_StdoutLogAppender w0)
            else Inl (Null_Deref ''ap'')) (\<lambda>(ap, w).
     rbind (LogAppender_setLevel ap (ad_level d) w) (\<lambda>w.
     rbind (if ad_formatter d \<noteq> [] then
              (let fmt = LogFormatter (ad_formatter d); w = print (parse_report (ad_formatter d)) w in
               if \<not> f_error fmt then LogAppender_setFormatter ap (Some fmt) w
               else Inr (print (nl @ place @ nl @ ''log.name'' @ name @ '' appender type = '' @ show_int (ad_type d) @
                      '' formatter = '' @ ad_formatter d @ ''is invaild'' @ nl) w))
            else Inr w)
       (Logger_addAppender l ap)))"

definition configure_logger :: "string \<Rightarrow> nat \<Rightarrow> LogDefine \<Rightarrow> world \<Rightarrow> world res" where
  "configure_logger place l i w0 =
     rbind (Logger_setLevel l (ld_level i) w0) (\<lambda>w.
     rbind (if ld_formatter i \<noteq> [] then Logger_setFormatter_str l (ld_formatter i) w else Inr w) (\<lambda>w.
     rbind (Logger_clearAppenders l w)
       (rfold (configure_appender place (ld_name i) l) (ld_appenders i))))"

text \<open>One round of the loop over new_value; a definition that did not change leaves the pointer null.\<close>

definition apply_define :: "string \<Rightarrow> log_defines \<Rightarrow> LogDefine \<Rightarrow> world \<Rightarrow> world res" where
  "apply_define place old_value i w =
     rbind (case lds_find old_value i of
              None \<Rightarrow> rbind (LoggerManager_getLogger (ld_name i) (print (''new name :'' @ ld_name i @ nl) w))
                (\<lambda>(l, w1). Inr (Some l, w1))
            | Some d \<Rightarrow>
                if i \<noteq> d then rbind (LoggerManager_getLogger (ld_name i) w) (\<lambda>(l, w1). Inr (Some l, w1))
                else Inr (None, w))
       (\<lambda>(logger, w1). case logger of
          None \<Rightarrow> Inl (Null_Deref ''logger'') | Some l \<Rightarrow> configure_logger place l i w1)"

text \<open>
  The loop over old_value. An iterator is the container it points into and a position; the code
  compares the iterator of a search in new_value with the end of old_value.
\<close>

datatype lds_container = Old_Value | New_Value

type_synonym lds_iterator = "lds_container \<times> nat"

fun lds_position :: "log_defines \<Rightarrow> LogDefine \<Rightarrow> nat" where
  "lds_position [] d = 0"
| "lds_position (x # xs) d = (if \<not> ld_less x d \<and> \<not> ld_less d x then 0 else Suc (lds_position xs d))"

definition lds_find_iter :: "lds_container \<Rightarrow> log_defines \<Rightarrow> LogDefine \<Rightarrow> lds_iterator" where
  "lds_find_iter c ds d = (c, lds_position ds d)"

definition lds_end :: "lds_container \<Rightarrow> log_defines \<Rightarrow> lds_iterator" where
  "lds_end c ds = (c, length ds)"

definition retire_define :: "log_defines \<Rightarrow> log_defines \<Rightarrow> LogDefine \<Rightarrow> world \<Rightarrow> world res" where
  "retire_define old_value new_value i w = (let it = lds_find_iter New_Value new_value i in
     if it = lds_end Old_Value old_value then
       rbind (LoggerManager_getLogger (ld_name i) w) (\<lambda>(l, w1).
         rbind (Logger_setLevel l LEVEL_100 w1) (Logger_clearAppenders l))
     else Inr w)"

definition on_logger_conf_changed :: "string \<Rightarrow> string \<Rightarrow> 32 word \<Rightarrow> log_defines \<Rightarrow> log_defines \<Rightarrow> world \<Rightarrow> world res" where
  "on_logger_conf_changed place file line old_value new_value w =
     rbind (LOG_LEVEL (LoggerManager_getRoot w) INFO file line ''on_logger_conf_changed'' w) (\<lambda>w1.
     rbind (rfold (apply_define place old_value) new_value w1)
       (rfold (retire_define old_value new_value) old_value))"

definition logs_listener :: "string \<Rightarrow> string \<Rightarrow> 32 word \<Rightarrow> (log_defines, world) on_change_back" where
  "logs_listener place file line =
     Some (\<lambda>old_value new_value w. of_res (on_logger_conf_changed place file line old_value new_value w))"


section \<open>Sets of definitions\<close>

lemma lds_find_name: "lds_find ds d = Some x \<Longrightarrow> x \<in> set ds \<and> ld_name x = ld_name d"
  by (induction ds) (auto simp: ld_less_def split: if_splits)

lemma lds_find_member: "lds_ok ds \<Longrightarrow> x \<in> set ds \<Longrightarrow> ld_name d = ld_name x \<Longrightarrow> lds_find ds d = Some x"
  by (induction ds) (auto simp: lds_ok_def ld_less_def)

lemma lds_insert_set: "set (lds_insert d ds) \<subseteq> insert d (set ds)"
  by (induction ds) auto

lemma lds_ok_insert: "lds_ok ds \<Longrightarrow> lds_ok (lds_insert d ds)"
proof (induction ds)
  case (Cons x xs)
  then show ?case
    using lds_insert_set [of d xs] by (fastforce simp: lds_ok_def ld_less_def)
qed (simp add: lds_ok_def)

lemma lds_ok_distinct: "lds_ok ds \<Longrightarrow> distinct (map ld_name ds)"
  by (induction ds) (auto simp: lds_ok_def ld_less_def)

lemma retire_define_dead: "retire_define old_value new_value i w = Inr w"
  by (simp add: retire_define_def lds_find_iter_def lds_end_def)

lemma retire_all_dead: "rfold (retire_define old_value new_value) ds w = Inr w"
  by (induction ds) (simp_all add: retire_define_dead)

section \<open>The root logger meets the contract of the registry\<close>

lemma reports_of_res: "fine r \<Longrightarrow> reports world_ok (of_res r)"
  by (cases r) (auto simp: fine_def safe_def)

lemma LOG_LEVEL_root_fine: "world_ok w \<Longrightarrow> fine (LOG_LEVEL (LoggerManager_getRoot w) level file line msg w)"
proof -
  assume ok: "world_ok w"
  then obtain lg where "get_logger w (LoggerManager_getRoot w) = Some lg"
    by (auto simp: world_ok_def registry_ok_def LoggerManager_getRoot_def)
  then show ?thesis by (simp add: LOG_LEVEL_eq fine_log [OF ok])
qed

interpretation root_logger: reporter "root_log f n" world_ok for f n
  by unfold_locales (simp add: root_log_def reports_of_res LOG_LEVEL_root_fine)

section \<open>What configuring a logger does\<close>

definition define_kind :: "LogAppenderDefine \<Rightarrow> appender_kind" where
  "define_kind d = (if ad_type d = 1 then FileLogAppender (ad_file d) else StdoutLogAppender)"

definition typed :: "LogAppenderDefine \<Rightarrow> bool" where
  "typed d \<longleftrightarrow> ad_type d = 1 \<or> ad_type d = 2"

text \<open>Other loggers stay, other appenders keep all but their streams.\<close>

definition grows :: "nat \<Rightarrow> world \<Rightarrow> world \<Rightarrow> bool" where
  "grows l w w' \<longleftrightarrow> (\<forall>k. k \<noteq> l \<longrightarrow> get_logger w' k = get_logger w k) \<and> w_mgr w' = w_mgr w \<and>
     (\<forall>b ap. get_appender w b = Some ap \<longrightarrow> (\<exists>ap'. get_appender w' b = Some ap' \<and> ap_core ap' = ap_core ap))"

lemma grows_refl: "grows l w w"
  by (simp add: grows_def)

lemma grows_trans: "grows l w w' \<Longrightarrow> grows l w' w'' \<Longrightarrow> grows l w w''"
  unfolding grows_def by metis

lemma grows_frame: "frame w w' \<Longrightarrow> grows l w w'"
  unfolding grows_def using frame_get_appender [of w w'] frame_get_logger [of w w'] by (simp add: frame_def)

lemma new_appender_grows:
  assumes ok: "world_ok w" and new: "new_appender k w = (a, w')"
  shows "world_ok w'" and "grows l w w'" and "get_logger w' l = get_logger w l" and "get_appender w a = None"
    and "\<exists>ap. get_appender w' a = Some ap \<and> ap_core ap = (k, DEBUG, False, None, False)"
proof -
  let ?ap = "\<lparr>ap_kind = k, ap_level = DEBUG, ap_hasFormatter = False, ap_formatter = None,
         ap_mutex = False, ap_filestream = of_new, ap_lastTime = 0\<rparr>"
  from new have a: "a = length (w_appenders w)" and w': "w' = w\<lparr>w_appenders := w_appenders w @ [?ap]\<rparr>"
    by (auto simp: new_appender_def)
  have ga: "get_appender w' b = (if b = a then Some ?ap else get_appender w b)" for b
    by (auto simp: a w' get_appender_def nth_append)
  have gl: "get_logger w' m = get_logger w m" for m by (simp add: w' get_logger_def)
  show none: "get_appender w a = None" by (simp add: a get_appender_def)
  show "world_ok w'" unfolding w' by (rule world_ok_new_appender [OF ok]) (simp add: appender_ok_def)
  have mgr: "w_mgr w' = w_mgr w" by (simp add: w')
  have "\<exists>x'. get_appender w' b = Some x' \<and> ap_core x' = ap_core x" if b: "get_appender w b = Some x" for b x
  proof -
    have "b \<noteq> a" using b none by (metis option.distinct(1))
    then have "get_appender w' b = Some x" using b by (simp only: ga if_False)
    then show ?thesis by blast
  qed
  then show "grows l w w'" unfolding grows_def using gl mgr by blast
  show "get_logger w' l = get_logger w l" by (rule gl)
  show "\<exists>ap. get_appender w' a = Some ap \<and> ap_core ap = (k, DEBUG, False, None, False)"
    by (simp add: ga ap_core_def)
qed

definition make_appender :: "LogAppenderDefine \<Rightarrow> world \<Rightarrow> (nat \<times> world) res" where
  "make_appender d w = (if ad_type d = 1 then new_FileLogAppender (ad_file d) w
     else if ad_type d = 2 then Inr (new_StdoutLogAppender w) else Inl (Null_Deref ''ap''))"

lemma make_appender_effect:
  assumes ok: "world_ok w" and ty: "typed d"
  shows "\<exists>a w' ap. make_appender d w = Inr (a, w') \<and> world_ok w' \<and> grows l w w' \<and> get_logger w' l = get_logger w l \<and>
    get_appender w a = None \<and> get_appender w' a = Some ap \<and> ap_core ap = (define_kind d, DEBUG, False, None, False)"
proof (cases "ad_type d = 1")
  case False
  obtain a w1 where new: "new_appender StdoutLogAppender w = (a, w1)" by fastforce
  with False ty have "make_appender d w = Inr (a, w1)" and "define_kind d = StdoutLogAppender"
    by (simp_all add: make_appender_def typed_def new_StdoutLogAppender_def define_kind_def)
  with new_appender_grows [OF ok new] show ?thesis by auto
next
  case True
  obtain a w1 where new: "new_appender (FileLogAppender (ad_file d)) w = (a, w1)" by fastforce
  from new_appender_grows [OF ok new] obtain ap
    where w1: "world_ok w1" "grows l w w1" "get_logger w1 l = get_logger w l" "get_appender w a = None"
      and ap: "get_appender w1 a = Some ap" "ap_core ap = (FileLogAppender (ad_file d), DEBUG, False, None, False)"
    by auto
  from ap(2) have "\<not> ap_mutex ap" by (simp add: ap_core_def)
  from reopen_returns [OF ap(1) this] obtain b w2 where re: "FileLogAppender_reopen a w1 = Inr (b, w2)" by blast
  have fr: "frame w1 w2" by (rule reopen_frame [OF re])
  from frame_get_appender [OF fr ap(1)] obtain ap2 where "get_appender w2 a = Some ap2" "ap_core ap2 = ap_core ap" by blast
  moreover have "make_appender d w = Inr (a, w2)"
    using True new re by (simp add: make_appender_def new_FileLogAppender_def)
  moreover have "world_ok w2" by (rule world_ok_frame [OF w1(1) fr])
  moreover have "grows l w w2" by (rule grows_trans [OF w1(2) grows_frame [OF fr]])
  ultimately show ?thesis
    using True w1 ap(2) frame_get_logger [OF fr] by (auto simp: define_kind_def)
qed


text \<open>One appender definition adds one appender, with its own formatter or the logger's.\<close>

definition appender_configured :: "world \<Rightarrow> logger \<Rightarrow> nat \<Rightarrow> LogAppenderDefine \<Rightarrow> bool" where
  "appender_configured w lg a d \<longleftrightarrow> (\<exists>ap. get_appender w a = Some ap \<and> ap_kind ap = define_kind d \<and>
     ap_level ap = ad_level d \<and>
     ap_formatter ap = (if ad_formatter d \<noteq> [] \<and> \<not> f_error (LogFormatter (ad_formatter d))
       then Some (LogFormatter (ad_formatter d)) else lg_formatter lg))"

lemma appender_configured_grows:
  "appender_configured w lg a d \<Longrightarrow> grows l w w' \<Longrightarrow> appender_configured w' lg a d"
  unfolding appender_configured_def grows_def ap_core_def by fastforce

lemma grows_put_new:
  assumes "grows l w w1" and "get_appender w a = None"
  shows "grows l w (put_appender a ap w1)"
proof -
  have "\<exists>ap'. get_appender (put_appender a ap w1) b = Some ap' \<and> ap_core ap' = ap_core x"
    if b: "get_appender w b = Some x" for b x
  proof -
    have "b \<noteq> a" using b assms(2) by (metis option.distinct(1))
    moreover obtain ap' where "get_appender w1 b = Some ap'" "ap_core ap' = ap_core x"
      using assms(1) b unfolding grows_def by blast
    ultimately show ?thesis by simp
  qed
  then show ?thesis using assms(1) by (simp add: grows_def)
qed

lemma grows_put_logger: "grows l w w1 \<Longrightarrow> grows l w (put_logger l lg w1)"
  by (simp add: grows_def)

definition format_appender :: "string \<Rightarrow> string \<Rightarrow> nat \<Rightarrow> LogAppenderDefine \<Rightarrow> world \<Rightarrow> world res" where
  "format_appender place name ap d w =
     (if ad_formatter d \<noteq> [] then
        (let fmt = LogFormatter (ad_formatter d); w = print (parse_report (ad_formatter d)) w in
         if \<not> f_error fmt then LogAppender_setFormatter ap (Some fmt) w
         else Inr (print (nl @ place @ nl @ ''log.name'' @ name @ '' appender type = '' @ show_int (ad_type d) @
                '' formatter = '' @ ad_formatter d @ ''is invaild'' @ nl) w))
      else Inr w)"

lemma configure_appender_steps:
  "configure_appender place name l d w = rbind (make_appender d w) (\<lambda>(ap, w).
     rbind (LogAppender_setLevel ap (ad_level d) w) (\<lambda>w.
     rbind (format_appender place name ap d w) (Logger_addAppender l ap)))"
  by (simp add: configure_appender_def make_appender_def format_appender_def)

lemma format_appender_effect:
  assumes ap: "get_appender w a = Some ap" "\<not> ap_mutex ap" "ap_formatter ap = None"
  shows "\<exists>w' ap'. format_appender place name a d w = Inr w' \<and> get_appender w' a = Some ap' \<and>
    (world_ok w \<longrightarrow> world_ok w') \<and> get_logger w' l = get_logger w l \<and>
    (\<forall>w0. grows l w0 w \<longrightarrow> get_appender w0 a = None \<longrightarrow> grows l w0 w') \<and>
    \<not> ap_mutex ap' \<and> ap_kind ap' = ap_kind ap \<and> ap_level ap' = ap_level ap \<and>
    ap_formatter ap' = (if ad_formatter d \<noteq> [] \<and> \<not> f_error (LogFormatter (ad_formatter d))
       then Some (LogFormatter (ad_formatter d)) else None)"
proof (cases "ad_formatter d \<noteq> [] \<and> \<not> f_error (LogFormatter (ad_formatter d))")
  case True
  let ?fm = "Some (LogFormatter (ad_formatter d))"
  let ?ap = "ap\<lparr>ap_formatter := ?fm, ap_hasFormatter := True\<rparr>"
  have "format_appender place name a d w = Inr (put_appender a ?ap w)"
    using True LogAppender_setFormatter_eq [OF ap(1,2)] by (simp add: format_appender_def Let_def parse_report_quiet)
  moreover have "world_ok (put_appender a ?ap w)" if "world_ok w"
    using ap by (intro world_ok_put_appender [OF that ap(1)]) (simp_all add: appender_ok_def)
  ultimately show ?thesis using ap True by (auto intro: grows_put_new)
next
  case False
  have "\<exists>s. format_appender place name a d w = Inr (print s (print (parse_report (ad_formatter d)) w))" if "ad_formatter d \<noteq> []"
  proof -
    from that False have bad: "f_error (LogFormatter (ad_formatter d))" by simp
    show ?thesis unfolding format_appender_def Let_def if_P [OF that] using bad by (simp only: simp_thms if_False) blast
  qed
  moreover have "format_appender place name a d w = Inr w" if "ad_formatter d = []"
    using that by (simp add: format_appender_def)
  ultimately obtain s where s: "format_appender place name a d w = Inr w \<or> format_appender place name a d w = Inr (print s w)"
    unfolding print_print by blast
  have "world_ok w \<Longrightarrow> world_ok (print s w)" by (rule world_ok_frame [OF _ frame_print])
  moreover have "grows l w0 (print s w)" if "grows l w0 w" for w0
    using grows_trans [OF that grows_frame [OF frame_print]] .
  ultimately show ?thesis using s ap False by auto
qed

lemma configure_appender_effect:
  assumes ok: "world_ok w" and lg: "get_logger w l = Some lg" and ty: "typed d"
  shows "\<exists>a w'. configure_appender place name l d w = Inr w' \<and> world_ok w' \<and> grows l w w' \<and>
    get_logger w' l = Some (lg\<lparr>lg_appenders := lg_appenders lg @ [a]\<rparr>) \<and> appender_configured w' lg a d"
proof -
  from make_appender_effect [OF ok ty, of l] obtain a w1 ap where mk: "make_appender d w = Inr (a, w1)"
    and w1: "world_ok w1" "grows l w w1" "get_logger w1 l = Some lg" "get_appender w a = None"
    and ap: "get_appender w1 a = Some ap" "ap_core ap = (define_kind d, DEBUG, False, None, False)"
    using lg by auto
  let ?ap2 = "ap\<lparr>ap_level := ad_level d\<rparr>"
  let ?w2 = "put_appender a ?ap2 w1"
  have lv: "LogAppender_setLevel a (ad_level d) w1 = Inr ?w2"
    using ap by (simp add: LogAppender_setLevel_def update_appender_def)
  have ok2: "world_ok ?w2"
    using ap(2) by (intro world_ok_put_appender [OF w1(1) ap(1)]) (auto simp: appender_ok_def ap_core_def)
  have g2: "grows l w ?w2" by (rule grows_put_new [OF w1(2,4)])
  have get2: "get_appender ?w2 a = Some ?ap2" "\<not> ap_mutex ?ap2" "ap_formatter ?ap2 = None"
    using ap by (auto simp: ap_core_def)
  from format_appender_effect [OF get2, of place name d l] obtain w3 ap3
    where fm: "format_appender place name a d ?w2 = Inr w3" and ok3: "world_ok w3" and g3: "grows l w w3"
      and lg3: "get_logger w3 l = Some lg" and get3: "get_appender w3 a = Some ap3" "\<not> ap_mutex ap3"
      and ap3: "ap_kind ap3 = ap_kind ap" "ap_level ap3 = ad_level d"
        "ap_formatter ap3 = (if ad_formatter d \<noteq> [] \<and> \<not> f_error (LogFormatter (ad_formatter d))
           then Some (LogFormatter (ad_formatter d)) else None)"
    using ok2 g2 w1(3,4) by auto
  have free: "\<not> lg_mutex lg" using world_ok_logger [OF ok lg] by (simp add: logger_ok_def)
  let ?ap4 = "ap3\<lparr>ap_formatter := (if ap_formatter ap3 = None then lg_formatter lg else ap_formatter ap3)\<rparr>"
  let ?lg4 = "lg\<lparr>lg_appenders := lg_appenders lg @ [a]\<rparr>"
  let ?w4 = "put_appender a ?ap4 (put_logger l ?lg4 w3)"
  have add: "Logger_addAppender l a w3 = Inr ?w4" by (rule Logger_addAppender_eq [OF lg3 free get3])
  have "configure_appender place name l d w = Inr ?w4"
    by (simp add: configure_appender_steps mk lv fm add)
  moreover have "world_ok ?w4"
    using fine_addAppender [OF ok3 lg3 get3(1)] add by (simp add: fine_def)
  moreover have "grows l w ?w4"
    by (rule grows_put_new [OF grows_put_logger [OF g3] w1(4)])
  moreover have "get_logger ?w4 l = Some ?lg4" using lg3 by simp
  moreover have "appender_configured ?w4 lg a d"
    using get3 ap ap3 by (auto simp: appender_configured_def ap_core_def)
  ultimately show ?thesis by blast
qed


text \<open>All appenders of a definition, in order.\<close>

lemma configure_appenders_effect:
  assumes "world_ok w" and "get_logger w l = Some lg" and "\<forall>d \<in> set ds. typed d"
  shows "\<exists>as w'. rfold (configure_appender place name l) ds w = Inr w' \<and> world_ok w' \<and> grows l w w' \<and>
    get_logger w' l = Some (lg\<lparr>lg_appenders := lg_appenders lg @ as\<rparr>) \<and>
    list_all2 (\<lambda>a d. appender_configured w' lg a d) as ds"
  using assms
proof (induction ds arbitrary: w lg)
  case Nil
  then show ?case by (intro exI [of _ "[]"] exI [of _ w]) (simp add: grows_refl)
next
  case (Cons d ds)
  from configure_appender_effect [OF Cons.prems(1,2), of d place name] Cons.prems(3) obtain a w1
    where step: "configure_appender place name l d w = Inr w1" and w1: "world_ok w1" "grows l w w1"
      and lg1: "get_logger w1 l = Some (lg\<lparr>lg_appenders := lg_appenders lg @ [a]\<rparr>)"
      and a: "appender_configured w1 lg a d" by auto
  from Cons.IH [OF w1(1) lg1] Cons.prems(3) obtain as w'
    where rest: "rfold (configure_appender place name l) ds w1 = Inr w'" "world_ok w'" "grows l w1 w'"
      and lg': "get_logger w' l = Some (lg\<lparr>lg_appenders := lg_appenders lg @ a # as\<rparr>)"
      and as: "list_all2 (\<lambda>b d. appender_configured w' (lg\<lparr>lg_appenders := lg_appenders lg @ [a]\<rparr>) b d) as ds"
    by auto
  have same: "appender_configured w' (lg\<lparr>lg_appenders := xs\<rparr>) = appender_configured w' lg" for xs
    by (simp add: appender_configured_def fun_eq_iff)
  from as have "list_all2 (\<lambda>a d. appender_configured w' lg a d) as ds" by (simp add: same)
  moreover have "appender_configured w' lg a d" by (rule appender_configured_grows [OF a rest(3)])
  ultimately show ?case
    using step rest lg' grows_trans [OF w1(2) rest(3)] by (intro exI [of _ "a # as"] exI [of _ w']) simp
qed

text \<open>A whole definition. \<open>kept l w w'\<close>: other loggers stay, appenders keep their kind and level.\<close>

definition kept :: "nat \<Rightarrow> world \<Rightarrow> world \<Rightarrow> bool" where
  "kept l w w' \<longleftrightarrow> (\<forall>k. k \<noteq> l \<longrightarrow> get_logger w' k = get_logger w k) \<and> w_mgr w' = w_mgr w \<and>
     (\<forall>b ap. get_appender w b = Some ap \<longrightarrow>
        (\<exists>ap'. get_appender w' b = Some ap' \<and> ap_kind ap' = ap_kind ap \<and> ap_level ap' = ap_level ap))"

lemma kept_refl: "kept l w w"
  by (simp add: kept_def)

lemma kept_trans: "kept l w w' \<Longrightarrow> kept l w' w'' \<Longrightarrow> kept l w w''"
  unfolding kept_def by metis

lemma kept_grows: "grows l w w' \<Longrightarrow> kept l w w'"
  unfolding grows_def kept_def ap_core_def by fastforce

lemma kept_put_logger: "kept l w (put_logger l lg w)"
  by (simp add: kept_def)

definition valid_pattern :: "string \<Rightarrow> bool" where
  "valid_pattern p \<longleftrightarrow> p \<noteq> [] \<and> \<not> f_error (LogFormatter p)"

lemma setPattern_effect:
  assumes ok: "world_ok w" and lg: "get_logger w l = Some lg"
  shows "\<exists>w'. Logger_setFormatter_str l p w = Inr w' \<and> world_ok w' \<and> kept l w w' \<and>
    get_logger w' l = Some (lg\<lparr>lg_formatter := (if f_error (LogFormatter p) then lg_formatter lg else Some (LogFormatter p))\<rparr>)"
proof (cases "f_error (LogFormatter p)")
  case True
  then obtain s where run: "Logger_setFormatter_str l p w = Inr (print s w)"
    using lg by (simp add: Logger_setFormatter_str_def Let_def print_print)
  have "world_ok (print s w)" "kept l w (print s w)"
    using world_ok_frame [OF ok frame_print] kept_grows [OF grows_frame [OF frame_print]] .
  with run True lg show ?thesis by simp
next
  case False
  let ?w1 = "print (parse_report p) (print (''---'' @ p @ nl) w)"
  have ok1: "world_ok ?w1" unfolding print_print by (rule world_ok_frame [OF ok frame_print])
  have lg1: "get_logger ?w1 l = Some lg" using lg by simp
  have lok: "logger_ok ?w1 lg" by (rule world_ok_logger [OF ok1 lg1])
  then have aps: "\<forall>a \<in> set (lg_appenders lg). \<exists>ap. get_appender ?w1 a = Some ap \<and> \<not> ap_mutex ap"
    by (auto simp: logger_ok_def ready_def)
  let ?fm = "Some (LogFormatter p)"
  let ?g = "\<lambda>b ap. if b \<in> set (lg_appenders lg) \<and> \<not> ap_hasFormatter ap then ap\<lparr>ap_formatter := ?fm\<rparr> else ap"
  from Logger_setFormatter_effect [OF lg1 _ aps, of ?fm] lok obtain w'
    where w': "Logger_setFormatter l ?fm ?w1 = Inr w'" and eq: "w' = ?w1\<lparr>w_appenders := w_appenders w', w_loggers := w_loggers w'\<rparr>"
      and ls: "w_loggers w' = w_loggers (put_logger l (lg\<lparr>lg_formatter := ?fm\<rparr>) ?w1)"
      and ga: "\<And>b. get_appender w' b = map_option (?g b) (get_appender ?w1 b)"
    unfolding logger_ok_def by blast
  have gl: "get_logger w' k = get_logger (put_logger l (lg\<lparr>lg_formatter := ?fm\<rparr>) ?w1) k" for k
    by (simp only: get_logger_def ls)
  have run: "Logger_setFormatter_str l p w = Inr w'"
    using False w' by (simp add: Logger_setFormatter_str_def Let_def)
  then have "world_ok w'" using fine_setPattern [OF ok lg, of p] by (simp add: fine_def)
  moreover have "w_mgr w' = w_mgr w" by (subst eq) simp
  then have "kept l w w'" by (auto simp: kept_def gl ga)
  ultimately show ?thesis using run False lg gl [of l] by simp
qed

definition logger_configured :: "world \<Rightarrow> logger \<Rightarrow> LogDefine \<Rightarrow> bool" where
  "logger_configured w lg i \<longleftrightarrow> lg_name lg = ld_name i \<and> lg_level lg = ld_level i \<and>
     (valid_pattern (ld_formatter i) \<longrightarrow> lg_formatter lg = Some (LogFormatter (ld_formatter i))) \<and>
     list_all2 (\<lambda>a d. appender_configured w lg a d) (lg_appenders lg) (ld_appenders i)"

lemma configure_logger_effect:
  assumes ok: "world_ok w" and lg: "get_logger w l = Some lg" and name: "lg_name lg = ld_name i"
    and ty: "\<forall>d \<in> set (ld_appenders i). typed d"
  shows "\<exists>w' lg'. configure_logger place l i w = Inr w' \<and> world_ok w' \<and> kept l w w' \<and>
    get_logger w' l = Some lg' \<and> lg_root lg' = lg_root lg \<and> logger_configured w' lg' i"
proof -
  let ?lg1 = "lg\<lparr>lg_level := ld_level i\<rparr>"
  let ?w1 = "put_logger l ?lg1 w"
  have s1: "Logger_setLevel l (ld_level i) w = Inr ?w1" using lg by (simp add: Logger_setLevel_def update_logger_def)
  have ok1: "world_ok ?w1" using fine_logger_setters(1) [OF ok lg] s1 by (simp add: fine_def)
  have lg1: "get_logger ?w1 l = Some ?lg1" using lg by simp
  let ?fm = "if valid_pattern (ld_formatter i) then Some (LogFormatter (ld_formatter i)) else lg_formatter lg"
  obtain w2 where s2: "(if ld_formatter i \<noteq> [] then Logger_setFormatter_str l (ld_formatter i) ?w1 else Inr ?w1) = Inr w2"
    and ok2: "world_ok w2" and k2: "kept l ?w1 w2" and lg2: "get_logger w2 l = Some (?lg1\<lparr>lg_formatter := ?fm\<rparr>)"
  proof (cases "ld_formatter i = []")
    case True
    with ok1 lg1 that [of ?w1] kept_refl show thesis by (simp add: valid_pattern_def)
  next
    case False
    from setPattern_effect [OF ok1 lg1, of "ld_formatter i"] False that show thesis
      by (auto simp: valid_pattern_def split: if_splits)
  qed
  have free2: "\<not> lg_mutex (?lg1\<lparr>lg_formatter := ?fm\<rparr>)" using world_ok_logger [OF ok2 lg2] unfolding logger_ok_def by blast
  let ?lg3 = "?lg1\<lparr>lg_formatter := ?fm, lg_appenders := []\<rparr>"
  let ?w3 = "put_logger l ?lg3 w2"
  have s3: "Logger_clearAppenders l w2 = Inr ?w3" using Logger_clearAppenders_eq [OF lg2 free2] by simp
  have ok3: "world_ok ?w3" using fine_logger_setters(3) [OF ok2 lg2] s3 by (simp add: fine_def)
  have lg3: "get_logger ?w3 l = Some ?lg3" using lg2 by simp
  from configure_appenders_effect [OF ok3 lg3 ty, of place "ld_name i"] obtain as w4
    where s4: "rfold (configure_appender place (ld_name i) l) (ld_appenders i) ?w3 = Inr w4" and ok4: "world_ok w4"
      and g4: "grows l ?w3 w4" and lg4: "get_logger w4 l = Some (?lg3\<lparr>lg_appenders := as\<rparr>)"
      and as: "list_all2 (\<lambda>a d. appender_configured w4 ?lg3 a d) as (ld_appenders i)" by auto
  have "appender_configured w4 (?lg3\<lparr>lg_appenders := as\<rparr>) = appender_configured w4 ?lg3"
    by (simp add: appender_configured_def fun_eq_iff)
  with as name have "logger_configured w4 (?lg3\<lparr>lg_appenders := as\<rparr>) i" by (simp add: logger_configured_def)
  moreover have "configure_logger place l i w = Inr w4"
    unfolding configure_logger_def s1 rbind_Inr s2 s3 s4 ..
  moreover have "kept l w w4"
    by (rule kept_trans [OF kept_trans [OF kept_put_logger k2] kept_trans [OF kept_put_logger kept_grows [OF g4]]])
  ultimately show ?thesis using ok4 lg4 by (intro exI [of _ w4] exI [of _ "?lg3\<lparr>lg_appenders := as\<rparr>"]) simp
qed


section \<open>A change of the variable "logs"\<close>

definition logger_shaped :: "world \<Rightarrow> logger \<Rightarrow> LogDefine \<Rightarrow> bool" where
  "logger_shaped w lg i \<longleftrightarrow> lg_level lg = ld_level i \<and>
     list_all2 (\<lambda>a d. \<exists>ap. get_appender w a = Some ap \<and> ap_kind ap = define_kind d \<and> ap_level ap = ad_level d)
       (lg_appenders lg) (ld_appenders i)"

text \<open>The manager finds a logger under the definition's name that looks as the definition says.\<close>

definition in_force :: "world \<Rightarrow> LogDefine \<Rightarrow> bool" where
  "in_force w i \<longleftrightarrow> (\<exists>l lg. om_find (mg_loggers (w_mgr w)) (ld_name i) = Some l \<and> get_logger w l = Some lg \<and>
     logger_shaped w lg i)"

lemma logger_shaped_kept: "logger_shaped w lg i \<Longrightarrow> kept l w w' \<Longrightarrow> logger_shaped w' lg i"
proof -
  assume sh: "logger_shaped w lg i" and k: "kept l w w'"
  have "\<exists>ap'. get_appender w' a = Some ap' \<and> ap_kind ap' = define_kind d \<and> ap_level ap' = ad_level d"
    if "\<exists>ap. get_appender w a = Some ap \<and> ap_kind ap = define_kind d \<and> ap_level ap = ad_level d" for a d
    using that k unfolding kept_def by metis
  with sh show ?thesis unfolding logger_shaped_def by (auto elim!: list_all2_mono)
qed

lemma logger_configured_shaped: "logger_configured w lg i \<Longrightarrow> logger_shaped w lg i"
  by (auto simp: logger_configured_def logger_shaped_def appender_configured_def elim!: list_all2_mono)

lemma getLogger_extends:
  assumes ok: "world_ok w" and get: "LoggerManager_getLogger name w = Inr (l, w')"
  shows "get_logger w k = Some lg \<Longrightarrow> get_logger w' k = Some lg" and "get_appender w' a = get_appender w a"
    and "n \<noteq> name \<Longrightarrow> om_find (mg_loggers (w_mgr w')) n = om_find (mg_loggers (w_mgr w)) n"
proof -
  have "w' = w \<or> w' = w\<lparr>w_loggers := w_loggers w @ [fresh_logger name w],
      w_mgr := (w_mgr w)\<lparr>mg_loggers := om_put name (length (w_loggers w)) (mg_loggers (w_mgr w))\<rparr>\<rparr>"
    using getLogger_known [OF ok] getLogger_new [OF ok] get
    by (cases "om_find (mg_loggers (w_mgr w)) name") auto
  then show "get_logger w k = Some lg \<Longrightarrow> get_logger w' k = Some lg" and "get_appender w' a = get_appender w a"
    and "n \<noteq> name \<Longrightarrow> om_find (mg_loggers (w_mgr w')) n = om_find (mg_loggers (w_mgr w)) n"
    by (auto simp: get_logger_def get_appender_def nth_append om.find_put split: if_splits)
qed

lemma getLogger_in_force:
  assumes ok: "world_ok w" and get: "LoggerManager_getLogger name w = Inr (l, w')"
    and "ld_name j \<noteq> name" and "in_force w j"
  shows "in_force w' j"
proof -
  from assms(4) obtain k lg where k: "om_find (mg_loggers (w_mgr w)) (ld_name j) = Some k" "get_logger w k = Some lg"
    "logger_shaped w lg j" by (auto simp: in_force_def)
  have "logger_shaped w' lg j"
    using k(3) unfolding logger_shaped_def getLogger_extends(2) [OF ok get] .
  with k show ?thesis
    unfolding in_force_def getLogger_extends(3) [OF ok get assms(3)] using getLogger_extends(1) [OF ok get] by blast
qed

lemma kept_in_force:
  assumes ok: "world_ok w" and reg: "om_find (mg_loggers (w_mgr w)) name = Some l"
    and k: "kept l w w'" and ne: "ld_name j \<noteq> name" and inf: "in_force w j"
  shows "in_force w' j"
proof -
  from inf obtain m lg where m: "om_find (mg_loggers (w_mgr w)) (ld_name j) = Some m" "get_logger w m = Some lg"
    "logger_shaped w lg j" by (auto simp: in_force_def)
  have names: "\<exists>lg. get_logger w x = Some lg \<and> lg_name lg = n" if "om_find (mg_loggers (w_mgr w)) n = Some x" for n x
    using world_ok_registry [OF ok] that unfolding registry_ok_def by blast
  have "m \<noteq> l" using names [OF reg] names [OF m(1)] ne by (metis option.inject)
  with m k have "om_find (mg_loggers (w_mgr w')) (ld_name j) = Some m" "get_logger w' m = Some lg"
    by (auto simp: kept_def)
  with logger_shaped_kept [OF m(3) k] show ?thesis unfolding in_force_def by blast
qed

lemma print_in_force: "in_force (print s w) j = in_force w j"
  by (simp add: in_force_def logger_shaped_def)

text \<open>One definition put in force: the named logger is rebuilt, loggers of other names stay in force.\<close>

lemma apply_define_effect:
  assumes ok: "world_ok w" and new: "lds_find old i \<noteq> Some i" and ty: "\<forall>d \<in> set (ld_appenders i). typed d"
  shows "\<exists>w'. apply_define place old i w = Inr w' \<and> world_ok w' \<and>
    (\<exists>l lg. om_find (mg_loggers (w_mgr w')) (ld_name i) = Some l \<and> get_logger w' l = Some lg \<and> logger_configured w' lg i) \<and>
    (\<forall>j. ld_name j \<noteq> ld_name i \<longrightarrow> in_force w j \<longrightarrow> in_force w' j)"
proof -
  let ?w0 = "if lds_find old i = None then print (''new name :'' @ ld_name i @ nl) w else w"
  have ok0: "world_ok ?w0" using ok world_ok_frame [OF ok frame_print] by simp
  have in0: "in_force ?w0 j = in_force w j" for j by (simp add: print_in_force)
  from getLogger_ok [OF ok0, of "ld_name i"] obtain l w1 lg where get: "LoggerManager_getLogger (ld_name i) ?w0 = Inr (l, w1)"
    and ok1: "world_ok w1" and lg: "get_logger w1 l = Some lg" "lg_name lg = ld_name i"
    and reg: "om_find (mg_loggers (w_mgr w1)) (ld_name i) = Some l" by blast
  from configure_logger_effect [OF ok1 lg ty, of place] obtain w2 lg2
    where cf: "configure_logger place l i w1 = Inr w2" and ok2: "world_ok w2" and k: "kept l w1 w2"
      and lg2: "get_logger w2 l = Some lg2" "logger_configured w2 lg2 i" by blast
  have "apply_define place old i w = Inr w2"
    using get cf new by (cases "lds_find old i") (auto simp: apply_define_def)
  moreover have "om_find (mg_loggers (w_mgr w2)) (ld_name i) = Some l" using reg k by (simp add: kept_def)
  moreover have "in_force w2 j" if "ld_name j \<noteq> ld_name i" "in_force w j" for j
    using kept_in_force [OF ok1 reg k that(1) getLogger_in_force [OF ok0 get that(1)]] that(2) in0 by blast
  ultimately show ?thesis using ok2 lg2 by blast
qed

lemma apply_defines_effect:
  assumes "world_ok w" and "distinct (map ld_name ds)" and "\<forall>i \<in> set ds. lds_find old i \<noteq> Some i"
    and "\<forall>i \<in> set ds. \<forall>d \<in> set (ld_appenders i). typed d"
  shows "\<exists>w'. rfold (apply_define place old) ds w = Inr w' \<and> world_ok w' \<and> (\<forall>i \<in> set ds. in_force w' i) \<and>
    (\<forall>j. ld_name j \<notin> ld_name ` set ds \<longrightarrow> in_force w j \<longrightarrow> in_force w' j)"
  using assms
proof (induction ds arbitrary: w)
  case Nil
  then show ?case by simp
next
  case (Cons i ds)
  from apply_define_effect [of w old i place] Cons.prems obtain w1 l lg where step: "apply_define place old i w = Inr w1"
    and ok1: "world_ok w1" and reg: "om_find (mg_loggers (w_mgr w1)) (ld_name i) = Some l" "get_logger w1 l = Some lg"
    and cf: "logger_configured w1 lg i"
    and others: "\<And>j. ld_name j \<noteq> ld_name i \<Longrightarrow> in_force w j \<Longrightarrow> in_force w1 j" by auto
  have "in_force w1 i" using reg logger_configured_shaped [OF cf] by (auto simp: in_force_def)
  moreover from Cons.IH [OF ok1] Cons.prems obtain w' where rest: "rfold (apply_define place old) ds w1 = Inr w'"
    "world_ok w'" "\<forall>i \<in> set ds. in_force w' i" "\<And>j. ld_name j \<notin> ld_name ` set ds \<Longrightarrow> in_force w1 j \<Longrightarrow> in_force w' j" by auto
  moreover have "ld_name i \<notin> ld_name ` set ds" using Cons.prems(2) by auto
  ultimately have "\<forall>j \<in> set (i # ds). in_force w' j" by auto
  moreover have "in_force w' j" if "ld_name j \<notin> ld_name ` set (i # ds)" "in_force w j" for j
    using that others rest(4) by auto
  ultimately show ?case using step rest(1,2) by auto
qed

text \<open>An unchanged definition ends the process.\<close>

lemma apply_define_unchanged: "lds_find old i = Some i \<Longrightarrow> apply_define place old i w = Inl (Null_Deref ''logger'')"
  by (simp add: apply_define_def)

lemma rfold_first_fault:
  "rfold f xs s = Inr s' \<Longrightarrow> f y s' = Inl e \<Longrightarrow> rfold f (xs @ y # ys) s = Inl e"
  by (simp add: rfold_append)

lemma frame_in_force:
  assumes fr: "frame w w'" and inf: "in_force w j"
  shows "in_force w' j"
proof -
  from inf obtain l lg where reg: "om_find (mg_loggers (w_mgr w)) (ld_name j) = Some l" and lg: "get_logger w l = Some lg"
    and sh: "logger_shaped w lg j" by (auto simp: in_force_def)
  have "kept l w w'" by (rule kept_grows [OF grows_frame [OF fr]])
  with reg lg logger_shaped_kept [OF sh this] frame_get_logger [OF fr] show ?thesis
    unfolding in_force_def kept_def by metis
qed

text \<open>A report to the root logger leaves everything but the output alone.\<close>

lemma root_report:
  assumes "world_ok w"
  shows "(\<exists>w1. LOG_LEVEL (LoggerManager_getRoot w) level file line msg w = Inr w1 \<and> world_ok w1 \<and> frame w w1) \<or>
    LOG_LEVEL (LoggerManager_getRoot w) level file line msg w = Inl date_fault"
proof -
  from assms obtain lg where lg: "get_logger w (LoggerManager_getRoot w) = Some lg"
    by (auto simp: world_ok_def registry_ok_def LoggerManager_getRoot_def)
  have "frame w w1" if "LOG_LEVEL (LoggerManager_getRoot w) level file line msg w = Inr w1" for w1
    using that unfolding LOG_LEVEL_eq [OF lg] by (rule Logger_log_frame)
  with LOG_LEVEL_root_fine [OF assms, of level "file" line msg] show ?thesis
    by (cases "LOG_LEVEL (LoggerManager_getRoot w) level file line msg w") (auto simp: fine_def safe_def)
qed

interpretation root_frame: reporter "root_log f n" "\<lambda>w'. world_ok w' \<and> frame w w'" for f n w
proof
  show "reports (\<lambda>w'. world_ok w' \<and> frame w w') (la_write (root_log f n) level msg s)"
    if "world_ok s \<and> frame w s" for level msg s
    using root_report [of s level f n msg] that by (auto simp: root_log_def dest: frame_trans)
qed

text \<open>The whole listener, when every definition of the new value is new or changed.\<close>

lemma configuration_in_force:
  assumes "world_ok w" and "lds_ok new_value" and "\<forall>i \<in> set new_value. lds_find old_value i \<noteq> Some i"
    and "\<forall>i \<in> set new_value. \<forall>d \<in> set (ld_appenders i). typed d"
  shows "(\<exists>w'. on_logger_conf_changed place file line old_value new_value w = Inr w' \<and> world_ok w' \<and>
      (\<forall>i \<in> set new_value. in_force w' i) \<and>
      (\<forall>j. ld_name j \<notin> ld_name ` set new_value \<longrightarrow> in_force w j \<longrightarrow> in_force w' j)) \<or>
    on_logger_conf_changed place file line old_value new_value w = Inl date_fault"
  using root_report [OF assms(1), of INFO "file" line "''on_logger_conf_changed''"]
proof (elim disjE exE conjE)
  fix w1
  assume log: "LOG_LEVEL (LoggerManager_getRoot w) INFO file line ''on_logger_conf_changed'' w = Inr w1"
    and ok: "world_ok w1" and fr: "frame w w1"
  from apply_defines_effect [OF ok lds_ok_distinct [OF assms(2)] assms(3,4), of place] obtain w'
    where w': "rfold (apply_define place old_value) new_value w1 = Inr w'" "world_ok w'" "\<forall>i \<in> set new_value. in_force w' i"
      and others: "\<forall>j. ld_name j \<notin> ld_name ` set new_value \<longrightarrow> in_force w1 j \<longrightarrow> in_force w' j" by blast
  have "on_logger_conf_changed place file line old_value new_value w = Inr w'"
    using log w'(1) by (simp add: on_logger_conf_changed_def retire_all_dead)
  with w'(2,3) others frame_in_force [OF fr] show ?thesis by blast
qed (simp add: on_logger_conf_changed_def)

section \<open>Properties\<close>

text \<open>A definition of the root logger, and one of another logger with a file appender.\<close>

definition demo_root_define :: LogDefine where
  "demo_root_define = \<lparr>ld_name = ''root'', ld_level = INFO, ld_formatter = ''%m%n'',
     ld_appenders = [new_LogAppenderDefine\<lparr>ad_type := 2\<rparr>]\<rparr>"

definition demo_app_define :: LogDefine where
  "demo_app_define = \<lparr>ld_name = ''app'', ld_level = ERROR, ld_formatter = [],
     ld_appenders = [new_LogAppenderDefine\<lparr>ad_type := 1, ad_file := ''app.log''\<rparr>]\<rparr>"

lemma demo_defines:
  "lds_ok [demo_app_define, demo_root_define]"
  "\<forall>i \<in> set [demo_app_define, demo_root_define]. \<forall>d \<in> set (ld_appenders i). typed d"
  by (simp_all add: lds_ok_def ld_less_def demo_app_define_def demo_root_define_def typed_def new_LogAppenderDefine_def)

text \<open>
  C37. A definition that did not change ends the process: when the new value holds a definition
  exactly as the old value does, the listener does not return; the loop dereferences its null logger
  pointer there, after the changed definitions before it have been applied.
\<close>

theorem unchanged_definition_crashes:
  assumes "world_ok w" and "lds_ok (xs @ i # ys)" and "lds_find old_value i = Some i"
    and "\<forall>x \<in> set xs. lds_find old_value x \<noteq> Some x \<and> (\<forall>d \<in> set (ld_appenders x). typed d)"
  shows "on_logger_conf_changed place file line old_value (xs @ i # ys) w = Inl (Null_Deref ''logger'') \<or>
    on_logger_conf_changed place file line old_value (xs @ i # ys) w = Inl date_fault"
  using root_report [OF assms(1), of INFO "file" line "''on_logger_conf_changed''"]
proof (elim disjE exE conjE)
  fix w1
  assume log: "LOG_LEVEL (LoggerManager_getRoot w) INFO file line ''on_logger_conf_changed'' w = Inr w1"
    and ok: "world_ok w1" and fr: "frame w w1"
  have dist: "distinct (map ld_name xs)" using lds_ok_distinct [OF assms(2)] by simp
  from apply_defines_effect [OF ok dist] assms(4) obtain w2 where "rfold (apply_define place old_value) xs w1 = Inr w2" by blast
  from rfold_first_fault [OF this apply_define_unchanged [OF assms(3)], of ys] log show ?thesis
    by (simp add: on_logger_conf_changed_def)
qed (simp add: on_logger_conf_changed_def)

theorem unchanged_definition_crashes_witness:
  "on_logger_conf_changed ''log.cpp'' ''log.cpp'' 872 [demo_root_define] [demo_app_define, demo_root_define] (managed blank_world) =
      Inl (Null_Deref ''logger'') \<or>
   on_logger_conf_changed ''log.cpp'' ''log.cpp'' 872 [demo_root_define] [demo_app_define, demo_root_define] (managed blank_world) =
      Inl date_fault"
proof -
  have 1: "lds_find [demo_root_define] demo_root_define = Some demo_root_define" by (simp add: ld_less_def)
  have 2: "lds_find [demo_root_define] demo_app_define = None"
    by (simp add: ld_less_def demo_root_define_def demo_app_define_def)
  have 3: "lds_ok ([demo_app_define] @ demo_root_define # [])" using demo_defines(1) by simp
  have 4: "\<forall>x \<in> set [demo_app_define]. lds_find [demo_root_define] x \<noteq> Some x \<and> (\<forall>d \<in> set (ld_appenders x). typed d)"
    using demo_defines(2) 2 by simp
  from unchanged_definition_crashes [OF managed_ok [OF blank_simps(1,2)] 3 1 4, of "''log.cpp''" "''log.cpp''" 872]
  show ?thesis by simp
qed

end
