(* ===== verification/Log_Yaml.thy ===== *)
theory Log_Yaml
  imports Log_Config
begin

text \<open>
  What the YAML form of the logging configuration keeps: reading back what the cast of
  std::set<LogDefine> wrote. The behaviour of yaml-cpp this rests on is the predicate \<open>yaml_laws\<close>,
  which the tree instance meets.
\<close>

section \<open>Documented behaviour of nodes\<close>

definition yaml_laws :: "'n yaml \<Rightarrow> bool" where
  "yaml_laws Y \<longleftrightarrow>
     (\<forall>kvs k. y_get Y (map_node Y kvs) k =
        (case map_of (rev kvs) k of Some x \<Rightarrow> Some x | None \<Rightarrow> y_get Y (y_node Y) k)) \<and>
     (\<forall>k. \<exists>u. y_get Y (y_node Y) k = Some u \<and> \<not> y_defined Y u \<and> (\<forall>x. y_push Y u x = y_push Y (y_node Y) x)) \<and>
     (\<forall>s. y_defined Y (y_of_string Y s) \<and> y_as_string Y (y_of_string Y s) = Some s) \<and>
     (\<forall>ns. ns \<noteq> [] \<longrightarrow> y_defined Y (seq_node Y ns)) \<and>
     (\<forall>ns. seq_reads Y (seq_node Y ns) ns)"

lemma map_node_snoc: "y_put Y (map_node Y kvs) k x = map_node Y (kvs @ [(k, x)])"
  by (simp add: map_node_def)

lemma map_node_Nil: "y_node Y = map_node Y []"
  by (simp add: map_node_def)

lemma seq_node_snoc: "y_push Y (seq_node Y ns) x = seq_node Y (ns @ [x])"
  by (simp add: seq_node_def)

lemma put_string_map: "put_string Y k s (map_node Y kvs) = map_node Y (kvs @ [(k, y_of_string Y s)])"
  by (simp add: put_string_def map_node_snoc)

lemma put_level_map: "put_level Y lv (map_node Y kvs) =
    map_node Y (kvs @ (if lv = UNKNOW then [] else [(''level'', y_of_string Y (ToString lv))]))"
  by (simp add: put_level_def put_string_map)

lemma laws_get:
  "yaml_laws Y \<Longrightarrow> map_of (rev kvs) k = Some x \<Longrightarrow> yget Y (map_node Y kvs) k = Inr x"
  by (simp add: yaml_laws_def yget_def)

lemma laws_absent:
  assumes "yaml_laws Y" and "map_of (rev kvs) k = None"
  shows "\<exists>u. yget Y (map_node Y kvs) k = Inr u \<and> \<not> y_defined Y u \<and> (\<forall>x. y_push Y u x = seq_node Y [x])"
proof -
  from assms(1) obtain u where "y_get Y (y_node Y) k = Some u" "\<not> y_defined Y u" "\<forall>x. y_push Y u x = y_push Y (y_node Y) x"
    unfolding yaml_laws_def by blast
  then show ?thesis using assms by (simp add: yaml_laws_def yget_def seq_node_def)
qed

lemma laws_string:
  "yaml_laws Y \<Longrightarrow> y_defined Y (y_of_string Y s)" "yaml_laws Y \<Longrightarrow> ystring Y (y_of_string Y s) = Inr s"
  by (simp_all add: yaml_laws_def ystring_def)

lemma laws_seq:
  "yaml_laws Y \<Longrightarrow> ns \<noteq> [] \<Longrightarrow> y_defined Y (seq_node Y ns)" "yaml_laws Y \<Longrightarrow> y_size Y (seq_node Y ns) = length ns"
  "yaml_laws Y \<Longrightarrow> i < length ns \<Longrightarrow> y_at Y (seq_node Y ns) i = Some (ns ! i)"
  by (simp_all add: yaml_laws_def seq_reads_def)

lemma laws_yfield:
  assumes "yaml_laws Y"
  shows "map_of (rev kvs) k = Some (y_of_string Y s) \<Longrightarrow> yfield Y (map_node Y kvs) k = Inr s"
    and "map_of (rev kvs) k = None \<Longrightarrow> yfield Y (map_node Y kvs) k = Inr []"
proof -
  show "yfield Y (map_node Y kvs) k = Inr s" if "map_of (rev kvs) k = Some (y_of_string Y s)"
    unfolding yfield_def laws_get [OF assms that] using laws_string [OF assms] by simp
  show "yfield Y (map_node Y kvs) k = Inr []" if "map_of (rev kvs) k = None"
    using laws_absent [OF assms that] by (auto simp: yfield_def)
qed

text \<open>The tree instance.\<close>

lemma tree_find_put: "tree_find (tree_put kvs k x) k' = (if k' = k then x else tree_find kvs k')"
  by (induction kvs k x rule: tree_put.induct) auto

lemma tree_map_node:
  "map_node (tree_yaml ld em) kvs = (if kvs = [] then YNull else YMap (fold (\<lambda>(k, x) m. tree_put m k x) kvs []))"
proof -
  have put: "y_put (tree_yaml ld em) (YMap m) k x = YMap (tree_put m k x)" for m k x
    by (simp add: tree_yaml_def)
  have loop: "fold (\<lambda>(k, x) n. y_put (tree_yaml ld em) n k x) kvs (YMap m) = YMap (fold (\<lambda>(k, x) m. tree_put m k x) kvs m)" for m and kvs :: "(string \<times> ynode) list"
    by (induction kvs arbitrary: m) (auto simp: put)
  moreover have "y_put (tree_yaml ld em) (y_node (tree_yaml ld em)) k v = YMap (tree_put [] k v)" for k v
    by (simp add: tree_yaml_def)
  moreover have "y_node (tree_yaml ld em) = YNull" by (simp add: tree_yaml_def)
  ultimately show ?thesis using loop by (cases kvs) (auto simp: map_node_def simp del: tree_put.simps)
qed

lemma tree_laws: "yaml_laws (tree_yaml ld em)"
proof -
  have find: "tree_find (fold (\<lambda>(k, x) m. tree_put m k x) kvs m) k =
      (case map_of (rev kvs) k of Some x \<Rightarrow> x | None \<Rightarrow> tree_find m k)" for kvs k m
    by (induction kvs arbitrary: m) (auto simp: tree_find_put map_add_def split: option.splits)
  have "y_get (tree_yaml ld em) (map_node (tree_yaml ld em) kvs) k =
      (case map_of (rev kvs) k of Some x \<Rightarrow> Some x | None \<Rightarrow> y_get (tree_yaml ld em) (y_node (tree_yaml ld em)) k)" for kvs k
    unfolding tree_map_node by (simp add: tree_yaml_def find split: option.split)
  moreover have "ns \<noteq> [] \<Longrightarrow> y_defined (tree_yaml ld em) (seq_node (tree_yaml ld em) ns)" for ns
    unfolding tree_seq_node by (simp add: tree_yaml_def)
  ultimately show ?thesis
    using tree_seq_reads by (simp add: yaml_laws_def) (simp add: tree_yaml_def)
qed

section \<open>Appenders\<close>

definition forget_appender :: "LogAppenderDefine \<Rightarrow> LogAppenderDefine" where
  "forget_appender a = a\<lparr>ad_level := UNKNOW, ad_file := (if ad_type a = 1 then ad_file a else [])\<rparr>"

definition opt_kv :: "'n yaml \<Rightarrow> string \<Rightarrow> string option \<Rightarrow> (string \<times> 'n) list" where
  "opt_kv Y k s = (case s of None \<Rightarrow> [] | Some s \<Rightarrow> [(k, y_of_string Y s)])"

lemma opt_kv_simps [simp]: "opt_kv Y k None = []" "opt_kv Y k (Some s) = [(k, y_of_string Y s)]"
  by (simp_all add: opt_kv_def)

lemma opt_kv_find [simp]:
  "map_of (rev (opt_kv Y k s)) j = (if j = k then map_option (y_of_string Y) s else None)"
  "(m ++ map_of (rev (opt_kv Y k s))) j = (if j = k \<and> s \<noteq> None then map_option (y_of_string Y) s else m j)"
  by (cases s; simp add: map_add_def)+

abbreviation or_empty :: "string option \<Rightarrow> string" where
  "or_empty s \<equiv> (case s of None \<Rightarrow> [] | Some s \<Rightarrow> s)"

lemma laws_yfield_opt:
  "yaml_laws Y \<Longrightarrow> map_of (rev kvs) k = map_option (y_of_string Y) s \<Longrightarrow> yfield Y (map_node Y kvs) k = Inr (or_empty s)"
  using laws_yfield [of Y kvs k] by (cases s) simp_all

lemma put_opt_map:
  "(case s of None \<Rightarrow> map_node Y kvs | Some s \<Rightarrow> put_string Y k s (map_node Y kvs)) = map_node Y (kvs @ opt_kv Y k s)"
  by (simp add: put_string_map split: option.split)

text \<open>The keys of an appender; \<open>fmt\<close> is the formatter where the key is written.\<close>

definition appender_kvs :: "'n yaml \<Rightarrow> LogAppenderDefine \<Rightarrow> string option \<Rightarrow> (string \<times> 'n) list" where
  "appender_kvs Y a fmt =
     (if ad_type a = 1 then [(''type'', y_of_string Y ''FileLogAppender''), (''file'', y_of_string Y (ad_file a))]
      else [(''type'', y_of_string Y ''StdoutLogAppender'')]) @
     (if ad_level a = UNKNOW then [] else [(''level'', y_of_string Y (ToString (ad_level a)))]) @
     opt_kv Y ''formatter'' fmt"

lemma write_appender_map:
  "typed a \<Longrightarrow> write_appender Y a =
     map_node Y (appender_kvs Y a (if ad_formatter a = [] then None else Some (ad_formatter a)))"
  by (auto simp: write_appender_def typed_def appender_kvs_def map_node_Nil [of Y] put_string_map put_level_map)

lemma read_appender_kvs:
  assumes laws: "yaml_laws Y" and ty: "typed a" and fo: "ad_formatter a = or_empty fmt"
  shows "read_appender Y (map_node Y (appender_kvs Y a fmt)) = Inr (Some (forget_appender a), [])"
proof -
  let ?n = "map_node Y (appender_kvs Y a fmt)"
  have ty_name: "yget Y ?n ''type'' = Inr (y_of_string Y (if ad_type a = 1 then ''FileLogAppender'' else ''StdoutLogAppender''))"
    by (rule laws_get [OF laws]) (simp add: appender_kvs_def)
  have fname: "yget Y ?n ''file'' = Inr (y_of_string Y (ad_file a))" if "ad_type a = 1"
    using that by (intro laws_get [OF laws]) (simp add: appender_kvs_def)
  have fmt: "yfield Y ?n ''formatter'' = Inr (ad_formatter a)"
    unfolding fo by (rule laws_yfield_opt [OF laws]) (cases fmt; simp add: appender_kvs_def)
  have one: "new_LogAppenderDefine\<lparr>ad_type := 1, ad_file := ad_file a, ad_formatter := ad_formatter a\<rparr> = forget_appender a"
    if "ad_type a = 1" using that by (cases a) (simp add: new_LogAppenderDefine_def forget_appender_def)
  have two: "new_LogAppenderDefine\<lparr>ad_type := 2, ad_formatter := ad_formatter a\<rparr> = forget_appender a"
    if "ad_type a = 2" using that by (cases a) (simp add: new_LogAppenderDefine_def forget_appender_def)
  show ?thesis
  proof (cases "ad_type a = 1")
    case True
    then show ?thesis
      unfolding read_appender_def ty_name using laws_string [OF laws] fname fmt one by simp
  next
    case False
    with ty have "ad_type a = 2" by (simp add: typed_def)
    then show ?thesis
      unfolding read_appender_def ty_name using laws_string [OF laws] fmt two by simp
  qed
qed

lemma read_write_appender:
  "yaml_laws Y \<Longrightarrow> typed a \<Longrightarrow> read_appender Y (write_appender Y a) = Inr (Some (forget_appender a), [])"
  by (simp add: write_appender_map read_appender_kvs)

section \<open>Reading back a set of definitions\<close>

definition forget_define :: "LogDefine \<Rightarrow> LogDefine" where
  "forget_define i = \<lparr>ld_name = ld_name i, ld_level = FromString (ToString (ld_level i)), ld_formatter = [],
     ld_appenders = map forget_appender (ld_appenders i)\<rparr>"

text \<open>The keys of a definition but "appenders"; again \<open>fmt\<close> is the formatter where the key is written.\<close>

definition define_kvs :: "'n yaml \<Rightarrow> string \<Rightarrow> Level \<Rightarrow> string option \<Rightarrow> (string \<times> 'n) list" where
  "define_kvs Y name level fmt = [(''name'', y_of_string Y name)] @
     (if level = UNKNOW then [] else [(''level'', y_of_string Y (ToString level))]) @ opt_kv Y ''formatter'' fmt"

text \<open>The assignments to the key "appenders", one per push_back.\<close>

definition appenders_kvs :: "'n yaml \<Rightarrow> 'n list \<Rightarrow> (string \<times> 'n) list" where
  "appenders_kvs Y xs = map (\<lambda>i. (''appenders'', seq_node Y (take (Suc i) xs))) [0..<length xs]"

lemma appenders_kvs_snoc: "appenders_kvs Y (xs @ [x]) = appenders_kvs Y xs @ [(''appenders'', seq_node Y (xs @ [x]))]"
  by (simp add: appenders_kvs_def)

lemma appenders_kvs_other: "k \<noteq> ''appenders'' \<Longrightarrow> map_of (rev (kvs @ appenders_kvs Y xs)) k = map_of (rev kvs) k"
proof (induction xs rule: rev_induct)
  case (snoc x xs)
  then show ?case by (simp add: appenders_kvs_snoc)
qed (simp add: appenders_kvs_def)

lemma appenders_kvs_last: "xs \<noteq> [] \<Longrightarrow> map_of (rev (kvs @ appenders_kvs Y xs)) ''appenders'' = Some (seq_node Y xs)"
  by (cases xs rule: rev_cases) (simp_all add: appenders_kvs_snoc)

lemma push_appenders:
  assumes laws: "yaml_laws Y" and none: "map_of (rev kvs) ''appenders'' = None"
  shows "rfold (\<lambda>a. push_at Y ''appenders'' (f a)) as (map_node Y kvs) =
    Inr (map_node Y (kvs @ appenders_kvs Y (map f as)))"
proof (induction as rule: rev_induct)
  case Nil
  then show ?case by (simp add: appenders_kvs_def)
next
  case (snoc a as)
  let ?m = "kvs @ appenders_kvs Y (map f as)"
  have "\<exists>u. yget Y (map_node Y ?m) ''appenders'' = Inr u \<and> y_push Y u (f a) = seq_node Y (map f as @ [f a])"
  proof (cases "as = []")
    case True
    with laws_absent [OF laws none] show ?thesis by (auto simp: appenders_kvs_def)
  next
    case False
    then have "yget Y (map_node Y ?m) ''appenders'' = Inr (seq_node Y (map f as))"
      by (intro laws_get [OF laws] appenders_kvs_last) simp
    then show ?thesis by (simp add: seq_node_snoc)
  qed
  then have "push_at Y ''appenders'' (f a) (map_node Y ?m) = Inr (map_node Y (kvs @ appenders_kvs Y (map f as @ [f a])))"
    by (auto simp: push_at_def map_node_snoc appenders_kvs_snoc)
  then show ?case by (simp add: rfold_append snoc.IH)
qed

definition log_node :: "'n yaml \<Rightarrow> string \<Rightarrow> Level \<Rightarrow> string option \<Rightarrow> 'n list \<Rightarrow> 'n" where
  "log_node Y name level fmt xs = map_node Y (define_kvs Y name level fmt @ appenders_kvs Y xs)"

definition define_node :: "'n yaml \<Rightarrow> LogDefine \<Rightarrow> 'n" where
  "define_node Y i = log_node Y (ld_name i) (ld_level i) (if ld_formatter i = [] then Some [] else None)
     (map (write_appender Y) (ld_appenders i))"

lemma define_kvs_none: "map_of (rev (define_kvs Y name level fmt)) ''appenders'' = None"
  by (cases fmt) (simp_all add: define_kvs_def)

lemma define_kvs_map:
  "put_level Y level (put_string Y ''name'' name (y_node Y)) = map_node Y (define_kvs Y name level None)"
  "define_kvs Y name level fmt = define_kvs Y name level None @ opt_kv Y ''formatter'' fmt"
  by (simp_all add: define_kvs_def map_node_Nil [of Y] put_string_map put_level_map)

lemma write_define_node: "yaml_laws Y \<Longrightarrow> write_define Y i = Inr (define_node Y i)"
proof -
  assume laws: "yaml_laws Y"
  have start: "(let n = put_level Y (ld_level i) (put_string Y ''name'' (ld_name i) (y_node Y))
      in if ld_formatter i = [] then put_string Y ''formatter'' (ld_formatter i) n else n) =
        map_node Y (define_kvs Y (ld_name i) (ld_level i) (if ld_formatter i = [] then Some [] else None))"
    by (simp add: define_kvs_map(1) put_string_map) (simp add: define_kvs_map(2) [of Y _ _ "Some []"])
  show ?thesis
    using push_appenders [OF laws define_kvs_none, where f = "write_appender Y" and as = "ld_appenders i"] start
    by (simp add: write_define_def define_node_def log_node_def Let_def)
qed

text \<open>Reading a node whose appenders are the nodes \<open>xs\<close>, which read as \<open>as\<close>.\<close>

definition reads_appenders :: "'n yaml \<Rightarrow> 'n list \<Rightarrow> LogAppenderDefine list \<Rightarrow> bool" where
  "reads_appenders Y xs as \<longleftrightarrow> list_all2 (\<lambda>x a. read_appender Y x = Inr (Some a, [])) xs as"

lemma read_appenders_node:
  assumes laws: "yaml_laws Y" and rd: "reads_appenders Y xs as"
  shows "read_appenders Y (log_node Y name level fmt xs) out = Returns as out"
proof (cases "xs = []")
  case True
  from laws_absent [OF laws define_kvs_none [of Y name level fmt]] obtain u
    where "yget Y (map_node Y (define_kvs Y name level fmt)) ''appenders'' = Inr u" "\<not> y_defined Y u" by blast
  with True rd show ?thesis by (simp add: read_appenders_def log_node_def appenders_kvs_def reads_appenders_def)
next
  case False
  let ?f = "\<lambda>x lads out. obind (at_state (or_throw (y_at Y (seq_node Y xs) x)) out) (\<lambda>a out.
            obind (at_state (read_appender Y a) out) (\<lambda>(lad, msg) out.
              Returns (case lad of None \<Rightarrow> lads | Some d \<Rightarrow> lads @ [d]) (out @ msg)))"
  have len: "length xs = length as" and nth: "read_appender Y (xs ! n) = Inr (Some (as ! n), [])" if "n < length as" for n
    using rd that by (auto simp: reads_appenders_def list_all2_conv_all_nth)
  have len: "length xs = length as" using rd by (simp add: reads_appenders_def list_all2_lengthD)
  have "yget Y (log_node Y name level fmt xs) ''appenders'' = Inr (seq_node Y xs)"
    unfolding log_node_def using False by (intro laws_get [OF laws] appenders_kvs_last) simp
  moreover have "ofold ?f [0..<n] [] out = Returns (take n as) out" if "n \<le> length as" for n
    using that
  proof (induction n)
    case (Suc n)
    with nth [of n] laws_seq(3) [OF laws, of n xs] len show ?case
      by (simp add: ofold_append take_Suc_conv_app_nth)
  qed simp
  from this [of "length as"] have "ofold ?f [0..<length xs] [] out = Returns as out" by (simp add: len)
  ultimately show ?thesis
    using False laws_seq(1,2) [OF laws, of xs] by (simp add: read_appenders_def)
qed

lemma read_define_node:
  assumes laws: "yaml_laws Y" and rd: "reads_appenders Y xs as"
  shows "read_define Y (log_node Y name level fmt xs) out =
    Returns (Some \<lparr>ld_name = name, ld_level = FromString (ToString level), ld_formatter = or_empty fmt, ld_appenders = as\<rparr>) out"
proof -
  let ?m = "define_kvs Y name level fmt @ appenders_kvs Y xs"
  have other: "map_of (rev ?m) k = map_of (rev (define_kvs Y name level fmt)) k" if "k \<noteq> ''appenders''" for k
    by (rule appenders_kvs_other [OF that])
  have kv: "map_of (rev ?m) ''name'' = Some (y_of_string Y name)"
    "map_of (rev ?m) ''level'' = map_option (y_of_string Y) (if level = UNKNOW then None else Some (ToString level))"
    "map_of (rev ?m) ''formatter'' = map_option (y_of_string Y) fmt"
    using other [of "''name''"] other [of "''level''"] other [of "''formatter''"] by (simp_all add: define_kvs_def)
  have nm: "yget Y (log_node Y name level fmt xs) ''name'' = Inr (y_of_string Y name)"
    unfolding log_node_def by (rule laws_get [OF laws kv(1)])
  have lv: "yfield Y (log_node Y name level fmt xs) ''level'' = Inr (or_empty (if level = UNKNOW then None else Some (ToString level)))"
    unfolding log_node_def by (rule laws_yfield_opt [OF laws kv(2)])
  have fm: "yfield Y (log_node Y name level fmt xs) ''formatter'' = Inr (or_empty fmt)"
    unfolding log_node_def by (rule laws_yfield_opt [OF laws kv(3)])
  have "FromString (or_empty (if level = UNKNOW then None else Some (ToString level))) = FromString (ToString level)"
    by (cases level) (simp_all add: FromString_def ToString_def)
  then show ?thesis
    unfolding read_define_def nm lv fm at_state_simps obind_simps read_appenders_node [OF assms]
    using laws_string [OF laws] by simp
qed

lemma fold_lds_insert:
  "lds_ok (ds @ es) \<Longrightarrow> fold lds_insert es ds = ds @ es"
proof (induction es arbitrary: ds)
  case (Cons e es)
  have "lds_insert e ds = ds @ [e]" if "\<forall>x \<in> set ds. ld_less x e" for ds
    using that by (induction ds) (auto simp: ld_less_def)
  moreover have "\<forall>x \<in> set ds. ld_less x e" using Cons.prems by (auto simp: lds_ok_def sorted_wrt_append)
  ultimately show ?case using Cons.IH [of "ds @ [e]"] Cons.prems by simp
qed simp

text \<open>Reading a document whose nodes \<open>ns\<close> read as definitions in the order of their names.\<close>

lemma read_document:
  assumes laws: "yaml_laws Y" and ok: "lds_ok ds" and doc: "y_load Y s = Some (seq_node Y ns)"
    and rd: "list_all2 (\<lambda>n d. read_define Y n [] = Returns (Some d) []) ns ds"
  shows "LogDefines_from_string Y s = Returns ds []"
proof -
  let ?f = "\<lambda>i acc out. obind (at_state (or_throw (y_at Y (seq_node Y ns) i)) out) (\<lambda>n out. obind (read_define Y n out) (\<lambda>d.
         Returns (case d of None \<Rightarrow> acc | Some ld \<Rightarrow> lds_insert ld acc)))"
  have len: "length ns = length ds" using rd by (rule list_all2_lengthD)
  have "ofold ?f [0..<n] [] [] = Returns (fold lds_insert (take n ds) []) []" if "n \<le> length ds" for n
    using that
  proof (induction n)
    case (Suc n)
    then have "read_define Y (ns ! n) [] = Returns (Some (ds ! n)) []" "y_at Y (seq_node Y ns) n = Some (ns ! n)"
      using rd laws_seq(3) [OF laws, of n ns] by (simp_all add: list_all2_conv_all_nth)
    with Suc show ?case by (simp add: ofold_append take_Suc_conv_app_nth)
  qed simp
  from this [of "length ds"] have "ofold ?f [0..<length ns] [] [] = Returns (fold lds_insert ds []) []" by (simp add: len)
  with fold_lds_insert [of "[]" ds] ok show ?thesis
    by (simp add: LogDefines_from_string_def doc laws_seq(2) [OF laws])
qed

lemma LogDefines_roundtrip_lemma:
  assumes laws: "yaml_laws Y" and ok: "lds_ok ds" and ty: "\<forall>i \<in> set ds. \<forall>a \<in> set (ld_appenders i). typed a"
    and doc: "y_load Y (y_emit Y (seq_node Y (map (define_node Y) ds))) = Some (seq_node Y (map (define_node Y) ds))"
  shows "\<exists>text. LogDefines_to_string Y ds = Inr text \<and> LogDefines_from_string Y text = Returns (map forget_define ds) []"
proof -
  have "rfold (\<lambda>i node. rbind (write_define Y i) (\<lambda>n. Inr (y_push Y node n))) ds (seq_node Y ms) =
      Inr (seq_node Y (ms @ map (define_node Y) ds))" for ds ms
    by (induction ds arbitrary: ms) (simp_all add: write_define_node [OF laws] seq_node_snoc)
  from this [of ds "[]"] have out: "LogDefines_to_string Y ds = Inr (y_emit Y (seq_node Y (map (define_node Y) ds)))"
    by (simp add: LogDefines_to_string_def seq_node_def)
  have "read_define Y (define_node Y i) [] = Returns (Some (forget_define i)) []" if "i \<in> set ds" for i
  proof -
    have "reads_appenders Y (map (write_appender Y) (ld_appenders i)) (map forget_appender (ld_appenders i))"
      using ty that by (auto simp: reads_appenders_def list_all2_conv_all_nth read_write_appender [OF laws])
    from read_define_node [OF laws this] show ?thesis by (simp add: define_node_def forget_define_def)
  qed
  then have "list_all2 (\<lambda>n d. read_define Y n [] = Returns (Some d) []) (map (define_node Y) ds) (map forget_define ds)"
    by (simp add: list_all2_conv_all_nth)
  moreover have "lds_ok (map forget_define ds)"
    using ok unfolding lds_ok_def by (auto simp: sorted_wrt_map ld_less_def [abs_def] forget_define_def)
  ultimately show ?thesis using read_document [OF laws _ doc] out by simp
qed

section \<open>Properties\<close>

text \<open>
  C26. Reading back a written set of logger definitions gives one definition per logger, in order,
  with its name, its level and its appenders with their types, files and formatters; the formatter
  of the logger and the levels of the appenders are lost. Nothing is reported.
\<close>

theorem definitions_roundtrip:
  assumes "yaml_laws Y" and "lds_ok ds" and "\<forall>i \<in> set ds. \<forall>a \<in> set (ld_appenders i). typed a"
    and "y_load Y (y_emit Y (seq_node Y (map (define_node Y) ds))) = Some (seq_node Y (map (define_node Y) ds))"
  shows "\<exists>text. LogDefines_to_string Y ds = Inr text \<and> LogDefines_from_string Y text = Returns (map
    (\<lambda>i. \<lparr>ld_name = ld_name i, ld_level = FromString (ToString (ld_level i)), ld_formatter = [],
       ld_appenders = map (\<lambda>a. a\<lparr>ad_level := UNKNOW, ad_file := (if ad_type a = 1 then ad_file a else [])\<rparr>) (ld_appenders i)\<rparr>) ds) []"
  using LogDefines_roundtrip_lemma [OF assms]
  by (simp add: forget_define_def [abs_def] forget_appender_def [abs_def])

text \<open>A library that writes every document as the same text, and reads that text as the document of the two definitions.\<close>

definition demo_document :: ynode where
  "demo_document = seq_node (tree_yaml (\<lambda>s. None) (\<lambda>n. []))
     (map (define_node (tree_yaml (\<lambda>s. None) (\<lambda>n. []))) [demo_app_define, demo_root_define])"

abbreviation document_yaml :: "ynode yaml" where
  "document_yaml \<equiv> tree_yaml (\<lambda>s. Some demo_document) (\<lambda>n. ''- name: app ...'')"

lemma tree_same:
  "seq_node (tree_yaml ld em) = seq_node (tree_yaml ld' em')" "define_node (tree_yaml ld em) = define_node (tree_yaml ld' em')"
proof -
  have put: "put_string (tree_yaml ld em) = put_string (tree_yaml ld' em')"
    by (intro ext) (simp add: put_string_def tree_yaml_def)
  have seq: "seq_node (tree_yaml ld em) = seq_node (tree_yaml ld' em')"
    by (intro ext) (simp add: seq_node_def tree_yaml_def)
  have lev: "put_level (tree_yaml ld em) = put_level (tree_yaml ld' em')"
    by (intro ext) (simp add: put_level_def put)
  have nd: "y_node (tree_yaml ld em) = y_node (tree_yaml ld' em')" "y_of_string (tree_yaml ld em) = y_of_string (tree_yaml ld' em')"
    by (simp_all add: tree_yaml_def)
  have app: "write_appender (tree_yaml ld em) = write_appender (tree_yaml ld' em')"
    unfolding write_appender_def put lev nd ..
  have mp: "map_node (tree_yaml ld em) = map_node (tree_yaml ld' em')"
    by (intro ext) (simp add: map_node_def tree_yaml_def)
  show "seq_node (tree_yaml ld em) = seq_node (tree_yaml ld' em')" by (rule seq)
  show "define_node (tree_yaml ld em) = define_node (tree_yaml ld' em')"
    by (intro ext) (simp add: define_node_def log_node_def define_kvs_def opt_kv_def appenders_kvs_def seq app mp nd)
qed

lemma document_loads:
  "y_load document_yaml (y_emit document_yaml (seq_node document_yaml (map (define_node document_yaml) [demo_app_define, demo_root_define]))) =
     Some (seq_node document_yaml (map (define_node document_yaml) [demo_app_define, demo_root_define]))"
proof -
  have load: "y_load document_yaml (y_emit document_yaml n) = Some demo_document" for n
    by (simp add: tree_yaml_def)
  have eq: "demo_document = seq_node document_yaml (map (define_node document_yaml) [demo_app_define, demo_root_define])"
    by (subst demo_document_def) (simp only: tree_same [of "\<lambda>s. None" "\<lambda>n. []" "\<lambda>s. Some demo_document" "\<lambda>n. ''- name: app ...''"])
  show ?thesis by (rule trans [OF load arg_cong [OF eq, of Some]])
qed

lemma document_casts: "LogDefines_from_string document_yaml t = Returns (map forget_define [demo_app_define, demo_root_define]) []"
proof -
  have "LogDefines_from_string document_yaml s = LogDefines_from_string document_yaml t" for s
    by (simp add: LogDefines_from_string_def tree_yaml_def)
  moreover from LogDefines_roundtrip_lemma [OF tree_laws demo_defines(1,2) document_loads]
  obtain s where "LogDefines_from_string document_yaml s = Returns (map forget_define [demo_app_define, demo_root_define]) []"
    by (elim exE conjE)
  ultimately show ?thesis by metis
qed

theorem definitions_roundtrip_witness:
  "\<exists>s ds. LogDefines_to_string document_yaml [demo_app_define, demo_root_define] = Inr s \<and>
     LogDefines_from_string document_yaml s = Returns ds [] \<and>
     map ld_name ds = [''app'', ''root''] \<and> map ld_level ds = [ERROR, INFO] \<and> map ld_formatter ds = [[], []]"
  using definitions_roundtrip [OF tree_laws demo_defines(1,2) document_loads]
  by (elim exE conjE) (intro exI conjI, assumption, assumption,
    simp_all add: demo_app_define_def demo_root_define_def FromString_ToString)

end
