(* ===== verification/Program.thy ===== *)
theory Program
  imports Log_Yaml
begin

text \<open>
  The program's global objects and their dynamic initialisation (log.cpp, fiber.cpp): the logger
  manager with the logger "system", the variables "logs" and "fiber.stack_size", and the listener that
  LogIniter adds. The values of the two variables make up one type. The end of the theory follows a
  document from its YAML nodes to the loggers it puts in force.
\<close>

section \<open>The variables of the program\<close>

datatype conf_value = Log_Defines log_defines | Stack_Size "32 word"

definition logs_type :: string where
  "logs_type = ''std::set<LogDefine>''"

definition size_type :: string where
  "size_type = ''uint32_t''"

text \<open>
  The casts of the two types. The cast of definitions prints what it rejects; \<open>to_uint\<close> is
  boost::lexical_cast<uint32_t>.
\<close>

definition logs_from_string :: "'n yaml \<Rightarrow> string \<Rightarrow> world \<Rightarrow> (conf_value, world) outcome" where
  "logs_from_string Y text w = (case LogDefines_from_string Y text of
     Returns ds out \<Rightarrow> Returns (Log_Defines ds) (print out w)
   | Raises e out \<Rightarrow> Raises e (print out w)
   | Crashes f \<Rightarrow> Crashes f)"

definition program_casts :: "'n yaml \<Rightarrow> (string \<Rightarrow> 32 word res) \<Rightarrow> (conf_value, world) converters" where
  "program_casts Y to_uint T =
     (if T = logs_type then
        (logs_from_string Y, \<lambda>v. case v of Log_Defines ds \<Rightarrow> LogDefines_to_string Y ds | _ \<Rightarrow> Inl (Unspecified ''type''))
      else
        (pure_cast (\<lambda>text. rbind (to_uint text) (\<lambda>n. Inr (Stack_Size n))),
         \<lambda>v. case v of Stack_Size n \<Rightarrow> Inr (show_nat (unat n)) | _ \<Rightarrow> Inl (Unspecified ''type'')))"

section \<open>Initialisation\<close>

definition g_log_defines :: "(conf_value, world) converters \<Rightarrow> world log_api \<Rightarrow>
    (conf_value, world) cstate \<Rightarrow> (nat option, (conf_value, world) cstate) outcome" where
  "g_log_defines conv la = Lookup_default conv la logs_type ''logs'' (Log_Defines []) ''logs config''"

text \<open>LogIniter adds its listener through the pointer g_log_defines; \<open>n\<close> is the counter of the type.\<close>

definition conf_listener :: "string \<Rightarrow> string \<Rightarrow> 32 word \<Rightarrow> (conf_value, world) on_change_back" where
  "conf_listener place file line = map_option (\<lambda>g old_value new_value w.
     case (old_value, new_value) of
       (Log_Defines ds, Log_Defines ds') \<Rightarrow> g ds ds' w | _ \<Rightarrow> Crashes (Unspecified ''type''))
     (logs_listener place file line)"

definition LogIniter :: "string \<Rightarrow> string \<Rightarrow> 32 word \<Rightarrow> 64 word \<Rightarrow> nat option \<Rightarrow>
    (conf_value, world) cstate \<Rightarrow> (64 word \<times> 64 word, (conf_value, world) cstate) outcome" where
  "LogIniter place file line n p cs = (case p of
     None \<Rightarrow> Crashes (Null_Deref ''g_log_defines'')
   | Some p \<Rightarrow> on_var p (addListener (conf_listener place file line) n) cs)"

definition g_fiber_stack_size :: "(conf_value, world) converters \<Rightarrow> world log_api \<Rightarrow>
    (conf_value, world) cstate \<Rightarrow> (nat option, (conf_value, world) cstate) outcome" where
  "g_fiber_stack_size conv la =
     Lookup_default conv la size_type ''fiber.stack_size'' (Stack_Size (1024 * 1024)) ''fiber stack size''"

text \<open>
  The order between the source files is not fixed by the language; the objects do not depend on each
  other but through the singleton and g_log_defines. The result is the pointer of each variable.
\<close>

definition program_start :: "(conf_value, world) converters \<Rightarrow> string \<Rightarrow> string \<Rightarrow> 32 word \<Rightarrow> world \<Rightarrow>
    (nat option \<times> nat option, (conf_value, world) cstate) outcome" where
  "program_start conv place file line w0 =
     (case rbind (new_LoggerManager w0) (LoggerManager_getLogger ''system'') of
        Inl f \<Rightarrow> Crashes f
      | Inr (g_logger, w) \<Rightarrow>
          obind (g_log_defines conv (root_log file line) (new_config, w)) (\<lambda>p cs.
          obind (LogIniter place file line 0 p cs) (\<lambda>_ cs.
          obind (g_fiber_stack_size conv (root_log file line) cs) (\<lambda>q. Returns (p, q)))))"

section \<open>What a text of definitions casts to\<close>

definition throws :: "'a res \<Rightarrow> bool" where
  "throws r \<longleftrightarrow> (\<forall>f. r = Inl f \<longrightarrow> (\<exists>e. f = Throw (Std_Exception e)))"

lemma throws_Inr [simp]: "throws (Inr x)"
  by (simp add: throws_def)

lemma throws_rbind: "throws r \<Longrightarrow> (\<And>x. throws (f x)) \<Longrightarrow> throws (rbind r f)"
  by (cases r) (auto simp: throws_def)

lemma throws_or_throw [simp]: "throws (or_throw x)"
  by (cases x) (simp_all add: throws_def or_throw_def yaml_throw_def)

lemma throws_yget [simp]: "throws (yget Y n k)" "throws (ystring Y n)"
  by (simp_all add: yget_def ystring_def)

lemma throws_yfield [simp]: "throws (yfield Y n k)"
  by (simp add: yfield_def throws_rbind)

lemma throws_read_appender [simp]: "throws (read_appender Y n)"
  by (simp add: read_appender_def throws_rbind)

text \<open>Of the text of an outcome nothing is asked.\<close>

abbreviation std_text :: "('a, string) outcome \<Rightarrow> bool" where
  "std_text \<equiv> ends_std (\<lambda>_. True)"

lemma std_at_state [simp]: "throws r \<Longrightarrow> std_text (at_state r s)"
  by (cases r) (auto simp: throws_def)

lemma std_obind: "std_text r \<Longrightarrow> (\<And>a s. std_text (f a s)) \<Longrightarrow> std_text (obind r f)"
  by (cases r) auto

lemma std_ofold: "(\<And>x a s. std_text (f x a s)) \<Longrightarrow> std_text (ofold f xs a s)"
  by (induction xs arbitrary: a s) (simp_all add: std_obind)

lemma std_from_string: "std_text (LogDefines_from_string Y t)"
proof -
  have apps: "std_text (read_appenders Y n s)" for n s
    by (auto simp: read_appenders_def intro!: std_obind std_ofold split: prod.split)
  have dfn: "std_text (read_define Y n s)" for n s
    by (auto simp: read_define_def apps intro!: std_obind)
  show ?thesis
    by (auto simp: LogDefines_from_string_def dfn intro!: std_obind std_ofold)
qed

lemma read_appender_typed: "read_appender Y n = Inr (Some d, out) \<Longrightarrow> typed d"
  by (auto simp: read_appender_def typed_def new_LogAppenderDefine_def rbind_eq_Inr split: if_splits)

lemma read_appenders_typed:
  assumes "read_appenders Y n s = Returns lads s'"
  shows "\<forall>d \<in> set lads. typed d"
proof -
  have "\<forall>d \<in> set l'. typed d"
    if "ofold (\<lambda>x lads out. obind (at_state (or_throw (y_at Y as x)) out) (\<lambda>a out.
      obind (at_state (read_appender Y a) out) (\<lambda>(lad, msg) out.
        Returns (case lad of None \<Rightarrow> lads | Some d \<Rightarrow> lads @ [d]) (out @ msg)))) xs [] s0 = Returns l' s1" for as xs s0 l' s1
    by (rule ofold_invariant [OF _ _ that])
      (auto simp: obind_Returns at_state_Returns split: option.splits dest: read_appender_typed)
  with assms show ?thesis by (auto simp: read_appenders_def obind_Returns split: if_splits)
qed

lemma from_string_ok:
  assumes "LogDefines_from_string Y t = Returns ds out"
  shows "lds_ok ds \<and> (\<forall>i \<in> set ds. \<forall>d \<in> set (ld_appenders i). typed d)"
proof -
  have dfn: "\<forall>d \<in> set (ld_appenders ld). typed d" if "read_define Y n s = Returns (Some ld) s'" for n s ld s'
    using that by (auto simp: read_define_def obind_Returns split: if_splits dest: read_appenders_typed)
  let ?P = "\<lambda>ds. lds_ok ds \<and> (\<forall>i \<in> set ds. \<forall>d \<in> set (ld_appenders i). typed d)"
  have "?P a'" if "ofold (\<lambda>i ds out. obind (at_state (or_throw (y_at Y node i)) out) (\<lambda>n out. obind (read_define Y n out) (\<lambda>d.
         Returns (case d of None \<Rightarrow> ds | Some ld \<Rightarrow> lds_insert ld ds)))) xs [] s = Returns a' s'" for node xs s a' s'
  proof (rule ofold_invariant [OF _ _ that])
    show "?P []" by (simp add: lds_ok_def)
    fix x a s a' s'
    assume "?P a" and "obind (at_state (or_throw (y_at Y node x)) s) (\<lambda>n out. obind (read_define Y n out) (\<lambda>d.
         Returns (case d of None \<Rightarrow> a | Some ld \<Rightarrow> lds_insert ld a))) = Returns a' s'"
    then show "?P a'"
      using dfn lds_insert_set by (fastforce split: option.splits simp: lds_ok_insert obind_Returns)
  qed
  with assms show ?thesis by (auto simp: LogDefines_from_string_def obind_Returns)
qed

section \<open>The state of a started program\<close>

text \<open>
  Between two calls: registry and loggers are well-formed, the variable "logs" has the type, the
  listener and some value of its type, and no other variable has listeners.
\<close>

definition program_ok :: "string \<Rightarrow> string \<Rightarrow> 32 word \<Rightarrow> nat \<Rightarrow> (conf_value, world) config \<Rightarrow> world \<Rightarrow> bool" where
  "program_ok place file line p c w \<longleftrightarrow> config_ok c \<and> world_ok w \<and> om_find (cf_datas c) ''logs'' = Some p \<and>
     cv_type (cf_vars c ! p) = logs_type \<and> (\<exists>k. cv_cbs (cf_vars c ! p) = [(k, conf_listener place file line)]) \<and>
     (\<exists>ds. cv_val (cf_vars c ! p) = Log_Defines ds) \<and>
     (\<forall>q < length (cf_vars c). q \<noteq> p \<longrightarrow> cv_cbs (cf_vars c ! q) = [])"

lemma start_names:
  "set ''logs'' \<subseteq> set name_chars" "set ''fiber.stack_size'' \<subseteq> set name_chars" "map tolower ''logs'' = ''logs''"
  by (simp_all add: name_chars_def tolower_def letter_defs)

text \<open>The world of a started program: the root logger with its console, and the logger "system".\<close>

definition system_world :: "world \<Rightarrow> world" where
  "system_world w0 = (managed w0)\<lparr>w_loggers := [root_logger_object, fresh_logger ''system'' (managed w0)],
     w_mgr := \<lparr>mg_mutex = False, mg_loggers = [(''root'', 0), (''system'', 1)], mg_root = 0\<rparr>\<rparr>"

lemma getLogger_system: "w_loggers w0 = [] \<Longrightarrow> w_appenders w0 = [] \<Longrightarrow>
    LoggerManager_getLogger ''system'' (managed w0) = Inr (1, system_world w0)"
  by (subst getLogger_new [OF managed_ok]) (simp_all add: managed_def system_world_def om_find_def less_char_def)

lemma system_world_ok: "w_loggers w0 = [] \<Longrightarrow> w_appenders w0 = [] \<Longrightarrow> world_ok (system_world w0)"
  by (rule getLogger_new_ok [OF managed_ok _ getLogger_system]) (simp_all add: managed_def om_find_def)

lemma program_start_eq:
  assumes "w_loggers w0 = []" and "w_appenders w0 = []"
  shows "\<exists>c. program_start conv place file line w0 = Returns (Some 0, Some 1) (c, system_world w0) \<and>
    program_ok place file line 0 c (system_world w0) \<and> cv_val (cf_vars c ! 0) = Log_Defines [] \<and>
    cf_vars c ! 1 = ConfigVar size_type ''fiber.stack_size'' (Stack_Size 1048576) ''fiber stack size'' \<and>
    cf_datas c = [(''fiber.stack_size'', 1), (''logs'', 0)] \<and>
    LoggerManager_getLogger ''system'' (system_world w0) = Inr (1, system_world w0)"
proof -
  let ?w = "system_world w0"
  have get: "LoggerManager_getLogger ''system'' (managed w0) = Inr (1, ?w)" and ok: "world_ok ?w"
    using assms by (simp_all only: getLogger_system system_world_ok)
  have reg: "om_find (mg_loggers (w_mgr ?w)) ''system'' = Some 1" by (simp add: system_world_def om_find_def)
  let ?x = "ConfigVar logs_type ''logs'' (Log_Defines []) ''logs config'' :: (conf_value, world) config_var"
  let ?y = "ConfigVar size_type ''fiber.stack_size'' (Stack_Size (1024 * 1024)) ''fiber stack size'' :: (conf_value, world) config_var"
  let ?c1 = "new_config\<lparr>cf_vars := [?x], cf_datas := [(''logs'', 0)]\<rparr>"
  let ?x' = "?x\<lparr>cv_cbs := [(1, conf_listener place file line)]\<rparr>"
  let ?c2 = "?c1\<lparr>cf_vars := [?x']\<rparr>"
  let ?c3 = "?c2\<lparr>cf_vars := [?x', ?y], cf_datas := [(''fiber.stack_size'', 1), (''logs'', 0)]\<rparr>"
  have none: "om_find (cf_datas new_config) n = None" for n by (simp add: new_config_def om_find_def)
  have c1: "g_log_defines conv la (new_config, ?w) = Returns (Some 0) (?c1, ?w)" for la
    unfolding g_log_defines_def Lookup_default_new [OF config_ok_new none start_names(1)] by (simp add: new_config_def)
  have ok1: "config_ok ?c1"
    using config_ok_add [OF config_ok_new none start_names(1), of logs_type "Log_Defines []" "''logs config''"]
    by (simp add: new_config_def)
  have idle: "cv_idle ?x" by (simp add: cv_idle_def ConfigVar_eq)
  have c2: "LogIniter place file line 0 (Some 0) (?c1, ?w) = Returns (1, 1) (?c2, ?w)"
    by (simp add: LogIniter_def on_var_def addListener_eq [OF idle]) (simp add: ConfigVar_eq)
  have ok2: "config_ok ?c2" using ok1 by (fastforce simp: config_ok_def nth_Cons')
  have free: "om_find (cf_datas ?c2) ''fiber.stack_size'' = None" by (simp add: om_find_def)
  have less: "''fiber.stack_size'' < ''logs''" by (simp add: less_char_def)
  have c3: "g_fiber_stack_size conv la (?c2, ?w) = Returns (Some 1) (?c3, ?w)" for la
    unfolding g_fiber_stack_size_def Lookup_default_new [OF ok2 free start_names(2)] by (simp add: less)
  have ok3: "config_ok ?c3"
    using config_ok_add [OF ok2 free start_names(2), of size_type "Stack_Size (1024 * 1024)" "''fiber stack size''"]
    by (simp add: less)
  have "program_start conv place file line w0 = Returns (Some 0, Some 1) (?c3, ?w)"
    using c1 [of "root_log file line"] c2 c3 [of "root_log file line"]
    by (simp add: program_start_def managed_eq [OF assms] get)
  moreover have "program_ok place file line 0 ?c3 ?w"
    using ok ok3 by (auto simp: program_ok_def om_find_def less_Suc_eq ConfigVar_eq)
  moreover have "LoggerManager_getLogger ''system'' ?w = Inr (1, ?w)" by (rule getLogger_known [OF ok reg])
  ultimately show ?thesis by (intro exI conjI) (auto simp: ConfigVar_eq)
qed

lemma program_start_ok:
  assumes "w_loggers w0 = []" and "w_appenders w0 = []"
  shows "\<exists>c w l. program_start conv place file line w0 = Returns (Some 0, Some 1) (c, w) \<and>
    program_ok place file line 0 c w \<and> cv_val (cf_vars c ! 0) = Log_Defines [] \<and>
    cf_vars c ! 1 = ConfigVar size_type ''fiber.stack_size'' (Stack_Size 1048576) ''fiber stack size'' \<and>
    cf_datas c = [(''fiber.stack_size'', 1), (''logs'', 0)] \<and> LoggerManager_getLogger ''system'' w = Inr (l, w)"
  using program_start_eq [OF assms] by blast

section \<open>From a document to the loggers\<close>

text \<open>The casts report failures as exceptions, and print at most.\<close>

lemma logs_cast:
  "LogDefines_from_string Y text = Returns ds out \<Longrightarrow> logs_from_string Y text w = Returns (Log_Defines ds) (print out w)"
  by (simp add: logs_from_string_def)

lemma program_casts_std:
  assumes "\<And>t. throws (to_uint t)" and "\<And>out w. good w \<Longrightarrow> good (print out w)"
  shows "converters_std good (program_casts Y to_uint)"
proof -
  have "ends_std good (logs_from_string Y t w)" if "good w" for t w
    using std_from_string [of Y t] assms(2) that
    by (cases "LogDefines_from_string Y t") (auto simp: logs_from_string_def)
  moreover have "ends_std good (pure_cast (\<lambda>t. rbind (to_uint t) (\<lambda>n. Inr (Stack_Size n))) t w)"
    if "good w" for t w
    using assms(1) [of t] that by (cases "to_uint t") (auto simp: pure_cast_def throws_def)
  ultimately show ?thesis by (simp add: converters_std_def program_casts_def)
qed

text \<open>Every other node of the document: logging happens, and nothing of the variable or the loggers changes.\<close>

lemma load_others:
  assumes po: "program_ok place file line p c w" and "\<And>t. throws (to_uint t)"
    and names: "\<And>i. i \<in> set is \<Longrightarrow> map tolower (fst i) \<noteq> ''logs''"
  shows "reports (\<lambda>(c', w'). program_ok place file line p c' w' \<and> frame w w' \<and> cv_val (cf_vars c' ! p) = cv_val (cf_vars c ! p))
    (oloop (load_member (program_casts Y to_uint) Y (root_log f l)) is (c, w))"
proof -
  let ?good = "\<lambda>w'. world_ok w' \<and> frame w w'" and ?ps = "keys_ptrs c ((map tolower \<circ> fst) ` set is)"
  from po have ok: "config_ok c" and w: "?good w" and p: "om_find (cf_datas c) ''logs'' = Some p"
    by (auto simp: program_ok_def)
  have conv: "converters_std ?good (program_casts Y to_uint)"
  proof (rule program_casts_std [OF assms(2)])
    show "?good (print out w')" if "?good w'" for out w'
      using that world_ok_frame [OF _ frame_print, of w'] frame_trans [OF _ frame_print, of w w'] by blast
  qed
  have "var_std ?good (cf_vars c ! q)" if "i \<in> set is" "om_find (cf_datas c) (map tolower (fst i)) = Some q" for i q
  proof -
    have "q \<noteq> p" using names [OF that(1)] config_ok_find [OF ok that(2)] config_ok_find [OF ok p] by auto
    with po config_ok_find [OF ok that(2)] show ?thesis by (simp add: program_ok_def var_std_def)
  qed
  from root_frame.loop_reports [OF ok conv w this]
  have r: "reports (\<lambda>(c', w'). ?good w' \<and> loads ?ps c c') (oloop (load_member (program_casts Y to_uint) Y (root_log f l)) is (c, w))" .
  have "p \<notin> ?ps"
  proof
    assume "p \<in> ?ps"
    then obtain i where "i \<in> set is" "om_find (cf_datas c) (map tolower (fst i)) = Some p" by (auto simp: keys_ptrs_def)
    with names [of i] config_ok_find [OF ok this(2)] config_ok_find [OF ok p] show False by simp
  qed
  then have same: "cf_vars c' ! p = cf_vars c ! p" if "loads ?ps c c'" for c'
    using that config_ok_find [OF ok p] by (simp add: loads_def)
  have keep: "program_ok place file line p c' w'" if "loads ?ps c c'" "world_ok w'" for c' w'
  proof -
    have "cv_cbs (cf_vars c' ! q) = cv_cbs (cf_vars c ! q)" if "q < length (cf_vars c')" for q
      using loads_shape [OF \<open>loads ?ps c c'\<close>] loads_length [OF \<open>loads ?ps c c'\<close>] that by (simp add: cv_shape_def)
    with po loads_length [OF that(1)] have "\<forall>q < length (cf_vars c'). q \<noteq> p \<longrightarrow> cv_cbs (cf_vars c' ! q) = []"
      by (simp add: program_ok_def)
    moreover have "cf_datas c' = cf_datas c" using that(1) by (simp add: loads_def)
    ultimately show ?thesis
      using po that(2) same [OF that(1)] loads_config_ok [OF ok that(1)] by (simp add: program_ok_def)
  qed
  have "(case cs of (c', w') \<Rightarrow> ?good w' \<and> loads ?ps c c') \<Longrightarrow> (case cs of (c', w') \<Rightarrow>
      program_ok place file line p c' w' \<and> frame w w' \<and> cv_val (cf_vars c' ! p) = cv_val (cf_vars c ! p))" for cs
    using keep [of "fst cs" "snd cs"] same [of "fst cs"] by (cases cs) simp
  then show ?thesis by (rule reports_mono [OF r])
qed

text \<open>
  The definitions \<open>ds\<close> are the value of "logs", and in force; what was in force before, in \<open>w\<close>, for a
  name that they do not mention still is.
\<close>

definition loaded :: "string \<Rightarrow> string \<Rightarrow> 32 word \<Rightarrow> nat \<Rightarrow> log_defines \<Rightarrow> world \<Rightarrow> (conf_value, world) config \<Rightarrow> world \<Rightarrow> bool" where
  "loaded place file line p ds w c' w' \<longleftrightarrow> program_ok place file line p c' w' \<and> cv_val (cf_vars c' ! p) = Log_Defines ds \<and>
     (\<forall>i \<in> set ds. in_force w' i) \<and> (\<forall>j. ld_name j \<notin> ld_name ` set ds \<longrightarrow> in_force w j \<longrightarrow> in_force w' j)"

lemma loaded_frames:
  assumes "frame w w1" and "loaded place file line p ds w1 c2 w2" and "program_ok place file line p c3 w3"
    and "frame w2 w3" and "cv_val (cf_vars c3 ! p) = cv_val (cf_vars c2 ! p)"
  shows "loaded place file line p ds w c3 w3"
  using assms frame_in_force [OF assms(1)] frame_in_force [OF assms(4)] unfolding loaded_def by auto

text \<open>The node of "logs" itself.\<close>

lemma load_logs:
  assumes po: "program_ok place file line p c w" and val: "cv_val (cf_vars c ! p) = Log_Defines old"
    and defs: "LogDefines_from_string Y (node_text Y node) = Returns ds out"
    and new: "\<forall>i \<in> set ds. lds_find old i \<noteq> Some i"
  shows "reports (\<lambda>(c', w'). loaded place file line p ds w c' w')
    (load_member (program_casts Y to_uint) Y (root_log f l) (''logs'', node) (c, w))"
proof -
  from po obtain k where ok: "config_ok c" and w: "world_ok w" and p: "om_find (cf_datas c) ''logs'' = Some p"
    and ty: "cv_type (cf_vars c ! p) = logs_type" and cbs: "cv_cbs (cf_vars c ! p) = [(k, conf_listener place file line)]"
    by (auto simp: program_ok_def)
  from config_ok_find [OF ok p] have len: "p < length (cf_vars c)" by simp
  note idle = config_ok_idle [OF ok len]
  note ds = from_string_ok [OF defs]
  let ?x = "cf_vars c ! p" and ?w = "print out w"
  have w1: "world_ok ?w" by (rule world_ok_frame [OF w frame_print])
  let ?P = "\<lambda>(x', w'). x' = ?x\<lparr>cv_val := Log_Defines ds\<rparr> \<and> world_ok w' \<and> (\<forall>i \<in> set ds. in_force w' i) \<and> (\<forall>j. ld_name j \<notin> ld_name ` set ds \<longrightarrow> in_force w j \<longrightarrow> in_force w' j)"
  have set: "reports ?P (set_effect (Log_Defines ds) ?x ?w)"
  proof (cases "ds = old")
    case True
    have "ds = []"
    proof (rule ccontr)
      assume "ds \<noteq> []"
      then obtain i where i: "i \<in> set ds" by fastforce
      with lds_find_member [of ds i i] ds new True show False by simp
    qed
    moreover have "?x\<lparr>cv_val := Log_Defines ds\<rparr> = ?x" using val True by (cases ?x) simp
    ultimately show ?thesis using True val w1 by (simp add: set_effect_def print_in_force)
  next
    case False
    have run: "oloop (\<lambda>(key, cb). call_back cb (cv_val ?x) (Log_Defines ds)) (cv_cbs ?x) ?w =
        of_res (on_logger_conf_changed place file line old ds ?w)"
      by (cases "on_logger_conf_changed place file line old ds ?w")
        (simp_all add: cbs val call_back_def conf_listener_def logs_listener_def)
    from configuration_in_force [OF w1 _ new, of place "file" line] ds False val show ?thesis
      unfolding set_effect_def run print_in_force by (elim disjE exE conjE) (auto simp: run)
  qed
  have from_str: "fromString (fst (program_casts Y to_uint logs_type)) (root_log f l) (node_text Y node) (?x, w) =
      (case set_effect (Log_Defines ds) ?x ?w of
         Returns _ xs' \<Rightarrow> Returns False xs'
       | Raises (Std_Exception what) xs' \<Rightarrow>
           obind (on_world (LOG (root_log f l) ERROR (''ConfigVar::fromString() exception'' @ what @ '' convert : string to '' @
                    cv_type (fst xs') @ '' - '' @ node_text Y node)) xs') (\<lambda>_. Returns False)
       | Raises Other_Exception xs' \<Rightarrow> Raises Other_Exception xs'
       | Crashes f \<Rightarrow> Crashes f)"
    unfolding fromString_eq [OF idle] by (simp add: program_casts_def logs_cast [OF defs])
  have step: "load_member (program_casts Y to_uint) Y (root_log f l) (''logs'', node) (c, w) =
      obind (on_var p (fromString (fst (program_casts Y to_uint logs_type)) (root_log f l) (node_text Y node)) (c, w)) (\<lambda>_. Returns ())"
    using p ty by (simp add: load_member_def tolower_def letter_defs LookupBase_eq [OF ok] Let_def node_text_def)
  have "program_ok place file line p (c\<lparr>cf_vars := (cf_vars c)[p := ?x\<lparr>cv_val := Log_Defines ds\<rparr>]\<rparr>) w'" if "world_ok w'" for w'
  proof -
    have "loads {p} c (c\<lparr>cf_vars := (cf_vars c)[p := ?x\<lparr>cv_val := Log_Defines ds\<rparr>]\<rparr>)"
      by (rule loads_put [OF len]) (simp add: cv_shape_def)
    from loads_config_ok [OF ok this] that po len show ?thesis by (auto simp: program_ok_def nth_list_update)
  qed
  then show ?thesis
    using set len unfolding step by (cases "set_effect (Log_Defines ds) ?x ?w") (auto simp: on_var_def from_str loaded_def)
qed

lemma load_document:
  assumes po: "program_ok place file line p c w" and val: "cv_val (cf_vars c ! p) = Log_Defines old"
    and u: "\<And>t. throws (to_uint t)" and nest: "nested d Y root"
    and mem: "members d Y [] root = xs @ (''logs'', node) # ys" and once: "''logs'' \<notin> fst ` set (xs @ ys)"
    and defs: "LogDefines_from_string Y (node_text Y node) = Returns ds out" and new: "\<forall>i \<in> set ds. lds_find old i \<noteq> Some i"
  shows "reports (\<lambda>(c', w'). loaded place file line p ds w c' w')
    (LoadFromYaml d (program_casts Y to_uint) Y (root_log f l) root (c, w))"
proof -
  let ?load = "load_member (program_casts Y to_uint) Y (root_log f l)"
  let ?good = "\<lambda>w'. world_ok w' \<and> frame w w'"
  have names: "map tolower (fst i) \<noteq> ''logs''" if "i \<in> set xs \<or> i \<in> set ys" for i
  proof -
    have "i \<in> set (members d Y [] root)" using that by (auto simp: mem)
    then have "map tolower (fst i) = fst i" using members_valid [of "fst i" "snd i"] by (intro tolower_member) simp
    with once that show ?thesis by force
  qed
  have loop: "reports (\<lambda>(c', w'). loaded place file line p ds w c' w')
      (oloop ?load (xs @ (''logs'', node) # ys) (c, w0))" if g: "?good w0" for w0
  proof -
    have po0: "program_ok place file line p c w0" using po g by (simp add: program_ok_def)
    have "reports (\<lambda>(c', w'). program_ok place file line p c' w' \<and> frame w0 w' \<and> cv_val (cf_vars c' ! p) = cv_val (cf_vars c ! p))
        (oloop ?load xs (c, w0))" by (rule load_others [OF po0 u names]) simp
    then have "reports (\<lambda>(c', w'). loaded place file line p ds w c' w')
        (obind (oloop ?load xs (c, w0)) (\<lambda>_ cs. obind (?load (''logs'', node) cs) (\<lambda>_. oloop ?load ys)))"
    proof (rule reports_obind)
      fix a cs1
      assume "case cs1 of (c', w') \<Rightarrow> program_ok place file line p c' w' \<and> frame w0 w' \<and> cv_val (cf_vars c' ! p) = cv_val (cf_vars c ! p)"
      then obtain c1 w1 where cs1: "cs1 = (c1, w1)" and po1: "program_ok place file line p c1 w1"
        and fr: "frame w w1" and v1: "cv_val (cf_vars c1 ! p) = Log_Defines old"
        using val g frame_trans by (cases cs1) auto
      from load_logs [OF po1 v1 defs new, of to_uint f l]
      show "reports (\<lambda>(c', w'). loaded place file line p ds w c' w') (obind (?load (''logs'', node) cs1) (\<lambda>_. oloop ?load ys))"
        unfolding cs1
      proof (rule reports_obind)
        fix a cs2
        assume "case cs2 of (c', w') \<Rightarrow> loaded place file line p ds w1 c' w'"
        then obtain c2 w2 where cs2: "cs2 = (c2, w2)" and ld: "loaded place file line p ds w1 c2 w2" by (cases cs2) auto
        then have po2: "program_ok place file line p c2 w2" by (simp add: loaded_def)
        have "reports (\<lambda>(c', w'). program_ok place file line p c' w' \<and> frame w2 w' \<and> cv_val (cf_vars c' ! p) = cv_val (cf_vars c2 ! p))
            (oloop ?load ys (c2, w2))" by (rule load_others [OF po2 u names]) simp
        then show "reports (\<lambda>(c', w'). loaded place file line p ds w c' w') (oloop ?load ys cs2)"
          unfolding cs2 by (rule reports_mono) (auto intro: loaded_frames [OF fr ld])
      qed
    qed
    then show ?thesis by (simp add: oloop_append cong: obind_cong)
  qed
  have g: "?good w" using po by (simp add: program_ok_def)
  from root_frame.list_reports [OF nest g, of f l "[]" "[]"] loop show ?thesis
    by (cases "ListAllMember d Y (root_log f l) [] root ([], w)")
      (auto simp: LoadFromYaml_def dest!: ListAllMember_Returns simp: mem)
qed

text \<open>A document that does not name "logs" leaves the loggers as they are.\<close>

lemma load_without_logs:
  assumes po: "program_ok place file line p c w" and u: "\<And>t. throws (to_uint t)" and nest: "nested d Y root"
    and no: "''logs'' \<notin> fst ` set (members d Y [] root)"
  shows "reports (\<lambda>(c', w'). program_ok place file line p c' w' \<and> frame w w')
    (LoadFromYaml d (program_casts Y to_uint) Y (root_log f l) root (c, w))"
proof -
  let ?good = "\<lambda>w'. world_ok w' \<and> frame w w'"
  have names: "map tolower (fst i) \<noteq> ''logs''" if "i \<in> set (members d Y [] root)" for i
  proof -
    have "map tolower (fst i) = fst i" using that members_valid [of "fst i" "snd i"] by (intro tolower_member) simp
    with no that show ?thesis by force
  qed
  have loop: "reports (\<lambda>(c', w'). program_ok place file line p c' w' \<and> frame w w')
      (oloop (load_member (program_casts Y to_uint) Y (root_log f l)) (members d Y [] root) (c, w0))" if g: "?good w0" for w0
  proof -
    have "program_ok place file line p c w0" using po g by (simp add: program_ok_def)
    then show ?thesis by (rule reports_mono [OF load_others [OF _ u names]]) (use g in \<open>auto dest: frame_trans\<close>)
  qed
  have g: "?good w" using po by (simp add: program_ok_def)
  from root_frame.list_reports [OF nest g, of f l "[]" "[]"] loop show ?thesis
    by (cases "ListAllMember d Y (root_log f l) [] root ([], w)")
      (auto simp: LoadFromYaml_def dest!: ListAllMember_Returns)
qed

end
