(* ===== verification/Log_Dump.thy ===== *)
theory Log_Dump
  imports Log_Yaml
begin

text \<open>
  The toYamlString methods: they return, leave the loggers and every lock as they were, and what
  LoggerManager::toYamlString writes reads back as the definitions of the loggers in force.
\<close>

section \<open>Appenders\<close>

text \<open>The definition of an appender, and the formatter its node has.\<close>

definition own_pattern :: "appender \<Rightarrow> string option" where
  "own_pattern ap = (if ap_hasFormatter ap then map_option f_pattern (ap_formatter ap) else None)"

definition appender_define :: "appender \<Rightarrow> LogAppenderDefine" where
  "appender_define ap = \<lparr>
     ad_type = (case ap_kind ap of FileLogAppender f \<Rightarrow> 1 | StdoutLogAppender \<Rightarrow> 2),
     ad_level = ap_level ap, ad_formatter = or_empty (own_pattern ap), ad_file = ap_filename ap\<rparr>"

lemma typed_appender_define: "typed (appender_define ap)"
  by (simp add: typed_def appender_define_def split: appender_kind.split)

lemma appender_node_map: "appender_node Y ap = map_node Y (appender_kvs Y (appender_define ap) (own_pattern ap))"
  by (auto simp: appender_node_def appender_define_def own_pattern_def appender_kvs_def ap_filename_def Let_def
      map_node_Nil [of Y] put_string_map put_level_map split: appender_kind.split option.split)

lemma read_appender_node:
  "yaml_laws Y \<Longrightarrow> read_appender Y (appender_node Y ap) = Inr (Some (forget_appender (appender_define ap)), [])"
  unfolding appender_node_map
  by (rule read_appender_kvs) (simp_all add: typed_appender_define, simp add: appender_define_def)

lemma LogAppender_toYamlString_eq:
  assumes "get_appender w a = Some ap" and "\<not> ap_mutex ap"
  shows "LogAppender_toYamlString Y a w = Inr (y_emit Y (appender_node Y ap), w)"
proof -
  have "appender_node Y (ap\<lparr>ap_mutex := True\<rparr>) = appender_node Y ap"
    by (simp add: appender_node_def Let_def split: option.split)
  then show ?thesis
    using assms by (simp add: LogAppender_toYamlString_def lock_appender_free unlock_appender_def Spinlock_unlock_def
        appender_unlocked_same put_appender_same)
qed

section \<open>Loggers\<close>

definition reads_back :: "'n yaml \<Rightarrow> 'n \<Rightarrow> bool" where
  "reads_back Y n \<longleftrightarrow> y_load Y (y_emit Y n) = Some n"

definition logger_node :: "'n yaml \<Rightarrow> world \<Rightarrow> nat \<Rightarrow> 'n" where
  "logger_node Y w l = (let lg = w_loggers w ! l in
     log_node Y (lg_name lg) (lg_level lg) (map_option f_pattern (lg_formatter lg))
       (map (\<lambda>a. appender_node Y (w_appenders w ! a)) (lg_appenders lg)))"

definition logger_define :: "world \<Rightarrow> nat \<Rightarrow> LogDefine" where
  "logger_define w l = (let lg = w_loggers w ! l in
     \<lparr>ld_name = lg_name lg, ld_level = FromString (ToString (lg_level lg)),
      ld_formatter = or_empty (map_option f_pattern (lg_formatter lg)),
      ld_appenders = map (\<lambda>a. forget_appender (appender_define (w_appenders w ! a))) (lg_appenders lg)\<rparr>)"

lemma read_logger_node:
  "yaml_laws Y \<Longrightarrow> read_define Y (logger_node Y w l) out = Returns (Some (logger_define w l)) out"
  unfolding logger_node_def Let_def
  by (subst read_define_node) (auto simp: reads_appenders_def list_all2_conv_all_nth read_appender_node
      logger_define_def Let_def)

lemma push_loop:
  assumes "\<And>a. a \<in> set as \<Longrightarrow> LogAppender_toYamlString Y a w = Inr (y_emit Y (f a), w) \<and> reads_back Y (f a)"
  shows "rfold (\<lambda>a (n, w). rbind (LogAppender_toYamlString Y a w) (\<lambda>(s, w').
      rbind (or_throw (y_load Y s)) (\<lambda>x. rbind (push_at Y ''appenders'' x n) (\<lambda>n'. Inr (n', w'))))) as (n, w) =
    rbind (rfold (\<lambda>a. push_at Y ''appenders'' (f a)) as n) (\<lambda>n'. Inr (n', w))"
  using assms
proof (induction as arbitrary: n)
  case (Cons a as)
  then have "LogAppender_toYamlString Y a w = Inr (y_emit Y (f a), w)" "y_load Y (y_emit Y (f a)) = Some (f a)"
    by (auto simp: reads_back_def)
  with Cons show ?case by (cases "push_at Y ''appenders'' (f a) n") simp_all
qed simp

lemma Logger_toYamlString_eq:
  assumes laws: "yaml_laws Y" and ok: "logger_ok w lg" and lg: "get_logger w l = Some lg"
    and rb: "\<forall>a \<in> set (lg_appenders lg). reads_back Y (appender_node Y (w_appenders w ! a))"
  shows "Logger_toYamlString Y l w = Inr (y_emit Y (logger_node Y w l), w)"
proof -
  from ok have free: "\<not> lg_mutex lg" and rdy: "\<forall>a \<in> set (lg_appenders lg). ready w a"
    by (auto simp: logger_ok_def)
  let ?f = "\<lambda>a. appender_node Y (w_appenders w ! a)" and ?w1 = "put_logger l (lg\<lparr>lg_mutex := True\<rparr>) w"
  have app: "LogAppender_toYamlString Y a ?w1 = Inr (y_emit Y (?f a), ?w1) \<and> reads_back Y (?f a)" if "a \<in> set (lg_appenders lg)" for a
  proof -
    from rdy that obtain ap where "get_appender w a = Some ap" "\<not> ap_mutex ap" by (auto simp: ready_def)
    moreover from this(1) have "w_appenders w ! a = ap" by (simp add: get_appender_def split: if_splits)
    ultimately show ?thesis using rb that by (auto simp: LogAppender_toYamlString_eq)
  qed
  let ?fmt = "map_option f_pattern (lg_formatter lg)"
  have start: "(case lg_formatter lg of Some fm \<Rightarrow> put_string Y ''formatter'' (f_pattern fm) n | None \<Rightarrow> n) =
      map_node Y (define_kvs Y (lg_name lg) (lg_level lg) ?fmt)"
    if "n = map_node Y (define_kvs Y (lg_name lg) (lg_level lg) None)" for n
    unfolding that define_kvs_map(2) [of Y "lg_name lg" "lg_level lg" ?fmt] by (simp add: put_string_map split: option.split)
  have loop: "rfold (\<lambda>a. push_at Y ''appenders'' (?f a)) (lg_appenders lg) (map_node Y (define_kvs Y (lg_name lg) (lg_level lg) ?fmt)) =
      Inr (log_node Y (lg_name lg) (lg_level lg) ?fmt (map ?f (lg_appenders lg)))"
    unfolding log_node_def by (rule push_appenders [OF laws define_kvs_none])
  have "w_loggers w ! l = lg" using lg by (simp add: get_logger_def split: if_splits)
  then have node: "logger_node Y w l = log_node Y (lg_name lg) (lg_level lg) ?fmt (map ?f (lg_appenders lg))"
    by (simp add: logger_node_def)
  show ?thesis
    using unlock_after_lock [OF lg free] lg
    by (simp add: Logger_toYamlString_def lock_logger_free [OF lg free] Let_def define_kvs_map(1) start
        push_loop [OF app] loop node)
qed

section \<open>The manager\<close>

definition document_node :: "'n yaml \<Rightarrow> world \<Rightarrow> 'n" where
  "document_node Y w = seq_node Y (map (\<lambda>(name, l). logger_node Y w l) (mg_loggers (w_mgr w)))"

text \<open>Every node the methods write: those of appenders and loggers are loaded again on the way.\<close>

definition written_nodes :: "'n yaml \<Rightarrow> world \<Rightarrow> 'n list" where
  "written_nodes Y w = map (appender_node Y) (w_appenders w) @
     map (\<lambda>(name, l). logger_node Y w l) (mg_loggers (w_mgr w)) @ [document_node Y w]"

lemma registered:
  "world_ok w \<Longrightarrow> (name, l) \<in> set (mg_loggers (w_mgr w)) \<Longrightarrow> \<exists>lg. get_logger w l = Some lg \<and> lg_name lg = name"
  using world_ok_registry [of w] by (auto simp: registry_ok_def om_find_iff)

lemma LoggerManager_toYamlString_eq:
  assumes laws: "yaml_laws Y" and ok: "world_ok w" and rb: "\<forall>n \<in> set (written_nodes Y w). reads_back Y n"
  shows "LoggerManager_toYamlString Y w = Inr (y_emit Y (document_node Y w), w)"
proof -
  let ?w1 = "w\<lparr>w_mgr := (w_mgr w)\<lparr>mg_mutex := True\<rparr>\<rparr>" and ?g = "\<lambda>(name, l). logger_node Y w l"
  have free: "\<not> mg_mutex (w_mgr w)" using world_ok_registry [OF ok] by (simp add: registry_ok_def)
  have log: "Logger_toYamlString Y l ?w1 = Inr (y_emit Y (logger_node Y w l), ?w1) \<and> y_load Y (y_emit Y (logger_node Y w l)) = Some (logger_node Y w l)"
    if "(name, l) \<in> set (mg_loggers (w_mgr w))" for name l
  proof -
    from registered [OF ok that] obtain lg where lg: "get_logger w l = Some lg" by blast
    have "reads_back Y (appender_node Y (w_appenders w ! a))" if "a \<in> set (lg_appenders lg)" for a
    proof -
      have "a < length (w_appenders w)"
        using world_ok_logger [OF ok lg] that by (auto simp: logger_ok_def ready_def get_appender_def split: if_splits)
      then show ?thesis using rb by (auto simp: written_nodes_def)
    qed
    moreover have "logger_ok ?w1 lg" using world_ok_logger [OF ok lg] by (simp add: logger_ok_def ready_def)
    moreover have "logger_node Y ?w1 l = logger_node Y w l" by (simp add: logger_node_def)
    ultimately have "Logger_toYamlString Y l ?w1 = Inr (y_emit Y (logger_node Y w l), ?w1)"
      using Logger_toYamlString_eq [OF laws, of ?w1 lg l] lg by simp
    moreover have "reads_back Y (logger_node Y w l)" using rb that by (force simp: written_nodes_def)
    ultimately show ?thesis by (simp add: reads_back_def)
  qed
  have "rfold (\<lambda>(name, l) (n, w). rbind (Logger_toYamlString Y l w) (\<lambda>(s, w').
           rbind (or_throw (y_load Y s)) (\<lambda>x. Inr (y_push Y n x, w')))) ls (seq_node Y ns, ?w1) =
      Inr (seq_node Y (ns @ map ?g ls), ?w1)" if "set ls \<subseteq> set (mg_loggers (w_mgr w))" for ls ns
    using that
  proof (induction ls arbitrary: ns)
    case (Cons x ls)
    with log [of "fst x" "snd x"] show ?case by (cases x) (simp add: seq_node_snoc)
  qed simp
  from this [of "mg_loggers (w_mgr w)" "[]"]
  have "rfold (\<lambda>(name, l) (n, w). rbind (Logger_toYamlString Y l w) (\<lambda>(s, w').
           rbind (or_throw (y_load Y s)) (\<lambda>x. Inr (y_push Y n x, w')))) (mg_loggers (w_mgr w)) (y_node Y, ?w1) =
      Inr (document_node Y w, ?w1)" by (simp add: document_node_def seq_node_def)
  with free show ?thesis
    by (cases w; cases "w_mgr w") (simp add: LoggerManager_toYamlString_def lock_manager_def Spinlock_lock_def
        unlock_manager_def Spinlock_unlock_def)
qed

lemma logger_defines_ok:
  assumes ok: "world_ok w"
  shows "lds_ok (map (\<lambda>(name, l). logger_define w l) (mg_loggers (w_mgr w)))"
proof -
  have name: "ld_name (logger_define w l) = name" if "(name, l) \<in> set (mg_loggers (w_mgr w))" for name l
    using registered [OF ok that] by (auto simp: logger_define_def get_logger_def Let_def split: if_splits)
  have "om_ok (mg_loggers (w_mgr w))" using world_ok_registry [OF ok] by (simp add: registry_ok_def)
  then have "sorted_wrt (\<lambda>x y. fst x < fst y) (mg_loggers (w_mgr w))"
    by (simp add: om_ok_def sorted_wrt_map)
  then show ?thesis
    unfolding lds_ok_def sorted_wrt_map
    by (rule sorted_wrt_mono_rel [rotated]) (auto simp: ld_less_def name)
qed

section \<open>Property\<close>

text \<open>
  C27. The logging configuration survives its dump: in every well-formed state, with a YAML library
  that reads back the nodes written, LoggerManager::toYamlString returns, leaves loggers, appenders
  and locks as they were, and its text reads as the definitions of exactly the registered loggers, in
  the order of their names, each with its name, level and pattern and with its appenders, of their
  types, files and own patterns; the levels of the appenders are lost. Nothing is reported.
\<close>

theorem toYamlString_reloads:
  assumes "world_ok w" and "yaml_laws Y" and "\<forall>n \<in> set (written_nodes Y w). reads_back Y n"
  shows "\<exists>t. LoggerManager_toYamlString Y w = Inr (t, w) \<and>
    LogDefines_from_string Y t = Returns (map (\<lambda>(name, l). logger_define w l) (mg_loggers (w_mgr w))) []"
proof -
  have "reads_back Y (document_node Y w)" using assms(3) by (simp add: written_nodes_def)
  then have "y_load Y (y_emit Y (document_node Y w)) = Some (seq_node Y (map (\<lambda>(name, l). logger_node Y w l) (mg_loggers (w_mgr w))))"
    by (simp add: reads_back_def document_node_def)
  moreover have "list_all2 (\<lambda>n d. read_define Y n [] = Returns (Some d) [])
      (map (\<lambda>(name, l). logger_node Y w l) ls) (map (\<lambda>(name, l). logger_define w l) ls)" for ls :: "(string \<times> nat) list"
    by (induction ls) (auto simp: read_logger_node [OF assms(2)])
  ultimately show ?thesis
    using LoggerManager_toYamlString_eq [OF assms(2,1,3)] read_document [OF assms(2) logger_defines_ok [OF assms(1)]] by blast
qed

text \<open>A library that knows documents by number, one character of text each; it reads back every node of its list.\<close>

definition numbered_yaml :: "ynode list \<Rightarrow> ynode yaml" where
  "numbered_yaml ns = tree_yaml (\<lambda>s. Some (ns ! length s)) (\<lambda>n. replicate (length (takeWhile (\<lambda>m. m \<noteq> n) ns)) (CHR ''x''))"

lemma numbered_reads_back: "n \<in> set ns \<Longrightarrow> reads_back (numbered_yaml ns) n"
proof -
  assume "n \<in> set ns"
  then have "length (takeWhile (\<lambda>m. m \<noteq> n) ns) < length ns" by (induction ns) auto
  from nth_length_takeWhile [OF this] show ?thesis by (simp add: reads_back_def numbered_yaml_def tree_yaml_def)
qed

lemma tree_written_nodes: "written_nodes (tree_yaml ld em) w = written_nodes (tree_yaml ld' em') w"
proof -
  have nd: "y_node (tree_yaml ld em) = y_node (tree_yaml ld' em')" "y_of_string (tree_yaml ld em) = y_of_string (tree_yaml ld' em')"
    by (simp_all add: tree_yaml_def)
  have mp: "map_node (tree_yaml ld em) = map_node (tree_yaml ld' em')"
    by (intro ext) (simp add: map_node_def tree_yaml_def)
  have seq: "seq_node (tree_yaml ld em) = seq_node (tree_yaml ld' em')"
    by (intro ext) (simp add: seq_node_def tree_yaml_def)
  have kv: "opt_kv (tree_yaml ld em) = opt_kv (tree_yaml ld' em')" by (intro ext) (simp add: opt_kv_def nd split: option.split)
  have app: "appender_node (tree_yaml ld em) = appender_node (tree_yaml ld' em')"
    by (intro ext) (simp add: appender_node_map appender_kvs_def nd mp kv)
  have "logger_node (tree_yaml ld em) = logger_node (tree_yaml ld' em')"
    by (intro ext) (simp add: logger_node_def log_node_def define_kvs_def appenders_kvs_def nd mp kv seq app Let_def)
  then show ?thesis by (simp add: written_nodes_def document_node_def app seq)
qed

theorem toYamlString_reloads_witness:
  "\<exists>Y t. LoggerManager_toYamlString Y (managed blank_world) = Inr (t, managed blank_world) \<and>
    LogDefines_from_string (Y :: ynode yaml) t = Returns
      [\<lparr>ld_name = ''root'', ld_level = DEBUG, ld_formatter = default_pattern,
        ld_appenders = [\<lparr>ad_type = 2, ad_level = UNKNOW, ad_formatter = [], ad_file = []\<rparr>]\<rparr>] []"
proof -
  let ?w = "managed blank_world"
  let ?Y = "numbered_yaml (written_nodes (tree_yaml (\<lambda>s. None) (\<lambda>n. [])) ?w)"
  have "\<forall>n \<in> set (written_nodes ?Y ?w). reads_back ?Y n"
    by (subst (1) numbered_yaml_def, subst tree_written_nodes [where ld' = "\<lambda>s. None" and em' = "\<lambda>n. []"])
      (simp add: numbered_reads_back)
  moreover have "yaml_laws ?Y" by (simp add: numbered_yaml_def tree_laws)
  moreover have "map (\<lambda>(name, l). logger_define ?w l) (mg_loggers (w_mgr ?w)) =
      [\<lparr>ld_name = ''root'', ld_level = DEBUG, ld_formatter = default_pattern,
        ld_appenders = [\<lparr>ad_type = 2, ad_level = UNKNOW, ad_formatter = [], ad_file = []\<rparr>]\<rparr>]"
    by (simp add: managed_def logger_define_def root_logger_object_def root_console_def appender_define_def own_pattern_def
        forget_appender_def ap_filename_def FromString_ToString)
  ultimately show ?thesis using toYamlString_reloads [OF managed_ok [OF blank_simps(1,2)], of ?Y] by fastforce
qed

end
