(* ===== verification/Config_Race.thy ===== *)
theory Config_Race
  imports Locks
begin

text \<open>
  ConfigVar under contention (config.h): threads that call setValue and getValue of one variable, as
  an interleaving of steps between the operations on the variable's read-write lock. A lock operation
  that has to wait is a step that is not enabled. Config_Var models a call in one piece.
\<close>

section \<open>The machine\<close>

datatype 'v var_op = Set_Value 'v | Get_Value

datatype 'v var_pc =
    Between                                        \<comment> \<open>between two calls\<close>
  | Comparing 'v                                   \<comment> \<open>setValue, with the read lock\<close>
  | Calling 'v "64 word list"                      \<comment> \<open>setValue, the listeners still to call\<close>
  | Thrown                                         \<comment> \<open>setValue, leaving the read section by an exception\<close>
  | Released 'v                                    \<comment> \<open>setValue, between its two locks\<close>
  | Writing 'v                                     \<comment> \<open>setValue, with the write lock\<close>
  | Written
  | Reading                                        \<comment> \<open>getValue, with the read lock\<close>
  | Read

record 'v shared_var =
  sv_lock :: rwlock
  sv_val :: 'v
  sv_pc :: "nat \<Rightarrow> 'v var_pc"
  sv_todo :: "nat \<Rightarrow> 'v var_op list"
  sv_calls :: "(64 word \<times> 'v \<times> 'v) list"          \<comment> \<open>listener calls: key, old value, new value\<close>
  sv_got :: "(nat \<times> 'v) list"                      \<comment> \<open>results of getValue\<close>

definition shared_init :: "'v \<Rightarrow> (nat \<Rightarrow> 'v var_op list) \<Rightarrow> 'v shared_var" where
  "shared_init v work = \<lparr>sv_lock = RWMutex_init, sv_val = v, sv_pc = (\<lambda>_. Between), sv_todo = work,
     sv_calls = [], sv_got = []\<rparr>"

definition goto :: "nat \<Rightarrow> 'v var_pc \<Rightarrow> 'v shared_var \<Rightarrow> 'v shared_var" where
  "goto i p s = s\<lparr>sv_pc := (sv_pc s)(i := p)\<rparr>"

text \<open>
  Threads 0 to n - 1; \<open>keys\<close> are the listeners' keys, in the order of the map, and \<open>T\<close> those of the
  listeners that may throw. Each call of a listener returns or throws, and does not use the variable:
  one that assigned it would wait for its own thread's read lock. An exception leaves setValue, which
  gives back the read lock and stores nothing, and the thread that called setValue handles it.
\<close>

inductive var_step :: "nat \<Rightarrow> 64 word list \<Rightarrow> 64 word set \<Rightarrow> 'v shared_var \<Rightarrow> 'v shared_var \<Rightarrow> bool" for n keys T where
  set_rdlock: "i < n \<Longrightarrow> sv_pc s i = Between \<Longrightarrow> sv_todo s i = Set_Value v # ops \<Longrightarrow> RWMutex_rdlock (sv_lock s) = Some m \<Longrightarrow>
    var_step n keys T s (goto i (Comparing v) (s\<lparr>sv_lock := m, sv_todo := (sv_todo s)(i := ops)\<rparr>))"
| set_same: "i < n \<Longrightarrow> sv_pc s i = Comparing v \<Longrightarrow> v = sv_val s \<Longrightarrow>
    var_step n keys T s (goto i Between (s\<lparr>sv_lock := RWMutex_unlock (sv_lock s)\<rparr>))"
| set_differs: "i < n \<Longrightarrow> sv_pc s i = Comparing v \<Longrightarrow> v \<noteq> sv_val s \<Longrightarrow>
    var_step n keys T s (goto i (Calling v keys) s)"
| set_call: "i < n \<Longrightarrow> sv_pc s i = Calling v (k # ks) \<Longrightarrow>
    var_step n keys T s (goto i (Calling v ks) (s\<lparr>sv_calls := sv_calls s @ [(k, sv_val s, v)]\<rparr>))"
| set_throw: "i < n \<Longrightarrow> sv_pc s i = Calling v (k # ks) \<Longrightarrow> k \<in> T \<Longrightarrow>
    var_step n keys T s (goto i Thrown (s\<lparr>sv_calls := sv_calls s @ [(k, sv_val s, v)]\<rparr>))"
| set_unwind: "i < n \<Longrightarrow> sv_pc s i = Thrown \<Longrightarrow>
    var_step n keys T s (goto i Between (s\<lparr>sv_lock := RWMutex_unlock (sv_lock s)\<rparr>))"
| set_rdunlock: "i < n \<Longrightarrow> sv_pc s i = Calling v [] \<Longrightarrow>
    var_step n keys T s (goto i (Released v) (s\<lparr>sv_lock := RWMutex_unlock (sv_lock s)\<rparr>))"
| set_wrlock: "i < n \<Longrightarrow> sv_pc s i = Released v \<Longrightarrow> RWMutex_wrlock (sv_lock s) = Some m \<Longrightarrow>
    var_step n keys T s (goto i (Writing v) (s\<lparr>sv_lock := m\<rparr>))"
| set_store: "i < n \<Longrightarrow> sv_pc s i = Writing v \<Longrightarrow>
    var_step n keys T s (goto i Written (s\<lparr>sv_val := v\<rparr>))"
| set_wrunlock: "i < n \<Longrightarrow> sv_pc s i = Written \<Longrightarrow>
    var_step n keys T s (goto i Between (s\<lparr>sv_lock := RWMutex_unlock (sv_lock s)\<rparr>))"
| get_rdlock: "i < n \<Longrightarrow> sv_pc s i = Between \<Longrightarrow> sv_todo s i = Get_Value # ops \<Longrightarrow> RWMutex_rdlock (sv_lock s) = Some m \<Longrightarrow>
    var_step n keys T s (goto i Reading (s\<lparr>sv_lock := m, sv_todo := (sv_todo s)(i := ops)\<rparr>))"
| get_copy: "i < n \<Longrightarrow> sv_pc s i = Reading \<Longrightarrow>
    var_step n keys T s (goto i Read (s\<lparr>sv_got := sv_got s @ [(i, sv_val s)]\<rparr>))"
| get_rdunlock: "i < n \<Longrightarrow> sv_pc s i = Read \<Longrightarrow>
    var_step n keys T s (goto i Between (s\<lparr>sv_lock := RWMutex_unlock (sv_lock s)\<rparr>))"

inductive var_reach :: "nat \<Rightarrow> 64 word list \<Rightarrow> 64 word set \<Rightarrow> 'v \<Rightarrow> (nat \<Rightarrow> 'v var_op list) \<Rightarrow> 'v shared_var \<Rightarrow> bool" for n keys T v work where
  var_start: "var_reach n keys T v work (shared_init v work)"
| var_next: "var_reach n keys T v work s \<Longrightarrow> var_step n keys T s t \<Longrightarrow> var_reach n keys T v work t"

lemma goto_simps [simp]:
  "sv_pc (goto i p s) = (sv_pc s)(i := p)" "sv_lock (goto i p s) = sv_lock s" "sv_val (goto i p s) = sv_val s"
  "sv_todo (goto i p s) = sv_todo s" "sv_calls (goto i p s) = sv_calls s" "sv_got (goto i p s) = sv_got s"
  by (simp_all add: goto_def)

section \<open>The lock and its holders\<close>

fun reads :: "'v var_pc \<Rightarrow> bool" where
  "reads (Comparing v) = True" | "reads (Calling v ks) = True" | "reads Reading = True" | "reads Read = True"
| "reads Thrown = True" | "reads Between = False" | "reads (Released v) = False" | "reads (Writing v) = False" | "reads Written = False"

fun writes :: "'v var_pc \<Rightarrow> bool" where
  "writes (Writing v) = True" | "writes Written = True"
| "writes (Comparing v) = False" | "writes (Calling v ks) = False" | "writes Reading = False" | "writes Read = False"
| "writes Thrown = False"
| "writes Between = False" | "writes (Released v) = False"

lemma reads_not_writes: "reads p \<Longrightarrow> \<not> writes p"
  by (cases p) simp_all

definition holders :: "nat \<Rightarrow> rwlock \<Rightarrow> (nat \<Rightarrow> 'v var_pc) \<Rightarrow> bool" where
  "holders n m f \<longleftrightarrow> (\<forall>i. reads (f i) \<or> writes (f i) \<longrightarrow> i < n) \<and>
     rw_readers m = (\<Sum>i<n. of_bool (reads (f i))) \<and> (rw_writer m \<longleftrightarrow> (\<exists>i. writes (f i))) \<and>
     (\<forall>i j. writes (f i) \<longrightarrow> \<not> reads (f j) \<and> (writes (f j) \<longrightarrow> j = i))"

lemma sum_update:
  fixes f :: "nat \<Rightarrow> 'p" and g :: "'p \<Rightarrow> nat"
  assumes "i < n"
  shows "(\<Sum>j<n. g ((f(i := p)) j)) + g (f i) = (\<Sum>j<n. g (f j)) + g p"
proof -
  have "(\<Sum>j\<in>{..<n} - {i}. g ((f(i := p)) j)) = (\<Sum>j\<in>{..<n} - {i}. g (f j))" by (rule sum.cong) auto
  then have "(\<Sum>j<n. g ((f(i := p)) j)) = g p + (\<Sum>j\<in>{..<n} - {i}. g (f j))"
    using assms by (subst sum.remove [of "{..<n}" i]) simp_all
  moreover have "(\<Sum>j<n. g (f j)) = g (f i) + (\<Sum>j\<in>{..<n} - {i}. g (f j))"
    using assms by (simp add: sum.remove [of "{..<n}" i])
  ultimately show ?thesis by simp
qed

lemma no_readers: "holders n m f \<Longrightarrow> rw_readers m = 0 \<longleftrightarrow> (\<forall>j. \<not> reads (f j))"
  by (auto simp: holders_def)

lemma holders_same:
  "holders n m f \<Longrightarrow> i < n \<Longrightarrow> reads q = reads (f i) \<Longrightarrow> writes q = writes (f i) \<Longrightarrow> holders n m (f(i := q))"
  using sum_update [where g = "\<lambda>p. of_bool (reads p)" and f = f and i = i and p = q and n = n]
  by (auto simp: holders_def)

lemma holders_rdlock:
  "holders n m f \<Longrightarrow> i < n \<Longrightarrow> \<not> reads (f i) \<Longrightarrow> \<not> writes (f i) \<Longrightarrow> reads q \<Longrightarrow> RWMutex_rdlock m = Some m' \<Longrightarrow>
     holders n m' (f(i := q))"
  using sum_update [where g = "\<lambda>p. of_bool (reads p)" and f = f and i = i and p = q and n = n] reads_not_writes [of q]
  by (auto simp: holders_def RWMutex_rdlock_def split: if_splits)

lemma holders_wrlock:
  assumes "holders n m f" and "i < n" and "writes q" and "RWMutex_wrlock m = Some m'"
  shows "holders n m' (f(i := q))"
proof -
  from assms(1,4) have free: "\<not> reads (f j)" "\<not> writes (f j)" for j
    using no_readers [OF assms(1)] by (auto simp: holders_def RWMutex_wrlock_def split: if_splits)
  have "\<not> reads q" using assms(3) reads_not_writes by blast
  with assms free show ?thesis
    by (auto simp: holders_def RWMutex_wrlock_def split: if_splits)
qed

lemma holders_rdunlock:
  assumes "holders n m f" and "i < n" and "reads (f i)" and "\<not> reads q" and "\<not> writes q"
  shows "holders n (RWMutex_unlock m) (f(i := q))"
proof -
  from assms(1,3) have "\<not> rw_writer m" by (auto simp: holders_def)
  with assms sum_update [where g = "\<lambda>p. of_bool (reads p)" and f = f and i = i and p = q and n = n] show ?thesis
    by (auto simp: holders_def RWMutex_unlock_def)
qed

lemma holders_wrunlock:
  assumes "holders n m f" and "i < n" and "writes (f i)" and "\<not> reads q" and "\<not> writes q"
  shows "holders n (RWMutex_unlock m) (f(i := q))"
proof -
  from assms(1,3) have w: "rw_writer m" "\<not> reads (f j)" "writes (f j) \<Longrightarrow> j = i" for j by (auto simp: holders_def)
  have "\<not> reads ((f(i := q)) j)" "\<not> writes ((f(i := q)) j)" for j using assms(4,5) w(2,3) by auto
  moreover have "rw_readers m = 0" using no_readers [OF assms(1)] w(2) by blast
  ultimately show ?thesis using w(1) by (simp add: holders_def RWMutex_unlock_def)
qed

lemma holders_step: "var_step n keys T s t \<Longrightarrow> holders n (sv_lock s) (sv_pc s) \<Longrightarrow> holders n (sv_lock t) (sv_pc t)"
  by (induction rule: var_step.induct)
    (simp_all add: holders_same holders_rdlock holders_wrlock holders_rdunlock holders_wrunlock)

lemma holders_reach: "var_reach n keys T v work s \<Longrightarrow> holders n (sv_lock s) (sv_pc s)"
proof (induction rule: var_reach.induct)
  case var_start
  show ?case by (simp add: shared_init_def holders_def RWMutex_init_def)
qed (rule holders_step)

section \<open>Values\<close>

text \<open>The values that may appear: the first one and those some thread assigns.\<close>

definition known_values :: "nat \<Rightarrow> 'v \<Rightarrow> (nat \<Rightarrow> 'v var_op list) \<Rightarrow> 'v set" where
  "known_values n v work = insert v {x. \<exists>i<n. Set_Value x \<in> set (work i)}"

fun pc_values :: "'v var_pc \<Rightarrow> 'v set" where
  "pc_values (Comparing v) = {v}" | "pc_values (Calling v ks) = {v}" | "pc_values (Released v) = {v}"
| "pc_values (Writing v) = {v}" | "pc_values Between = {}" | "pc_values Written = {}"
| "pc_values Thrown = {}" | "pc_values Reading = {}" | "pc_values Read = {}"

definition values_ok :: "64 word list \<Rightarrow> 'v set \<Rightarrow> nat \<Rightarrow> 'v shared_var \<Rightarrow> bool" where
  "values_ok keys V n s \<longleftrightarrow> sv_val s \<in> V \<and> (\<forall>i < n. \<forall>v. Set_Value v \<in> set (sv_todo s i) \<longrightarrow> v \<in> V) \<and>
     (\<forall>i < n. pc_values (sv_pc s i) \<subseteq> V) \<and> (\<forall>i v. (i, v) \<in> set (sv_got s) \<longrightarrow> v \<in> V) \<and>
     (\<forall>i < n. \<forall>v ks. sv_pc s i = Calling v ks \<longrightarrow> v \<noteq> sv_val s \<and> set ks \<subseteq> set keys) \<and>
     (\<forall>k v v'. (k, v, v') \<in> set (sv_calls s) \<longrightarrow> k \<in> set keys \<and> v \<noteq> v' \<and> v \<in> V \<and> v' \<in> V)"

lemma values_step:
  assumes "var_step n keys T s t" and "holders n (sv_lock s) (sv_pc s)" and "values_ok keys V n s"
  shows "values_ok keys V n t"
  using assms(1)
proof (cases rule: var_step.cases)
  case (set_store i v)
  then have "writes (sv_pc s i)" by simp
  with assms(2) have "\<not> reads (sv_pc s j)" for j unfolding holders_def by blast
  then have "sv_pc s j \<noteq> Calling x ks" for j x ks by (metis reads.simps(2))
  with set_store assms(3) show ?thesis by (auto simp: values_ok_def)
qed (use assms(3) in \<open>force simp: values_ok_def\<close>)+

lemma values_reach: "var_reach n keys T v work s \<Longrightarrow> values_ok keys (known_values n v work) n s"
proof (induction rule: var_reach.induct)
  case var_start
  show ?case by (auto simp: values_ok_def shared_init_def known_values_def)
qed (rule values_step [OF _ holders_reach])

lemma changes_step:
  "var_step n keys T s t \<Longrightarrow> (\<forall>i. sv_pc s i = Thrown \<longrightarrow> sv_pc t i \<in> {Thrown, Between}) \<and>
     (sv_val t = sv_val s \<or> (\<exists>i. sv_pc s i = Writing (sv_val t) \<and> sv_pc t i = Written))"
  by (induction rule: var_step.induct) auto

section \<open>Progress\<close>

text \<open>The steps still to come, at most.\<close>

fun pc_cost :: "64 word list \<Rightarrow> 'v var_pc \<Rightarrow> nat" where
  "pc_cost keys (Comparing v) = length keys + 5" | "pc_cost keys (Calling v ks) = length ks + 4"
| "pc_cost keys (Released v) = 3" | "pc_cost keys (Writing v) = 2" | "pc_cost keys Written = 1"
| "pc_cost keys Thrown = 1" | "pc_cost keys Reading = 2" | "pc_cost keys Read = 1" | "pc_cost keys Between = 0"

lemma pc_cost_zero: "pc_cost keys p = 0 \<longleftrightarrow> p = Between"
  by (cases p) simp_all

lemma no_hold: "\<not> reads p \<Longrightarrow> \<not> writes p \<Longrightarrow> p = Between \<or> (\<exists>v. p = Released v)"
  by (cases p) simp_all

definition cost :: "64 word list \<Rightarrow> 'v var_pc \<Rightarrow> 'v var_op list \<Rightarrow> nat" where
  "cost keys p ops = pc_cost keys p +
     sum_list (map (\<lambda>op. case op of Set_Value v \<Rightarrow> length keys + 6 | Get_Value \<Rightarrow> 3) ops)"

definition steps_to_come :: "nat \<Rightarrow> 64 word list \<Rightarrow> 'v shared_var \<Rightarrow> nat" where
  "steps_to_come n keys s = (\<Sum>i<n. cost keys (sv_pc s i) (sv_todo s i))"

lemma steps_less:
  assumes "i < n" and "cost keys (sv_pc t i) (sv_todo t i) < cost keys (sv_pc s i) (sv_todo s i)"
    and "\<And>j. j \<noteq> i \<Longrightarrow> sv_pc t j = sv_pc s j \<and> sv_todo t j = sv_todo s j"
  shows "steps_to_come n keys t < steps_to_come n keys s"
  unfolding steps_to_come_def using assms by (intro sum_strict_mono_ex1) (auto simp: le_less, metis le_less)

lemma step_decreases: "var_step n keys T s t \<Longrightarrow> steps_to_come n keys t < steps_to_come n keys s"
  by (induction rule: var_step.induct) (erule steps_less; simp add: cost_def)+

text \<open>A thread that holds the lock can always move; without holders every waiting thread can.\<close>

lemma holder_moves:
  assumes "i < n" and "reads (sv_pc s i) \<or> writes (sv_pc s i)"
  shows "\<exists>t. var_step n keys T s t"
proof (cases "sv_pc s i")
  case (Comparing v)
  then show ?thesis using assms(1) by (cases "v = sv_val s") (blast intro: var_step.intros)+
next
  case (Calling v ks)
  then show ?thesis using assms(1) by (cases ks) (blast intro: var_step.intros)+
qed (use assms in \<open>auto intro: var_step.intros\<close>)

lemma some_step:
  assumes hold: "holders n (sv_lock s) (sv_pc s)" and "steps_to_come n keys s \<noteq> 0"
  shows "\<exists>t. var_step n keys T s t"
proof (cases "\<exists>i. reads (sv_pc s i) \<or> writes (sv_pc s i)")
  case True
  with hold holder_moves show ?thesis unfolding holders_def by blast
next
  case False
  with hold have free: "rw_readers (sv_lock s) = 0" "\<not> rw_writer (sv_lock s)" by (auto simp: holders_def)
  then have rd: "RWMutex_rdlock (sv_lock s) = Some ((sv_lock s)\<lparr>rw_readers := 0 + 1\<rparr>)"
    and wr: "RWMutex_wrlock (sv_lock s) = Some ((sv_lock s)\<lparr>rw_writer := True\<rparr>)"
    by (simp_all add: RWMutex_rdlock_def RWMutex_wrlock_def)
  from assms(2) obtain i where i: "i < n" and c: "cost keys (sv_pc s i) (sv_todo s i) \<noteq> 0"
    by (auto simp: steps_to_come_def)
  from False consider "sv_pc s i = Between" | v where "sv_pc s i = Released v" using no_hold by blast
  then show ?thesis
  proof cases
    case 1
    with c obtain op ops where ops: "sv_todo s i = op # ops" by (cases "sv_todo s i") (auto simp: cost_def)
    show ?thesis
      by (cases op) (use set_rdlock [OF i 1 _ rd] get_rdlock [OF i 1 _ rd] ops in blast)+
  next
    case 2
    show ?thesis using set_wrlock [OF i 2 wr] by blast
  qed
qed

lemma all_done:
  assumes hold: "holders n (sv_lock s) (sv_pc s)" and "steps_to_come n keys s = 0"
  shows "sv_lock s = RWMutex_init"
proof -
  have "cost keys (sv_pc s i) (sv_todo s i) = 0" if "i < n" for i
    using assms(2) that by (simp add: steps_to_come_def)
  then have "sv_pc s i = Between" if "i < n" for i using that by (simp add: cost_def pc_cost_zero)
  then have "\<not> reads (sv_pc s i)" "\<not> writes (sv_pc s i)" if "i < n" for i using that by simp_all
  with hold have idle: "\<not> reads (sv_pc s i)" "\<not> writes (sv_pc s i)" for i unfolding holders_def by blast+
  from hold idle have "rw_readers (sv_lock s) = 0" "\<not> rw_writer (sv_lock s)" by (simp_all add: holders_def)
  then show ?thesis by (cases "sv_lock s") (simp add: RWMutex_init_def)
qed

section \<open>One thread, and two\<close>

text \<open>The calls of a run of assignments by one thread, and the value it ends with.\<close>

fun told :: "64 word list \<Rightarrow> 'v \<Rightarrow> 'v var_op list \<Rightarrow> (64 word \<times> 'v \<times> 'v) list" where
  "told keys old [] = []"
| "told keys old (Get_Value # ops) = told keys old ops"
| "told keys old (Set_Value v # ops) =
     (if v = old then told keys old ops else map (\<lambda>k. (k, old, v)) keys @ told keys v ops)"

fun last_value :: "'v \<Rightarrow> 'v var_op list \<Rightarrow> 'v" where
  "last_value old [] = old"
| "last_value old (Get_Value # ops) = last_value old ops"
| "last_value old (Set_Value v # ops) = last_value v ops"

fun still_told :: "64 word list \<Rightarrow> 'v \<Rightarrow> 'v var_pc \<Rightarrow> 'v var_op list \<Rightarrow> (64 word \<times> 'v \<times> 'v) list" where
  "still_told keys old (Comparing v) ops = told keys old (Set_Value v # ops)"
| "still_told keys old (Calling v ks) ops = map (\<lambda>k. (k, old, v)) ks @ told keys v ops"
| "still_told keys old (Released v) ops = told keys v ops"
| "still_told keys old (Writing v) ops = told keys v ops"
| "still_told keys old Between ops = told keys old ops"
| "still_told keys old Thrown ops = told keys old ops"
| "still_told keys old Written ops = told keys old ops"
| "still_told keys old Reading ops = told keys old ops"
| "still_told keys old Read ops = told keys old ops"

fun value_to_come :: "'v \<Rightarrow> 'v var_pc \<Rightarrow> 'v var_op list \<Rightarrow> 'v" where
  "value_to_come old (Comparing v) ops = last_value v ops"
| "value_to_come old (Calling v ks) ops = last_value v ops"
| "value_to_come old (Released v) ops = last_value v ops"
| "value_to_come old (Writing v) ops = last_value v ops"
| "value_to_come old Between ops = last_value old ops"
| "value_to_come old Thrown ops = last_value old ops"
| "value_to_come old Written ops = last_value old ops"
| "value_to_come old Reading ops = last_value old ops"
| "value_to_come old Read ops = last_value old ops"

lemma alone_step:
  "var_step n keys T s t \<Longrightarrow> n = 1 \<Longrightarrow> T = {} \<Longrightarrow>
    sv_calls t @ still_told keys (sv_val t) (sv_pc t 0) (sv_todo t 0) =
      sv_calls s @ still_told keys (sv_val s) (sv_pc s 0) (sv_todo s 0) \<and>
    value_to_come (sv_val t) (sv_pc t 0) (sv_todo t 0) = value_to_come (sv_val s) (sv_pc s 0) (sv_todo s 0)"
  by (induction rule: var_step.induct) simp_all

lemma alone_reach:
  "var_reach 1 keys {} v work s \<Longrightarrow>
    sv_calls s @ still_told keys (sv_val s) (sv_pc s 0) (sv_todo s 0) = told keys v (work 0) \<and>
    value_to_come (sv_val s) (sv_pc s 0) (sv_todo s 0) = last_value v (work 0)"
proof (induction rule: var_reach.induct)
  case var_start
  show ?case by (simp add: shared_init_def)
next
  case (var_next s t)
  from alone_step [OF var_next.hyps(2) refl refl] var_next.IH show ?case by simp
qed

lemma alone_done:
  assumes "var_reach 1 keys {} v work s" and "steps_to_come 1 keys s = 0"
  shows "sv_calls s = told keys v (work 0) \<and> sv_val s = last_value v (work 0)"
proof -
  from assms(2) have "sv_pc s 0 = Between" by (simp add: steps_to_come_def cost_def pc_cost_zero)
  moreover have "sv_todo s 0 = []"
  proof (cases "sv_todo s 0")
    case (Cons op ops)
    with assms(2) show ?thesis by (cases op) (simp_all add: steps_to_come_def cost_def)
  qed simp
  ultimately show ?thesis using alone_reach [OF assms(1)] by simp
qed

text \<open>The two halves of setValue, run without interruption, for one listener.\<close>

lemma run_notify_half:
  assumes "var_reach n [k] T a work s" and "i < n" and "sv_pc s i = Between" and "sv_todo s i = Set_Value v # ops"
    and "sv_lock s = RWMutex_init" and "v \<noteq> sv_val s"
  shows "var_reach n [k] T a work (goto i (Released v)
    (s\<lparr>sv_todo := (sv_todo s)(i := ops), sv_calls := sv_calls s @ [(k, sv_val s, v)]\<rparr>))"
proof -
  let ?m = "RWMutex_init\<lparr>rw_readers := 1\<rparr>"
  let ?s1 = "goto i (Comparing v) (s\<lparr>sv_lock := ?m, sv_todo := (sv_todo s)(i := ops)\<rparr>)"
  let ?s2 = "goto i (Calling v [k]) ?s1"
  let ?s3 = "goto i (Calling v []) (?s2\<lparr>sv_calls := sv_calls ?s2 @ [(k, sv_val ?s2, v)]\<rparr>)"
  let ?s4 = "goto i (Released v) (?s3\<lparr>sv_lock := RWMutex_unlock (sv_lock ?s3)\<rparr>)"
  note assms(1)
  also have "var_step n [k] T s ?s1"
    by (rule set_rdlock) (use assms in \<open>simp_all add: RWMutex_rdlock_def RWMutex_init_def\<close>)
  finally (var_next) have "var_reach n [k] T a work ?s1" .
  also have "var_step n [k] T ?s1 ?s2" by (rule set_differs) (use assms in simp_all)
  finally (var_next) have "var_reach n [k] T a work ?s2" .
  also have "var_step n [k] T ?s2 ?s3" by (rule set_call) (use assms in simp_all)
  finally (var_next) have "var_reach n [k] T a work ?s3" .
  also have "var_step n [k] T ?s3 ?s4" by (rule set_rdunlock) (use assms in simp_all)
  finally (var_next) have "var_reach n [k] T a work ?s4" .
  moreover have "?s4 = goto i (Released v) (s\<lparr>sv_todo := (sv_todo s)(i := ops), sv_calls := sv_calls s @ [(k, sv_val s, v)]\<rparr>)"
    using assms(5) by (cases s) (simp add: goto_def RWMutex_unlock_def RWMutex_init_def)
  ultimately show ?thesis by simp
qed

lemma run_store_half:
  assumes "var_reach n keys T a work s" and "i < n" and "sv_pc s i = Released v" and "sv_lock s = RWMutex_init"
  shows "var_reach n keys T a work (goto i Between (s\<lparr>sv_val := v\<rparr>))"
proof -
  let ?s1 = "goto i (Writing v) (s\<lparr>sv_lock := RWMutex_init\<lparr>rw_writer := True\<rparr>\<rparr>)"
  let ?s2 = "goto i Written (?s1\<lparr>sv_val := v\<rparr>)"
  let ?s3 = "goto i Between (?s2\<lparr>sv_lock := RWMutex_unlock (sv_lock ?s2)\<rparr>)"
  note assms(1)
  also have "var_step n keys T s ?s1"
    by (rule set_wrlock) (use assms in \<open>simp_all add: RWMutex_wrlock_def RWMutex_init_def\<close>)
  finally (var_next) have "var_reach n keys T a work ?s1" .
  also have "var_step n keys T ?s1 ?s2" by (rule set_store) (use assms in simp_all)
  finally (var_next) have "var_reach n keys T a work ?s2" .
  also have "var_step n keys T ?s2 ?s3" by (rule set_wrunlock) (use assms in simp_all)
  finally (var_next) have "var_reach n keys T a work ?s3" .
  moreover have "?s3 = goto i Between (s\<lparr>sv_val := v\<rparr>)"
    using assms(4) by (cases s) (simp add: goto_def RWMutex_unlock_def RWMutex_init_def)
  ultimately show ?thesis by simp
qed

section \<open>Properties\<close>

text \<open>
  C17. Threads that share a configuration variable are safe, in every interleaving of any number of
  setValue and getValue calls, with any listeners that do not use the variable themselves and whose
  calls return or throw: a thread in the write section is alone; the value, every result of getValue
  and every value a listener is called with is the first value or one that some thread assigns, and
  each call is of a listener of the variable with two different values. A setValue that a listener's
  exception abandons ends without a store; only a thread in the write section changes the value. The
  calls end: each step leaves fewer to come, some step is possible until none is left, and then the
  lock is free.
\<close>

theorem shared_variable_safe:
  assumes "var_reach n keys T v work s"
  shows "(\<forall>i j. writes (sv_pc s i) \<longrightarrow> \<not> reads (sv_pc s j) \<and> (writes (sv_pc s j) \<longrightarrow> j = i)) \<and>
    sv_val s \<in> known_values n v work \<and> snd ` set (sv_got s) \<subseteq> known_values n v work \<and>
    set (sv_calls s) \<subseteq> set keys \<times> {(x, y). x \<noteq> y \<and> x \<in> known_values n v work \<and> y \<in> known_values n v work} \<and>
    (\<forall>t. var_step n keys T s t \<longrightarrow> (\<forall>i. sv_pc s i = Thrown \<longrightarrow> sv_pc t i \<in> {Thrown, Between}) \<and>
      (sv_val t = sv_val s \<or> (\<exists>i. sv_pc s i = Writing (sv_val t) \<and> sv_pc t i = Written))) \<and>
    (\<forall>t. var_step n keys T s t \<longrightarrow> steps_to_come n keys t < steps_to_come n keys s) \<and>
    (if steps_to_come n keys s = 0 then sv_lock s = RWMutex_init else \<exists>t. var_step n keys T s t)"
proof -
  note hold = holders_reach [OF assms] and vals = values_reach [OF assms]
  have "set (sv_calls s) \<subseteq> set keys \<times> {(x, y). x \<noteq> y \<and> x \<in> known_values n v work \<and> y \<in> known_values n v work}"
  proof
    fix x
    assume "x \<in> set (sv_calls s)"
    with vals show "x \<in> set keys \<times> {(x, y). x \<noteq> y \<and> x \<in> known_values n v work \<and> y \<in> known_values n v work}"
      by (cases x) (simp add: values_ok_def)
  qed
  moreover have "snd ` set (sv_got s) \<subseteq> known_values n v work" using vals unfolding values_ok_def by force
  moreover have "sv_val s \<in> known_values n v work" using vals by (simp add: values_ok_def)
  moreover have "\<forall>t. var_step n keys T s t \<longrightarrow> (\<forall>i. sv_pc s i = Thrown \<longrightarrow> sv_pc t i \<in> {Thrown, Between}) \<and>
      (sv_val t = sv_val s \<or> (\<exists>i. sv_pc s i = Writing (sv_val t) \<and> sv_pc t i = Written))"
    using changes_step by blast
  moreover have "\<forall>i j. writes (sv_pc s i) \<longrightarrow> \<not> reads (sv_pc s j) \<and> (writes (sv_pc s j) \<longrightarrow> j = i)"
    using hold unfolding holders_def by blast
  moreover have "\<forall>t. var_step n keys T s t \<longrightarrow> steps_to_come n keys t < steps_to_come n keys s"
    by (intro allI impI step_decreases)
  moreover have "if steps_to_come n keys s = 0 then sv_lock s = RWMutex_init else \<exists>t. var_step n keys T s t"
    using some_step [OF hold, of keys T] all_done [OF hold, of keys] by simp
  ultimately show ?thesis by (intro conjI)
qed

text \<open>
  C18. The listeners of a variable that one thread assigns see exactly its changes, if they do not
  throw. With a second thread they need not: setValue gives up the read lock before it takes the write
  lock, and two threads that assign different values b and c to a variable with value a may both call
  the listener with the old value a, the later call with the new value c, and leave the value b.
\<close>

theorem second_writer_hides_change:
  assumes "a \<noteq> b" and "a \<noteq> c" and "b \<noteq> c"
  shows "(\<forall>s. var_reach 1 keys {} v work s \<and> steps_to_come 1 keys s = 0 \<longrightarrow>
      sv_calls s = told keys v (work 0) \<and> sv_val s = last_value v (work 0)) \<and>
    (\<exists>s. var_reach 2 [k] T a (\<lambda>i. [Set_Value (if i = 0 then b else c)]) s \<and> steps_to_come 2 [k] s = 0 \<and>
      sv_calls s = [(k, a, b), (k, a, c)] \<and> sv_val s = b)"
proof (intro conjI)
  show "\<forall>s. var_reach 1 keys {} v work s \<and> steps_to_come 1 keys s = 0 \<longrightarrow>
      sv_calls s = told keys v (work 0) \<and> sv_val s = last_value v (work 0)"
    by (intro allI impI, elim conjE, rule alone_done)
  let ?work = "\<lambda>i::nat. [Set_Value (if i = 0 then b else c)]" and ?reach = "var_reach 2 [k] T a (\<lambda>i. [Set_Value (if i = 0 then b else c)])"
  let ?s0 = "shared_init a ?work"
  let ?s1 = "goto 0 (Released b) (?s0\<lparr>sv_todo := (sv_todo ?s0)(0 := []), sv_calls := sv_calls ?s0 @ [(k, sv_val ?s0, b)]\<rparr>)"
  let ?s2 = "goto 1 (Released c) (?s1\<lparr>sv_todo := (sv_todo ?s1)(1 := []), sv_calls := sv_calls ?s1 @ [(k, sv_val ?s1, c)]\<rparr>)"
  let ?s3 = "goto 1 Between (?s2\<lparr>sv_val := c\<rparr>)" and ?s4 = "goto 0 Between ((goto 1 Between (?s2\<lparr>sv_val := c\<rparr>))\<lparr>sv_val := b\<rparr>)"
  note init = shared_init_def
  have "?reach ?s0" by (rule var_start)
  then have "?reach ?s1" by (rule run_notify_half) (use assms in \<open>simp_all add: init\<close>)
  then have "?reach ?s2" by (rule run_notify_half) (use assms in \<open>simp_all add: init\<close>)
  then have "?reach ?s3" by (rule run_store_half) (simp_all add: init)
  then have "?reach ?s4" by (rule run_store_half) (simp_all add: init)
  moreover have "steps_to_come 2 [k] ?s4 = 0" by (simp add: steps_to_come_def numeral_2_eq_2 cost_def init)
  moreover have "sv_calls ?s4 = [(k, a, b), (k, a, c)]" "sv_val ?s4 = b" by (simp_all add: init)
  ultimately show "\<exists>s. ?reach s \<and> steps_to_come 2 [k] s = 0 \<and> sv_calls s = [(k, a, b), (k, a, c)] \<and> sv_val s = b" by blast
qed

text \<open>A variable of value 1 that two threads set to 2 and to 3.\<close>

theorem second_writer_hides_change_witness:
  "\<exists>s. var_reach 2 [7] {} 1 (\<lambda>i. [Set_Value (if i = 0 then 2 else 3)]) s \<and>
     sv_calls s = [(7, 1, 2), (7, 1, 3)] \<and> sv_val s = (2::int)"
  using second_writer_hides_change [where a = "1::int" and b = 2 and c = 3 and k = 7 and T = "{}"] by fastforce

theorem shared_variable_safe_witness:
  "\<exists>t. var_step 2 [7] {7} (shared_init (1::int) (\<lambda>i. [Set_Value 2, Get_Value])) t"
  using shared_variable_safe [OF var_start, where n = 2 and keys = "[7]" and v = "1::int" and work = "\<lambda>i. [Set_Value 2, Get_Value]"]
  by (simp add: steps_to_come_def numeral_2_eq_2 cost_def shared_init_def)

end
