(* ===== verification/Log_Race.thy ===== *)
theory Log_Race
  imports Locks "HOL-Library.Multiset"
begin

text \<open>
  Logging under contention (log.cpp): threads that log through shared loggers and appenders and change
  the loggers' lists, as an interleaving of steps between the operations on the spin locks. Logger and
  Log_Api model a call in one piece. A lock operation that has to wait is a step that is not enabled.
\<close>

section \<open>The machine\<close>

text \<open>
  An event stands for its level and contents. \<open>logs\<close> and \<open>shows_ev\<close> are the level tests of a logger and
  of an appender; \<open>pieces\<close> is what the items of a formatter insert into the stream; \<open>lends\<close> is the
  formatter of a logger. Logger 0 is the root logger, and the root of every other.
\<close>

record 'e sinks =
  logs :: "nat \<Rightarrow> 'e \<Rightarrow> bool"
  shows_ev :: "nat \<Rightarrow> 'e \<Rightarrow> bool"
  pieces :: "nat \<Rightarrow> 'e \<Rightarrow> string list"
  lends :: "nat \<Rightarrow> nat"

datatype 'e log_call =
    Log nat 'e
  | Add_Appender nat nat
  | Del_Appender nat nat
  | Clear_Appenders nat

text \<open>
  A node of m_appenders has an identity of its own and holds an appender. The list of a point of
  control holds the loggers whose locks the thread has, the innermost call first.
\<close>

type_synonym node = "nat \<times> nat"

datatype 'e log_pc =
    Away                                           \<comment> \<open>between two calls\<close>
  | Entering "nat list" nat 'e                     \<comment> \<open>Logger::log, before its lock\<close>
  | Inside "nat list" 'e                           \<comment> \<open>with its lock\<close>
  | At_Node "nat list" 'e node                     \<comment> \<open>in the loop, at a node\<close>
  | In_Appender "nat list" 'e node nat "string list"
      \<comment> \<open>LogAppender::log, with its lock, the formatter and the pieces to come\<close>
  | Past_Node "nat list" 'e node                   \<comment> \<open>before the iterator's increment\<close>
  | Leaving "nat list"
  | Adding nat nat                                 \<comment> \<open>Logger::addAppender, with the logger's lock\<close>
  | Asking nat nat                                 \<comment> \<open>LogAppender::getFormatter, with the appender's lock\<close>
  | Lacking nat nat                                \<comment> \<open>it was null\<close>
  | Lending nat nat                                \<comment> \<open>with the appender's lock, before the assignment\<close>
  | Pushing nat nat                                \<comment> \<open>before push_back\<close>
  | Crashed                                        \<comment> \<open>after the use of a freed node or of a null formatter\<close>

record 'e log_race =
  lr_nodes :: "nat \<Rightarrow> node list"
  lr_fresh :: nat
  lr_logger :: "nat \<Rightarrow> bool"                      \<comment> \<open>the loggers' locks\<close>
  lr_appender :: "nat \<Rightarrow> bool"                    \<comment> \<open>the appenders' locks\<close>
  lr_format :: "nat \<Rightarrow> nat option"                 \<comment> \<open>the appenders' m_formatter\<close>
  lr_out :: "(nat \<times> string) list"                \<comment> \<open>what each appender wrote to the common stream\<close>
  lr_records :: "nat \<Rightarrow> (nat \<times> 'e) list"
    \<comment> \<open>history: the records an appender has finished, with their formatters\<close>
  lr_pc :: "nat \<Rightarrow> 'e log_pc"
  lr_todo :: "nat \<Rightarrow> 'e log_call list"

definition race_init :: "(nat \<Rightarrow> node list) \<Rightarrow> (nat \<Rightarrow> nat option) \<Rightarrow> nat \<Rightarrow> (nat \<Rightarrow> 'e log_call list) \<Rightarrow> 'e log_race" where
  "race_init nodes format fresh work = \<lparr>lr_nodes = nodes, lr_fresh = fresh, lr_logger = (\<lambda>_. Spinlock_init),
     lr_appender = (\<lambda>_. Spinlock_init), lr_format = format, lr_out = [], lr_records = (\<lambda>_. []), lr_pc = (\<lambda>_. Away), lr_todo = work\<rparr>"

definition jump :: "nat \<Rightarrow> 'e log_pc \<Rightarrow> 'e log_race \<Rightarrow> 'e log_race" where
  "jump i p s = s\<lparr>lr_pc := (lr_pc s)(i := p)\<rparr>"

definition called :: "nat \<Rightarrow> 'e log_call list \<Rightarrow> 'e log_race \<Rightarrow> 'e log_race" where
  "called i ops s = s\<lparr>lr_todo := (lr_todo s)(i := ops)\<rparr>"

text \<open>The increment of the iterator at node \<open>k\<close>: None when the node is gone, Some None at the end.\<close>

definition successor :: "nat \<Rightarrow> node list \<Rightarrow> node option option" where
  "successor k nodes = (case dropWhile (\<lambda>nd. fst nd \<noteq> k) nodes of
     [] \<Rightarrow> None | [nd] \<Rightarrow> Some None | nd # nd' # _ \<Rightarrow> Some (Some nd'))"

text \<open>The loop of delAppender.\<close>

fun erase_first :: "nat \<Rightarrow> node list \<Rightarrow> node list" where
  "erase_first a [] = []"
| "erase_first a (nd # nds) = (if snd nd = a then nds else nd # erase_first a nds)"

inductive race_step :: "nat \<Rightarrow> 'e sinks \<Rightarrow> 'e log_race \<Rightarrow> 'e log_race \<Rightarrow> bool" for n S where
  log_below: "i < n \<Longrightarrow> lr_pc s i = Away \<Longrightarrow> lr_todo s i = Log l e # ops \<Longrightarrow> \<not> logs S l e \<Longrightarrow>
    race_step n S s (called i ops s)"
| log_call: "i < n \<Longrightarrow> lr_pc s i = Away \<Longrightarrow> lr_todo s i = Log l e # ops \<Longrightarrow> logs S l e \<Longrightarrow>
    race_step n S s (jump i (Entering [] l e) (called i ops s))"
| log_lock: "i < n \<Longrightarrow> lr_pc s i = Entering hs l e \<Longrightarrow> Spinlock_lock (lr_logger s l) = Some b \<Longrightarrow>
    race_step n S s (jump i (Inside (l # hs) e) (s\<lparr>lr_logger := (lr_logger s)(l := b)\<rparr>))"
| log_first: "i < n \<Longrightarrow> lr_pc s i = Inside (l # hs) e \<Longrightarrow> lr_nodes s l = nd # nds \<Longrightarrow>
    race_step n S s (jump i (At_Node (l # hs) e nd) s)"
| log_root: "i < n \<Longrightarrow> lr_pc s i = Inside (l # hs) e \<Longrightarrow> lr_nodes s l = [] \<Longrightarrow> l \<noteq> 0 \<Longrightarrow> logs S 0 e \<Longrightarrow>
    race_step n S s (jump i (Entering (l # hs) 0 e) s)"
| log_nowhere: "i < n \<Longrightarrow> lr_pc s i = Inside (l # hs) e \<Longrightarrow> lr_nodes s l = [] \<Longrightarrow> l = 0 \<or> \<not> logs S 0 e \<Longrightarrow>
    race_step n S s (jump i (Leaving (l # hs)) s)"
| append_below: "i < n \<Longrightarrow> lr_pc s i = At_Node (l # hs) e (k, a) \<Longrightarrow> (k, a) \<in> set (lr_nodes s l) \<Longrightarrow> \<not> shows_ev S a e \<Longrightarrow>
    race_step n S s (jump i (Past_Node (l # hs) e (k, a)) s)"
| append_lock: "i < n \<Longrightarrow> lr_pc s i = At_Node (l # hs) e (k, a) \<Longrightarrow> (k, a) \<in> set (lr_nodes s l) \<Longrightarrow> shows_ev S a e \<Longrightarrow>
    Spinlock_lock (lr_appender s a) = Some b \<Longrightarrow> lr_format s a = Some f \<Longrightarrow>
    race_step n S s (jump i (In_Appender (l # hs) e (k, a) f (pieces S f e)) (s\<lparr>lr_appender := (lr_appender s)(a := b)\<rparr>))"
| append_null: "i < n \<Longrightarrow> lr_pc s i = At_Node (l # hs) e (k, a) \<Longrightarrow> (k, a) \<in> set (lr_nodes s l) \<Longrightarrow> shows_ev S a e \<Longrightarrow>
    Spinlock_lock (lr_appender s a) = Some b \<Longrightarrow> lr_format s a = None \<Longrightarrow>
    race_step n S s (jump i Crashed (s\<lparr>lr_appender := (lr_appender s)(a := b)\<rparr>))"
| append_write: "i < n \<Longrightarrow> lr_pc s i = In_Appender hs e (k, a) f (p # ps) \<Longrightarrow>
    race_step n S s (jump i (In_Appender hs e (k, a) f ps) (s\<lparr>lr_out := lr_out s @ [(a, p)]\<rparr>))"
| append_unlock: "i < n \<Longrightarrow> lr_pc s i = In_Appender hs e (k, a) f [] \<Longrightarrow>
    race_step n S s (jump i (Past_Node hs e (k, a))
      (s\<lparr>lr_appender := (lr_appender s)(a := Spinlock_unlock (lr_appender s a)),
         lr_records := (lr_records s)(a := lr_records s a @ [(f, e)])\<rparr>))"
| log_next: "i < n \<Longrightarrow> lr_pc s i = Past_Node (l # hs) e (k, a) \<Longrightarrow> (k, a) \<in> set (lr_nodes s l) \<Longrightarrow>
    successor k (lr_nodes s l) = Some (Some nd) \<Longrightarrow> race_step n S s (jump i (At_Node (l # hs) e nd) s)"
| log_end: "i < n \<Longrightarrow> lr_pc s i = Past_Node (l # hs) e (k, a) \<Longrightarrow> (k, a) \<in> set (lr_nodes s l) \<Longrightarrow>
    successor k (lr_nodes s l) = Some None \<Longrightarrow> race_step n S s (jump i (Leaving (l # hs)) s)"
| log_freed: "i < n \<Longrightarrow> lr_pc s i = At_Node (l # hs) e nd \<or> lr_pc s i = Past_Node (l # hs) e nd \<Longrightarrow>
    nd \<notin> set (lr_nodes s l) \<Longrightarrow> race_step n S s (jump i Crashed s)"
| log_unlock: "i < n \<Longrightarrow> lr_pc s i = Leaving (l # hs) \<Longrightarrow>
    race_step n S s (jump i (Leaving hs) (s\<lparr>lr_logger := (lr_logger s)(l := Spinlock_unlock (lr_logger s l))\<rparr>))"
| log_return: "i < n \<Longrightarrow> lr_pc s i = Leaving [] \<Longrightarrow> race_step n S s (jump i Away s)"
| add_lock: "i < n \<Longrightarrow> lr_pc s i = Away \<Longrightarrow> lr_todo s i = Add_Appender l a # ops \<Longrightarrow> Spinlock_lock (lr_logger s l) = Some b \<Longrightarrow>
    race_step n S s (jump i (Adding l a) (called i ops (s\<lparr>lr_logger := (lr_logger s)(l := b)\<rparr>)))"
| add_ask: "i < n \<Longrightarrow> lr_pc s i = Adding l a \<Longrightarrow> Spinlock_lock (lr_appender s a) = Some b \<Longrightarrow>
    race_step n S s (jump i (Asking l a) (s\<lparr>lr_appender := (lr_appender s)(a := b)\<rparr>))"
| add_answer: "i < n \<Longrightarrow> lr_pc s i = Asking l a \<Longrightarrow>
    race_step n S s (jump i (if lr_format s a = None then Lacking l a else Pushing l a)
      (s\<lparr>lr_appender := (lr_appender s)(a := Spinlock_unlock (lr_appender s a))\<rparr>))"
| add_lend: "i < n \<Longrightarrow> lr_pc s i = Lacking l a \<Longrightarrow> Spinlock_lock (lr_appender s a) = Some b \<Longrightarrow>
    race_step n S s (jump i (Lending l a) (s\<lparr>lr_appender := (lr_appender s)(a := b)\<rparr>))"
| add_store: "i < n \<Longrightarrow> lr_pc s i = Lending l a \<Longrightarrow>
    race_step n S s (jump i (Pushing l a)
      (s\<lparr>lr_format := (lr_format s)(a := Some (lends S l)), lr_appender := (lr_appender s)(a := Spinlock_unlock (lr_appender s a))\<rparr>))"
| add_push: "i < n \<Longrightarrow> lr_pc s i = Pushing l a \<Longrightarrow>
    race_step n S s (jump i (Leaving [l]) (s\<lparr>lr_nodes := (lr_nodes s)(l := lr_nodes s l @ [(lr_fresh s, a)]), lr_fresh := lr_fresh s + 1\<rparr>))"
| clear_appenders: "i < n \<Longrightarrow> lr_pc s i = Away \<Longrightarrow> lr_todo s i = Clear_Appenders l # ops \<Longrightarrow> Spinlock_lock (lr_logger s l) = Some b \<Longrightarrow>
    race_step n S s (called i ops (s\<lparr>lr_nodes := (lr_nodes s)(l := [])\<rparr>))"
| del_appender: "i < n \<Longrightarrow> lr_pc s i = Away \<Longrightarrow> lr_todo s i = Del_Appender l a # ops \<Longrightarrow>
    race_step n S s (called i ops (s\<lparr>lr_nodes := (lr_nodes s)(l := erase_first a (lr_nodes s l))\<rparr>))"

inductive race_reach :: "nat \<Rightarrow> 'e sinks \<Rightarrow> 'e log_race \<Rightarrow> 'e log_race \<Rightarrow> bool" for n S s0 where
  race_start: "race_reach n S s0 s0"
| race_next: "race_reach n S s0 s \<Longrightarrow> race_step n S s t \<Longrightarrow> race_reach n S s0 t"

lemma jump_simps [simp]:
  "lr_pc (jump i p s) = (lr_pc s)(i := p)" "lr_nodes (jump i p s) = lr_nodes s" "lr_fresh (jump i p s) = lr_fresh s"
  "lr_logger (jump i p s) = lr_logger s" "lr_format (jump i p s) = lr_format s" "lr_appender (jump i p s) = lr_appender s" "lr_out (jump i p s) = lr_out s"
  "lr_records (jump i p s) = lr_records s" "lr_todo (jump i p s) = lr_todo s"
  by (simp_all add: jump_def)

lemma called_simps [simp]:
  "lr_todo (called i ops s) = (lr_todo s)(i := ops)" "lr_nodes (called i ops s) = lr_nodes s" "lr_pc (called i ops s) = lr_pc s"
  "lr_logger (called i ops s) = lr_logger s" "lr_format (called i ops s) = lr_format s" "lr_appender (called i ops s) = lr_appender s" "lr_out (called i ops s) = lr_out s"
  "lr_records (called i ops s) = lr_records s" "lr_fresh (called i ops s) = lr_fresh s"
  by (simp_all add: called_def)

section \<open>Who holds which lock\<close>

fun held :: "'e log_pc \<Rightarrow> nat list" where
  "held (Entering hs l e) = hs" | "held (Inside hs e) = hs" | "held (At_Node hs e nd) = hs"
| "held (In_Appender hs e nd f ps) = hs" | "held (Past_Node hs e nd) = hs" | "held (Leaving hs) = hs"
| "held (Adding l a) = [l]" | "held (Asking l a) = [l]" | "held (Lacking l a) = [l]" | "held (Lending l a) = [l]"
| "held (Pushing l a) = [l]" | "held Away = []" | "held Crashed = []"

fun writes_to :: "'e log_pc \<Rightarrow> nat set" where
  "writes_to (In_Appender hs e nd f ps) = {snd nd}" | "writes_to (Asking l a) = {a}" | "writes_to (Lending l a) = {a}"
| "writes_to _ = {}"

text \<open>A call holds one logger, or the root and the logger that fell back to it.\<close>

fun chain :: "nat list \<Rightarrow> bool" where
  "chain [] = True" | "chain [l] = True" | "chain [r, l] = (r = 0 \<and> l \<noteq> 0)" | "chain _ = False"

fun pc_ok :: "'e log_pc \<Rightarrow> bool" where
  "pc_ok (Entering hs l e) = (hs = [] \<or> (\<exists>k. hs = [k] \<and> k \<noteq> 0 \<and> l = 0))"
| "pc_ok (Leaving hs) = chain hs" | "pc_ok Away = True" | "pc_ok Crashed = True"
| "pc_ok p = (held p \<noteq> [] \<and> chain (held p))"

lemma chain_Cons: "chain (l # hs) \<longleftrightarrow> hs = [] \<or> (\<exists>k. hs = [k] \<and> k \<noteq> 0 \<and> l = 0)"
  by (cases hs rule: chain.cases) auto

definition locks_ok :: "nat \<Rightarrow> 'e log_race \<Rightarrow> bool" where
  "locks_ok n s \<longleftrightarrow> (\<forall>i. n \<le> i \<longrightarrow> lr_pc s i = Away) \<and> (\<forall>i. pc_ok (lr_pc s i)) \<and>
     (\<forall>i. lr_pc s i \<noteq> Crashed) \<and> owns (lr_logger s) (\<lambda>p. set (held p)) (lr_pc s) \<and> owns (lr_appender s) writes_to (lr_pc s)"

text \<open>
  No call deletes an appender, each thread in a loop is at a node of its logger's list, and an appender
  in a list, or about to be, has a formatter.
\<close>

fun in_loop :: "'e log_pc \<Rightarrow> (nat \<times> node) option" where
  "in_loop (At_Node hs e nd) = Some (hd hs, nd)" | "in_loop (In_Appender hs e nd f ps) = Some (hd hs, nd)"
| "in_loop (Past_Node hs e nd) = Some (hd hs, nd)" | "in_loop _ = None"

definition keeps_nodes :: "'e log_call list \<Rightarrow> bool" where
  "keeps_nodes ops \<longleftrightarrow> (\<forall>l a. Del_Appender l a \<notin> set ops)"

definition nodes_ok :: "'e log_race \<Rightarrow> bool" where
  "nodes_ok s \<longleftrightarrow> (\<forall>i. keeps_nodes (lr_todo s i)) \<and> (\<forall>i l nd. in_loop (lr_pc s i) = Some (l, nd) \<longrightarrow> nd \<in> set (lr_nodes s l)) \<and>
     (\<forall>l k a. (k, a) \<in> set (lr_nodes s l) \<longrightarrow> lr_format s a \<noteq> None) \<and> (\<forall>i l a. lr_pc s i = Pushing l a \<longrightarrow> lr_format s a \<noteq> None)"

lemma in_loop_holds: "pc_ok p \<Longrightarrow> in_loop p = Some (l, nd) \<Longrightarrow> l \<in> set (held p)"
  by (cases p) auto

lemma successor_in: "successor k nodes = Some (Some nd) \<Longrightarrow> nd \<in> set nodes"
  unfolding successor_def
  by (auto split: list.splits) (metis insertI1 insertI2 list.set(2) set_dropWhileD)

lemma locks_step:
  assumes "race_step n S s t" and "locks_ok n s" and "nodes_ok s"
  shows "locks_ok n t"
proof -
  have ok: "locks_ok n (jump i p s')"
    if "i < n" "pc_ok p" "p \<noteq> Crashed" "lr_pc s' = lr_pc s"
      "owns (lr_logger s') (\<lambda>p. set (held p)) ((lr_pc s)(i := p))" "owns (lr_appender s') writes_to ((lr_pc s)(i := p))" for i p s'
    using that assms(2) by (auto simp: locks_ok_def)
  have own: "owns (lr_logger s) (\<lambda>p. set (held p)) (lr_pc s)" "owns (lr_appender s) writes_to (lr_pc s)"
    and pc: "pc_ok (lr_pc s i)" for i
    using assms(2) by (auto simp: locks_ok_def)
  note keep = owns_same [OF own(1)] owns_same [OF own(2)]
  show ?thesis
    using assms(1)
  proof (cases rule: race_step.cases)
    case (log_lock i hs l e b)
    with pc [of i] show ?thesis by (auto intro!: ok keep spin_wait.owns_take [OF own(1)] simp: chain_Cons)
  next
    case (append_lock i l hs e k a b f)
    with pc [of i] show ?thesis by (auto intro!: ok keep spin_wait.owns_take [OF own(2)])
  next
    case (append_null i l hs e k a b)
    with assms(3) have False unfolding nodes_ok_def by blast
    then show ?thesis ..
  next
    case (add_lock i l a ops b)
    then show ?thesis by (auto intro!: ok keep spin_wait.owns_take [OF own(1)])
  next
    case (add_ask i l a b)
    then show ?thesis by (auto intro!: ok keep spin_wait.owns_take [OF own(2)])
  next
    case (add_answer i l a)
    then show ?thesis by (auto intro!: ok keep spin_wait.owns_drop [OF own(2)])
  next
    case (add_lend i l a b)
    then show ?thesis by (auto intro!: ok keep spin_wait.owns_take [OF own(2)])
  next
    case (add_store i l a)
    then show ?thesis by (auto intro!: ok keep spin_wait.owns_drop [OF own(2)])
  next
    case (append_unlock i hs e k a f)
    with pc [of i] show ?thesis by (auto intro!: ok keep spin_wait.owns_drop [OF own(2)])
  next
    case (log_freed i l hs e nd)
    then have "in_loop (lr_pc s i) = Some (l, nd)" by auto
    with assms(3) log_freed(4) have False unfolding nodes_ok_def by blast
    then show ?thesis ..
  next
    case (log_unlock i l hs)
    then have "l \<notin> set hs" using pc [of i] by (auto simp: chain_Cons)
    with log_unlock pc [of i] show ?thesis by (auto intro!: ok keep spin_wait.owns_drop [OF own(1)] simp: chain_Cons)
  next
    case (log_root i l hs e)
    with pc [of i] show ?thesis by (auto intro!: ok keep simp: chain_Cons)
  next
    case (log_first i l hs e nd nds)
    with pc [of i] show ?thesis by (auto intro!: ok keep)
  next
    case (log_nowhere i l hs e)
    with pc [of i] show ?thesis by (auto intro!: ok keep)
  next
    case (append_below i l hs e k a)
    with pc [of i] show ?thesis by (auto intro!: ok keep)
  next
    case (append_write i hs e k a f p ps)
    with pc [of i] show ?thesis by (auto intro!: ok keep)
  next
    case (log_next i l hs e k a nd)
    with pc [of i] show ?thesis by (auto intro!: ok keep)
  next
    case (log_end i l hs e k a)
    with pc [of i] show ?thesis by (auto intro!: ok keep)
  qed (use assms(2) in \<open>auto intro!: ok keep simp: locks_ok_def\<close>)
qed

lemma nodes_step:
  assumes "race_step n S s t" and "locks_ok n s" and "nodes_ok s"
  shows "nodes_ok t"
proof -
  have ok: "nodes_ok (jump i p s')"
    if "lr_nodes s' = lr_nodes s" "lr_pc s' = lr_pc s" "\<forall>j. keeps_nodes (lr_todo s' j)"
      "\<forall>l nd. in_loop p = Some (l, nd) \<longrightarrow> nd \<in> set (lr_nodes s l)"
      "\<forall>a. lr_format s a \<noteq> None \<longrightarrow> lr_format s' a \<noteq> None" "\<forall>l a. p = Pushing l a \<longrightarrow> lr_format s' a \<noteq> None" for i p s'
    using that assms(3) by (simp add: nodes_ok_def)
  have todo: "\<forall>j. keeps_nodes (lr_todo s j)" and at: "\<forall>j l nd. in_loop (lr_pc s j) = Some (l, nd) \<longrightarrow> nd \<in> set (lr_nodes s l)"
    and has: "\<forall>l k a. (k, a) \<in> set (lr_nodes s l) \<longrightarrow> lr_format s a \<noteq> None" "\<forall>j l a. lr_pc s j = Pushing l a \<longrightarrow> lr_format s a \<noteq> None"
    using assms(3) unfolding nodes_ok_def by blast+
  have tail: "\<forall>j. keeps_nodes (((lr_todo s)(i := ops)) j)" if "lr_todo s i = c # ops" for i c ops
    using todo that by (auto simp: keeps_nodes_def) (metis list.set_intros(2))
  have free: "in_loop (lr_pc s j) \<noteq> Some (l, nd)" if "Spinlock_lock (lr_logger s l) = Some b" for j l nd b
  proof
    assume "in_loop (lr_pc s j) = Some (l, nd)"
    moreover have "pc_ok (lr_pc s j)" using assms(2) by (simp add: locks_ok_def)
    ultimately have "l \<in> set (held (lr_pc s j))" by (rule in_loop_holds [rotated])
    moreover have "owns (lr_logger s) (\<lambda>p. set (held p)) (lr_pc s)" using assms(2) by (simp add: locks_ok_def)
    ultimately show False using spin_wait.free_not_held that by fastforce
  qed
  show ?thesis
    using assms(1)
  proof (cases rule: race_step.cases)
    case (add_push i l a)
    then have "lr_format s a \<noteq> None" using has(2) by blast
    with add_push at todo has show ?thesis by (simp add: nodes_ok_def)
  next
    case (add_lock i l a ops b)
    with tail [of i] show ?thesis by (auto intro!: ok)
  next
    case (clear_appenders i l ops b)
    with at tail [of i] free [of l b] has show ?thesis by (simp add: nodes_ok_def)
  next
    case (del_appender i l a ops)
    with todo have "keeps_nodes (Del_Appender l a # ops)" by metis
    then have False by (auto simp: keeps_nodes_def)
    then show ?thesis ..
  next
    case (log_next i l hs e k a nd)
    then show ?thesis using todo successor_in by (auto intro!: ok)
  next
    case (log_below i l e ops)
    with at tail [of i] has show ?thesis by (simp add: nodes_ok_def)
  next
    case (log_call i l e ops)
    with tail [of i] show ?thesis by (auto intro!: ok)
  next
    case (append_write i hs e k a f p ps)
    then have "(k, a) \<in> set (lr_nodes s (hd hs))" using at [rule_format, of i "hd hs" "(k, a)"] by simp
    with append_write todo show ?thesis by (auto intro!: ok)
  next
    case (append_unlock i hs e k a f)
    then have "(k, a) \<in> set (lr_nodes s (hd hs))" using at [rule_format, of i "hd hs" "(k, a)"] by simp
    with append_unlock todo show ?thesis by (auto intro!: ok)
  qed (use todo in \<open>auto intro!: ok\<close>)
qed

text \<open>At the start every appender in a list has a formatter.\<close>

definition formatted :: "(nat \<Rightarrow> node list) \<Rightarrow> (nat \<Rightarrow> nat option) \<Rightarrow> bool" where
  "formatted nodes format \<longleftrightarrow> (\<forall>l. \<forall>nd \<in> set (nodes l). format (snd nd) \<noteq> None)"

lemma race_reach_ok:
  assumes "race_reach n S (race_init nodes format fresh work) s" and "\<And>i. keeps_nodes (work i)" and "formatted nodes format"
  shows "locks_ok n s \<and> nodes_ok s"
  using assms(1)
proof (induction rule: race_reach.induct)
  case race_start
  have "format a \<noteq> None" if "(k, a) \<in> set (nodes l)" for k a l using assms(3) that by (force simp: formatted_def)
  with assms(2) show ?case by (simp add: race_init_def locks_ok_def nodes_ok_def owns_def)
qed (blast intro: locks_step nodes_step)

section \<open>Whole lines\<close>

definition texts_of :: "nat \<Rightarrow> (nat \<times> string) list \<Rightarrow> string list" where
  "texts_of a out = map snd (filter (\<lambda>c. fst c = a) out)"

lemma texts_of_simps [simp]:
  "texts_of a [] = []" "texts_of a (out @ [(b, x)]) = texts_of a out @ (if b = a then [x] else [])"
  by (simp_all add: texts_of_def)

text \<open>The pieces of a list of records, each with its formatter.\<close>

definition lines_of :: "'e sinks \<Rightarrow> (nat \<times> 'e) list \<Rightarrow> string list" where
  "lines_of S recs = concat (map (\<lambda>(f, e). pieces S f e) recs)"

lemma lines_of_simps [simp]: "lines_of S [] = []" "lines_of S (recs @ [(f, e)]) = lines_of S recs @ pieces S f e"
  by (simp_all add: lines_of_def)

definition lines_ok :: "'e sinks \<Rightarrow> 'e log_race \<Rightarrow> bool" where
  "lines_ok S s \<longleftrightarrow> (\<forall>a.
     ((\<forall>i hs e k f ps. lr_pc s i \<noteq> In_Appender hs e (k, a) f ps) \<longrightarrow> texts_of a (lr_out s) = lines_of S (lr_records s a)) \<and>
     (\<forall>i hs e k f ps. lr_pc s i = In_Appender hs e (k, a) f ps \<longrightarrow>
        (\<exists>qs. pieces S f e = qs @ ps \<and> texts_of a (lr_out s) = lines_of S (lr_records s a) @ qs)))"

lemma writer_alone:
  assumes "locks_ok n s" and "lr_pc s i = In_Appender hs e (k, a) f ps"
  shows "lr_appender s a" and "lr_pc s j = In_Appender hs' e' (k', a) f' ps' \<Longrightarrow> j = i"
proof -
  have own: "owns (lr_appender s) writes_to (lr_pc s)" using assms(1) by (simp add: locks_ok_def)
  have "a \<in> writes_to (lr_pc s i)" using assms(2) by simp
  with own show "lr_appender s a" unfolding owns_def by blast
  show "j = i" if "lr_pc s j = In_Appender hs' e' (k', a) f' ps'"
  proof -
    have "a \<in> writes_to (lr_pc s j)" using that by simp
    with own \<open>a \<in> writes_to (lr_pc s i)\<close> show ?thesis unfolding owns_def by blast
  qed
qed

lemma lines_at_rest:
  "lines_ok S s \<Longrightarrow> (\<And>i hs e k f ps. lr_pc s i \<noteq> In_Appender hs e (k, a) f ps) \<Longrightarrow> texts_of a (lr_out s) = lines_of S (lr_records s a)"
  by (simp add: lines_ok_def)

lemma lines_writing:
  "lines_ok S s \<Longrightarrow> lr_pc s i = In_Appender hs e (k, a) f ps \<Longrightarrow>
     \<exists>qs. pieces S f e = qs @ ps \<and> texts_of a (lr_out s) = lines_of S (lr_records s a) @ qs"
  unfolding lines_ok_def by blast

lemma lines_elsewhere:
  assumes "lines_ok S s" and "lr_out t = lr_out s" "lr_records t = lr_records s"
    and "\<And>j hs e nd f ps. lr_pc t j = In_Appender hs e nd f ps \<longleftrightarrow> lr_pc s j = In_Appender hs e nd f ps"
  shows "lines_ok S t"
  using assms by (simp add: lines_ok_def)

text \<open>A step of the thread in appender \<open>a\<close>: of the other appenders nothing changes.\<close>

lemma lines_here:
  assumes "lines_ok S s"
    and "\<And>j hs e k b f ps. b \<noteq> a \<Longrightarrow> lr_pc t j = In_Appender hs e (k, b) f ps \<longleftrightarrow> lr_pc s j = In_Appender hs e (k, b) f ps"
    and "\<And>b. b \<noteq> a \<Longrightarrow> texts_of b (lr_out t) = texts_of b (lr_out s) \<and> lr_records t b = lr_records s b"
    and "(\<And>j hs e k f ps. lr_pc t j \<noteq> In_Appender hs e (k, a) f ps) \<Longrightarrow> texts_of a (lr_out t) = lines_of S (lr_records t a)"
    and "\<And>j hs e k f ps. lr_pc t j = In_Appender hs e (k, a) f ps \<Longrightarrow>
      \<exists>qs. pieces S f e = qs @ ps \<and> texts_of a (lr_out t) = lines_of S (lr_records t a) @ qs"
  shows "lines_ok S t"
  unfolding lines_ok_def
proof (intro allI conjI impI)
  fix b
  show "texts_of b (lr_out t) = lines_of S (lr_records t b)" if "\<forall>j hs e k f ps. lr_pc t j \<noteq> In_Appender hs e (k, b) f ps"
  proof (cases "b = a")
    case True
    with assms(4) that show ?thesis by blast
  next
    case False
    with that assms(2) have "lr_pc s j \<noteq> In_Appender hs e (k, b) f ps" for j hs e k f ps by metis
    from lines_at_rest [OF assms(1) this] assms(3) [OF False] show ?thesis by simp
  qed
  show "\<exists>qs. pieces S f e = qs @ ps \<and> texts_of b (lr_out t) = lines_of S (lr_records t b) @ qs"
    if "lr_pc t j = In_Appender hs e (k, b) f ps" for j hs e k f ps
  proof (cases "b = a")
    case True
    with assms(5) that show ?thesis by blast
  next
    case False
    with that assms(2) have "lr_pc s j = In_Appender hs e (k, b) f ps" by metis
    from lines_writing [OF assms(1) this] assms(3) [OF False] show ?thesis by simp
  qed
qed

lemma lines_step:
  assumes "race_step n S s t" and "locks_ok n s" and "lines_ok S s"
  shows "lines_ok S t"
  using assms(1)
proof (cases rule: race_step.cases)
  case (append_lock i l hs e k a b f)
  then have "\<not> lr_appender s a" by (auto simp: Spinlock_lock_def split: if_splits)
  then have "lr_pc s j \<noteq> In_Appender hs' e' (k', a) f' ps'" for j hs' e' k' f' ps'
    using writer_alone(1) [OF assms(2)] by blast
  from lines_at_rest [OF assms(3) this] this append_lock(1,3) show ?thesis
    by (intro lines_here [OF assms(3), where a = a]) (auto split: if_splits)
next
  case (append_write i hs e k a f p ps)
  note alone = writer_alone(2) [OF assms(2) append_write(3)]
  from lines_writing [OF assms(3) append_write(3)] obtain qs where qs: "pieces S f e = qs @ p # ps"
      "texts_of a (lr_out s) = lines_of S (lr_records s a) @ qs" by blast
  show ?thesis
  proof (rule lines_here [OF assms(3), where a = a])
    show "\<exists>qs. pieces S f' e' = qs @ ps' \<and> texts_of a (lr_out t) = lines_of S (lr_records t a) @ qs"
      if "lr_pc t j = In_Appender hs' e' (k', a) f' ps'" for j hs' e' k' f' ps'
    proof -
      have "j = i" using that append_write(1) alone by (cases "j = i") auto
      with that append_write(1) qs show ?thesis by (intro exI [of _ "qs @ [p]"]) simp
    qed
    show "texts_of a (lr_out t) = lines_of S (lr_records t a)" if "\<And>j hs e k f ps. lr_pc t j \<noteq> In_Appender hs e (k, a) f ps"
      using that [of i hs e k f ps] append_write(1) by simp
  qed (use append_write(1,3) in \<open>auto split: if_splits\<close>)
next
  case (append_unlock i hs e k a f)
  note alone = writer_alone(2) [OF assms(2) append_unlock(3)]
  have whole: "texts_of a (lr_out s) = lines_of S (lr_records s a) @ pieces S f e"
    using lines_writing [OF assms(3) append_unlock(3)] by simp
  show ?thesis
  proof (rule lines_here [OF assms(3), where a = a])
    show "\<exists>qs. pieces S f' e' = qs @ ps' \<and> texts_of a (lr_out t) = lines_of S (lr_records t a) @ qs"
      if "lr_pc t j = In_Appender hs' e' (k', a) f' ps'" for j hs' e' k' f' ps'
      using that append_unlock(1) alone by (cases "j = i") auto
  qed (use whole append_unlock(1,3) in \<open>auto split: if_splits\<close>)
qed (auto intro!: lines_elsewhere [OF assms(3)] split: if_splits)

section \<open>Progress\<close>

text \<open>
  A thread in an appender can go on; without one every appender's lock is free, and so can a thread in a
  loop. Otherwise a waiting thread waits for a logger whose holder can go on, since only the root's
  lock is taken under another one.
\<close>

lemma successor_found: "(k, a) \<in> set nodes \<Longrightarrow> successor k nodes \<noteq> None"
proof -
  assume "(k, a) \<in> set nodes"
  then have "dropWhile (\<lambda>nd. fst nd \<noteq> k) nodes \<noteq> []" by (force simp: dropWhile_eq_Nil_conv)
  then show ?thesis unfolding successor_def by (auto split: list.split)
qed

lemma Spinlock_free: "\<not> b \<Longrightarrow> Spinlock_lock b = Some True"
  by (simp add: Spinlock_lock_def)

definition done_all :: "nat \<Rightarrow> 'e log_race \<Rightarrow> bool" where
  "done_all n s \<longleftrightarrow> (\<forall>i<n. lr_pc s i = Away \<and> lr_todo s i = [])"

definition waits :: "'e log_pc \<Rightarrow> bool" where
  "waits p \<longleftrightarrow> (\<exists>hs l e. p = Entering hs l e)"

lemma runs_on:
  assumes ok: "locks_ok n s" "nodes_ok s" and i: "i < n" and p: "lr_pc s i \<noteq> Away" "\<not> waits (lr_pc s i)"
    and quiet: "writes_to (lr_pc s i) \<noteq> {} \<or> (\<forall>a. \<not> lr_appender s a)"
  shows "\<exists>t. race_step n S s t"
proof -
  have pc: "pc_ok (lr_pc s i)" "lr_pc s i \<noteq> Crashed" using ok(1) by (simp_all add: locks_ok_def)
  have node: "nd \<in> set (lr_nodes s l)" if "in_loop (lr_pc s i) = Some (l, nd)" for l nd
    using ok(2) that unfolding nodes_ok_def by blast
  show ?thesis
  proof (cases "lr_pc s i")
    case (Inside hs e)
    with pc obtain l hs' where hs: "lr_pc s i = Inside (l # hs') e" by (cases hs) auto
    show ?thesis
    proof (cases "lr_nodes s l")
      case Nil
      then show ?thesis using log_root [OF i hs Nil, of S] log_nowhere [OF i hs Nil, of S] by (cases "l = 0 \<or> \<not> logs S 0 e") auto
    next
      case (Cons nd nds)
      then show ?thesis using log_first [OF i hs Cons, of S] by blast
    qed
  next
    case (At_Node hs e nd)
    with pc obtain l hs' k a where hs: "lr_pc s i = At_Node (l # hs') e (k, a)" by (cases hs; cases nd) auto
    with node have k: "(k, a) \<in> set (lr_nodes s l)" by simp
    have "\<not> lr_appender s a" using quiet hs by auto
    moreover obtain f where "lr_format s a = Some f" using ok(2) k unfolding nodes_ok_def by blast
    ultimately show ?thesis using append_below [OF i hs k, of S] append_lock [OF i hs k _ Spinlock_free, of S]
      by (cases "shows_ev S a e") auto
  next
    case (Adding l a)
    with quiet have "\<not> lr_appender s a" by simp
    with add_ask [OF i Adding Spinlock_free, of S] show ?thesis by blast
  next
    case (Asking l a)
    with add_answer [OF i, of s l a S] show ?thesis by blast
  next
    case (Lacking l a)
    with quiet have "\<not> lr_appender s a" by simp
    with add_lend [OF i Lacking Spinlock_free, of S] show ?thesis by blast
  next
    case (Lending l a)
    with add_store [OF i, of s l a S] show ?thesis by blast
  next
    case (Pushing l a)
    with add_push [OF i, of s l a S] show ?thesis by blast
  next
    case (In_Appender hs e nd f ps)
    obtain k a where nd: "nd = (k, a)" by (cases nd)
    show ?thesis
    proof (cases ps)
      case Nil
      with In_Appender nd append_unlock [OF i, of s hs e k a f S] show ?thesis by blast
    next
      case (Cons p ps')
      with In_Appender nd append_write [OF i, of s hs e k a f p ps' S] show ?thesis by blast
    qed
  next
    case (Past_Node hs e nd)
    with pc obtain l hs' k a where hs: "lr_pc s i = Past_Node (l # hs') e (k, a)" by (cases hs; cases nd) auto
    with node have k: "(k, a) \<in> set (lr_nodes s l)" by simp
    from successor_found [OF k] obtain y where y: "successor k (lr_nodes s l) = Some y" by blast
    show ?thesis
    proof (cases y)
      case None
      with log_end [OF i hs k, of S] y show ?thesis by blast
    next
      case (Some nd)
      with log_next [OF i hs k, of nd S] y show ?thesis by blast
    qed
  next
    case (Leaving hs)
    show ?thesis
    proof (cases hs)
      case Nil
      with Leaving log_return [OF i, of s S] show ?thesis by blast
    next
      case (Cons l hs')
      with Leaving log_unlock [OF i, of s l hs' S] show ?thesis by blast
    qed
  qed (use p pc in \<open>auto simp: waits_def\<close>)
qed

lemma race_progress:
  assumes ok: "locks_ok n s" "nodes_ok s" and left: "\<not> done_all n s"
  shows "\<exists>t. race_step n S s t"
proof -
  have pc: "pc_ok (lr_pc s j)" "n \<le> j \<Longrightarrow> lr_pc s j = Away" for j using ok(1) by (simp_all add: locks_ok_def)
  have owners: "\<exists>j. l \<in> set (held (lr_pc s j))" if "lr_logger s l" for l
    using ok(1) that by (auto simp: locks_ok_def owns_def)
  have writer: "\<exists>j. writes_to (lr_pc s j) \<noteq> {}" if "lr_appender s a" for a
    using ok(1) that unfolding locks_ok_def owns_def by blast
  have thread: "j < n" if "lr_pc s j \<noteq> Away" for j using pc(2) that by (meson not_le)
  show ?thesis
  proof (cases "\<exists>j. lr_pc s j \<noteq> Away \<and> \<not> waits (lr_pc s j)")
    case True
    then obtain j where j: "lr_pc s j \<noteq> Away" "\<not> waits (lr_pc s j)" by blast
    show ?thesis
    proof (cases "\<exists>a. lr_appender s a")
      case True
      then obtain k where k: "writes_to (lr_pc s k) \<noteq> {}" using writer by blast
      then have "lr_pc s k \<noteq> Away" "\<not> waits (lr_pc s k)" by (auto simp: waits_def)
      with k thread [of k] show ?thesis by (intro runs_on [OF ok, of k]) auto
    next
      case False
      with j thread [of j] show ?thesis by (intro runs_on [OF ok, of j]) auto
    qed
  next
    case False
    then have all: "lr_pc s j = Away \<or> waits (lr_pc s j)" for j by blast
    have root: "held (lr_pc s j) = [] \<or> (\<exists>k e. lr_pc s j = Entering [k] 0 e \<and> k \<noteq> 0)" for j
      using all [of j] pc(1) [of j] by (auto simp: waits_def)
    have free0: "\<not> lr_logger s 0"
    proof
      assume "lr_logger s 0"
      with owners obtain j where "0 \<in> set (held (lr_pc s j))" by blast
      with root [of j] show False by auto
    qed
    show ?thesis
    proof (cases "\<exists>j k e. lr_pc s j = Entering [k] 0 e")
      case True
      with free0 thread show ?thesis using log_lock Spinlock_free by (metis log_pc.distinct(1))
    next
      case False
      with root have "held (lr_pc s j) = []" for j by blast
      with owners have free: "\<not> lr_logger s l" for l by (metis empty_iff list.set(1))
      from left obtain i where i: "i < n" "lr_pc s i \<noteq> Away \<or> lr_todo s i \<noteq> []" by (auto simp: done_all_def)
      show ?thesis
      proof (cases "lr_pc s i = Away")
        case True
        with i(2) obtain c ops where ops: "lr_todo s i = c # ops" by (cases "lr_todo s i") auto
        show ?thesis
        proof (cases c)
          case (Log l e)
          with i(1) True ops show ?thesis using log_below log_call by metis
        next
          case (Add_Appender l a)
          with add_lock [OF i(1) True _ Spinlock_free [OF free [of l]], of a ops S] ops show ?thesis by blast
        next
          case (Del_Appender l a)
          with i(1) True ops show ?thesis using del_appender by metis
        next
          case (Clear_Appenders l)
          with i(1) True ops free show ?thesis using clear_appenders Spinlock_free by metis
        qed
      next
        case False
        with all [of i] obtain hs l e where "lr_pc s i = Entering hs l e" by (auto simp: waits_def)
        with i(1) free show ?thesis using log_lock Spinlock_free by metis
      qed
    qed
  qed
qed

section \<open>No record is lost\<close>

text \<open>
  Where no call changes a list, the records an appender still has to write are determined by the points
  of control and the calls to come. The identities of a list's nodes are distinct.
\<close>

definition due :: "'e sinks \<Rightarrow> nat \<Rightarrow> node list \<Rightarrow> 'e \<Rightarrow> 'e multiset" where
  "due S a nds e = mset (concat (map (\<lambda>nd. if snd nd = a \<and> shows_ev S a e then [e] else []) nds))"

definition loop_list :: "'e sinks \<Rightarrow> (nat \<Rightarrow> node list) \<Rightarrow> nat \<Rightarrow> 'e \<Rightarrow> node list" where
  "loop_list S N l e = (if N l \<noteq> [] then N l else if l \<noteq> 0 \<and> logs S 0 e then N 0 else [])"

fun call_due :: "'e sinks \<Rightarrow> (nat \<Rightarrow> node list) \<Rightarrow> nat \<Rightarrow> 'e log_call \<Rightarrow> 'e multiset" where
  "call_due S N a (Log l e) = (if logs S l e then due S a (loop_list S N l e) e else {#})"
| "call_due S N a _ = {#}"

definition from_node :: "nat \<Rightarrow> node list \<Rightarrow> node list" where
  "from_node k nds = dropWhile (\<lambda>nd. fst nd \<noteq> k) nds"

fun pc_due :: "'e sinks \<Rightarrow> (nat \<Rightarrow> node list) \<Rightarrow> nat \<Rightarrow> 'e log_pc \<Rightarrow> 'e multiset" where
  "pc_due S N a (Entering hs l e) = due S a (loop_list S N l e) e"
| "pc_due S N a (Inside hs e) = due S a (loop_list S N (hd hs) e) e"
| "pc_due S N a (At_Node hs e nd) = due S a (from_node (fst nd) (N (hd hs))) e"
| "pc_due S N a (In_Appender hs e nd f ps) = due S a (from_node (fst nd) (N (hd hs))) e"
| "pc_due S N a (Past_Node hs e nd) = due S a (tl (from_node (fst nd) (N (hd hs)))) e"
| "pc_due S N a _ = {#}"

definition thread_due :: "'e sinks \<Rightarrow> (nat \<Rightarrow> node list) \<Rightarrow> nat \<Rightarrow> 'e log_race \<Rightarrow> nat \<Rightarrow> 'e multiset" where
  "thread_due S N a s i = pc_due S N a (lr_pc s i) + sum_list (map (call_due S N a) (lr_todo s i))"

lemma due_simps [simp]:
  "due S a [] e = {#}" "due S a (nd # nds) e = (if snd nd = a \<and> shows_ev S a e then {#e#} else {#}) + due S a nds e"
  by (simp_all add: due_def)

lemma from_node_at: "(k, a) \<in> set nds \<Longrightarrow> distinct (map fst nds) \<Longrightarrow> from_node k nds = (k, a) # tl (from_node k nds)"
  by (induction nds) (force simp: from_node_def)+

lemma from_node_next:
  "successor k nds = Some (Some nd) \<Longrightarrow> distinct (map fst nds) \<Longrightarrow> from_node (fst nd) nds = tl (from_node k nds)"
proof -
  assume suc: "successor k nds = Some (Some nd)" and dist: "distinct (map fst nds)"
  then obtain x rest where d: "dropWhile (\<lambda>nd. fst nd \<noteq> k) nds = x # nd # rest"
    by (auto simp: successor_def split: list.splits)
  define pre where "pre = takeWhile (\<lambda>nd. fst nd \<noteq> k) nds"
  have nds: "nds = pre @ x # nd # rest" using takeWhile_dropWhile_id [of "\<lambda>nd. fst nd \<noteq> k" nds] d by (simp add: pre_def)
  with dist have "fst nd \<notin> fst ` set (pre @ [x])" by simp
  then have "\<forall>y \<in> set (pre @ [x]). fst y \<noteq> fst nd" by (metis image_eqI)
  then have "from_node (fst nd) ((pre @ [x]) @ nd # rest) = nd # rest"
    unfolding from_node_def by (subst dropWhile_append2) auto
  with nds d show ?thesis by (simp add: from_node_def)
qed

lemma from_node_end: "successor k nds = Some None \<Longrightarrow> tl (from_node k nds) = []"
  by (auto simp: successor_def from_node_def split: list.splits)

fun only_log :: "'e log_call list \<Rightarrow> bool" where
  "only_log [] = True" | "only_log (Log l e # ops) = only_log ops" | "only_log (_ # ops) = False"

fun adds :: "'e log_pc \<Rightarrow> bool" where
  "adds (Adding l a) = True" | "adds (Asking l a) = True" | "adds (Lacking l a) = True" | "adds (Lending l a) = True"
| "adds (Pushing l a) = True" | "adds _ = False"

text \<open>Appender \<open>a\<close> has the formatter \<open>F a\<close> throughout.\<close>

definition static :: "'e sinks \<Rightarrow> (nat \<Rightarrow> nat) \<Rightarrow> (nat \<Rightarrow> node list) \<Rightarrow> 'e log_race \<Rightarrow> bool" where
  "static S F N s \<longleftrightarrow> lr_nodes s = N \<and> lr_format s = Some \<circ> F \<and> (\<forall>i. only_log (lr_todo s i)) \<and> (\<forall>i. \<not> adds (lr_pc s i)) \<and>
     (\<forall>i hs e nd f ps. lr_pc s i = In_Appender hs e nd f ps \<longrightarrow> shows_ev S (snd nd) e \<and> f = F (snd nd)) \<and>
     (\<forall>a. \<forall>r \<in> set (lr_records s a). fst r = F a)"

lemma static_todo:
  assumes "static S F N s" and "lr_todo s i = c # ops"
  shows "only_log (c # ops)" and "only_log ops"
proof -
  show "only_log (c # ops)" using assms unfolding static_def by metis
  then show "only_log ops" by (cases c) simp_all
qed

lemma static_adds: "static S F N s \<Longrightarrow> \<not> adds (lr_pc s i)"
  by (simp add: static_def)

lemma static_step:
  assumes "race_step n S s t" and st: "static S F N s"
  shows "static S F N t"
proof -
  note todo = static_todo [OF st] and adds = static_adds [OF st]
  show ?thesis
    using assms(1)
  proof (cases rule: race_step.cases)
    case (append_write i hs e k a f p ps)
    then have "shows_ev S a e \<and> f = F a" using st unfolding static_def by (metis snd_conv)
    with append_write st show ?thesis by (auto simp: static_def)
  next
    case (append_unlock i hs e k a f)
    then have "f = F a" using st unfolding static_def by (metis snd_conv)
    with append_unlock st show ?thesis by (auto simp: static_def)
  next
    case (log_below i l e ops)
    with st todo [OF log_below(4)] show ?thesis by (auto simp: static_def)
  next
    case (log_call i l e ops)
    with st todo [OF log_call(4)] show ?thesis by (auto simp: static_def)
  next
    case (add_lock i l a ops b)
    from todo [OF add_lock(4)] show ?thesis by simp
  next
    case (add_ask i l a b)
    with adds [of i] show ?thesis by simp
  next
    case (add_answer i l a)
    with adds [of i] show ?thesis by simp
  next
    case (add_lend i l a b)
    with adds [of i] show ?thesis by simp
  next
    case (add_store i l a)
    with adds [of i] show ?thesis by simp
  next
    case (add_push i l a)
    with adds [of i] show ?thesis by simp
  next
    case (clear_appenders i l ops b)
    from todo [OF clear_appenders(4)] show ?thesis by simp
  next
    case (del_appender i l a ops)
    from todo [OF del_appender(4)] show ?thesis by simp
  qed (use st in \<open>auto simp: static_def split: if_splits\<close>)
qed

text \<open>A step takes nothing from the records to come but what it adds to the records written.\<close>

lemma due_step:
  assumes "race_step n S s t" and st: "static S F N s" and nd: "nodes_ok s" and dist: "\<And>l. distinct (map fst (N l))"
  shows "\<exists>i<n. (\<forall>j. j \<noteq> i \<longrightarrow> thread_due S N a t j = thread_due S N a s j) \<and>
    mset (map snd (lr_records t a)) + thread_due S N a t i = mset (map snd (lr_records s a)) + thread_due S N a s i"
proof -
  have nodes: "lr_nodes s = N" using st by (simp add: static_def)
  have here: "x \<in> set (N l)" if "in_loop (lr_pc s i) = Some (l, x)" for i l x
    using nd that nodes unfolding nodes_ok_def by blast
  have at: "due S b (from_node k (N l)) e = (if a = b \<and> shows_ev S a e then {#e#} else {#}) + due S b (tl (from_node k (N l))) e"
    if "(k, a) \<in> set (N l)" for k a b l e
    by (subst from_node_at [OF that dist]) simp
  note logs = static_todo(1) [OF st] and adds = static_adds [OF st]
  have same: "thread_due S N a t j = thread_due S N a s j" if "lr_pc t j = lr_pc s j" "lr_todo t j = lr_todo s j" for j
    using that by (simp add: thread_due_def)
  have one: ?thesis
    if "i < n" "\<And>j. j \<noteq> i \<Longrightarrow> lr_pc t j = lr_pc s j \<and> lr_todo t j = lr_todo s j" "lr_records t = lr_records s"
      "thread_due S N a t i = thread_due S N a s i" for i
    using that same by (intro exI [of _ i]) simp
  show ?thesis
    using assms(1)
  proof (cases rule: race_step.cases)
    case (append_below i l hs e k b)
    then show ?thesis using at [of k b l a e] nodes by (intro one [of i]) (simp_all add: thread_due_def)
  next
    case (append_unlock i hs e k b f)
    then have "shows_ev S b e" using st unfolding static_def by (metis snd_conv)
    moreover have "(k, b) \<in> set (N (hd hs))" using here [of i "hd hs" "(k, b)"] append_unlock by simp
    ultimately show ?thesis using at [of k b "hd hs" a e] append_unlock same
      by (intro exI [of _ i]) (simp add: thread_due_def)
  next
    case (log_next i l hs e k b nd)
    with from_node_next [of k "N l" nd] dist [of l] nodes show ?thesis by (intro one [of i]) (simp_all add: thread_due_def)
  next
    case (log_end i l hs e k b)
    with from_node_end [of k "N l"] nodes show ?thesis by (intro one [of i]) (simp_all add: thread_due_def)
  next
    case (log_first i l hs e nd nds)
    then show ?thesis using nodes by (intro one [of i]) (auto simp: thread_due_def loop_list_def from_node_def)
  next
    case (log_root i l hs e)
    then show ?thesis using nodes by (intro one [of i]) (auto simp: thread_due_def loop_list_def)
  next
    case (log_nowhere i l hs e)
    then show ?thesis using nodes by (intro one [of i]) (auto simp: thread_due_def loop_list_def)
  next
    case (log_freed i l hs e nd)
    then have "nd \<in> set (N l)" using here [of i l nd] by auto
    with log_freed nodes show ?thesis by simp
  next
    case (log_below i l e ops)
    then show ?thesis by (intro one [of i]) (simp_all add: thread_due_def)
  next
    case (log_call i l e ops)
    then show ?thesis by (intro one [of i]) (simp_all add: thread_due_def)
  next
    case (log_lock i hs l e b)
    then show ?thesis by (intro one [of i]) (simp_all add: thread_due_def)
  next
    case (append_lock i l hs e k b c f)
    then show ?thesis by (intro one [of i]) (simp_all add: thread_due_def)
  next
    case (append_write i hs e k b f p ps)
    then show ?thesis by (intro one [of i]) (simp_all add: thread_due_def)
  next
    case (log_unlock i l hs)
    then show ?thesis by (intro one [of i]) (simp_all add: thread_due_def)
  next
    case (log_return i)
    then show ?thesis by (intro one [of i]) (simp_all add: thread_due_def)
  next
    case (append_null i l hs e k b c)
    with st show ?thesis by (simp add: static_def)
  next
    case (add_lock i l b ops c)
    from logs [OF add_lock(4)] show ?thesis by simp
  next
    case (add_ask i l b c)
    with adds [of i] show ?thesis by simp
  next
    case (add_answer i l b)
    with adds [of i] show ?thesis by simp
  next
    case (add_lend i l b c)
    with adds [of i] show ?thesis by simp
  next
    case (add_store i l b)
    with adds [of i] show ?thesis by simp
  next
    case (add_push i l b)
    with adds [of i] show ?thesis by simp
  next
    case (clear_appenders i l ops c)
    from logs [OF clear_appenders(4)] show ?thesis by simp
  next
    case (del_appender i l b ops)
    from logs [OF del_appender(4)] show ?thesis by simp
  qed
qed

lemma only_log_keeps: "only_log ops \<Longrightarrow> keeps_nodes ops"
  by (induction ops rule: only_log.induct) (auto simp: keeps_nodes_def)

lemma formatted_all: "formatted N (Some \<circ> F)"
  by (simp add: formatted_def)

lemma race_reach_due:
  assumes "race_reach n S (race_init N (Some \<circ> F) fresh work) s" and "\<And>i. only_log (work i)" and "\<And>l. distinct (map fst (N l))"
  shows "static S F N s \<and> mset (map snd (lr_records s a)) + (\<Sum>i<n. thread_due S N a s i) = (\<Sum>i<n. sum_list (map (call_due S N a) (work i)))"
  using assms(1)
proof (induction rule: race_reach.induct)
  case race_start
  then show ?case using assms(2) by (simp add: static_def race_init_def thread_due_def)
next
  case (race_next s t)
  have "nodes_ok s" using race_reach_ok [OF race_next.hyps(1) only_log_keeps [OF assms(2)] formatted_all] by blast
  from due_step [where N = N and a = a, OF race_next.hyps(2) _ this assms(3)] race_next.IH
  obtain i where "i < n" "\<forall>j. j \<noteq> i \<longrightarrow> thread_due S N a t j = thread_due S N a s j"
    "mset (map snd (lr_records t a)) + thread_due S N a t i = mset (map snd (lr_records s a)) + thread_due S N a s i" by blast
  from sum_one_changes [OF this] race_next.IH static_step [OF race_next.hyps(2)] show ?case by simp
qed

section \<open>Runs end\<close>

text \<open>A bound on the steps to come, where no call changes a list.\<close>

definition loop_steps :: "'e sinks \<Rightarrow> (nat \<Rightarrow> nat) \<Rightarrow> node list \<Rightarrow> 'e \<Rightarrow> nat" where
  "loop_steps S F nds e = (\<Sum>nd\<leftarrow>nds. 3 + length (pieces S (F (snd nd)) e))"

definition inside_steps :: "'e sinks \<Rightarrow> (nat \<Rightarrow> nat) \<Rightarrow> (nat \<Rightarrow> node list) \<Rightarrow> nat \<Rightarrow> nat \<Rightarrow> 'e \<Rightarrow> nat" where
  "inside_steps S F N m l e = 3 + m + (if N l \<noteq> [] then loop_steps S F (N l) e
     else if l \<noteq> 0 \<and> logs S 0 e then 3 + loop_steps S F (N 0) e else 0)"

fun pc_steps :: "'e sinks \<Rightarrow> (nat \<Rightarrow> nat) \<Rightarrow> (nat \<Rightarrow> node list) \<Rightarrow> 'e log_pc \<Rightarrow> nat" where
  "pc_steps S F N (Entering hs l e) = 1 + inside_steps S F N (length hs + 1) l e"
| "pc_steps S F N (Inside hs e) = inside_steps S F N (length hs) (hd hs) e"
| "pc_steps S F N (At_Node hs e nd) = loop_steps S F (from_node (fst nd) (N (hd hs))) e + 2 + length hs"
| "pc_steps S F N (In_Appender hs e nd f ps) = loop_steps S F (tl (from_node (fst nd) (N (hd hs)))) e + 4 + length hs + length ps"
| "pc_steps S F N (Past_Node hs e nd) = loop_steps S F (tl (from_node (fst nd) (N (hd hs)))) e + 3 + length hs"
| "pc_steps S F N (Leaving hs) = 1 + length hs"
| "pc_steps S F N Away = 0" | "pc_steps S F N Crashed = 0" | "pc_steps S F N (Adding l a) = 0"
| "pc_steps S F N (Asking l a) = 0" | "pc_steps S F N (Lacking l a) = 0" | "pc_steps S F N (Lending l a) = 0"
| "pc_steps S F N (Pushing l a) = 0"

fun call_steps :: "'e sinks \<Rightarrow> (nat \<Rightarrow> nat) \<Rightarrow> (nat \<Rightarrow> node list) \<Rightarrow> 'e log_call \<Rightarrow> nat" where
  "call_steps S F N (Log l e) = (if logs S l e then 2 + inside_steps S F N 1 l e else 1)" | "call_steps S F N _ = 1"

definition steps_left :: "nat \<Rightarrow> 'e sinks \<Rightarrow> (nat \<Rightarrow> nat) \<Rightarrow> (nat \<Rightarrow> node list) \<Rightarrow> 'e log_race \<Rightarrow> nat" where
  "steps_left n S F N s = (\<Sum>i<n. pc_steps S F N (lr_pc s i) + (\<Sum>c\<leftarrow>lr_todo s i. call_steps S F N c))"

lemma loop_steps_simps [simp]:
  "loop_steps S F [] e = 0" "loop_steps S F (nd # nds) e = 3 + length (pieces S (F (snd nd)) e) + loop_steps S F nds e"
  by (simp_all add: loop_steps_def)

lemma steps_step:
  assumes "race_step n S s t" and st: "static S F N s" and nd: "nodes_ok s" and dist: "\<And>l. distinct (map fst (N l))"
  shows "steps_left n S F N t < steps_left n S F N s"
proof -
  have nodes: "lr_nodes s = N" using st by (simp add: static_def)
  have here: "x \<in> set (N l)" if "in_loop (lr_pc s i) = Some (l, x)" for i l x
    using nd that nodes unfolding nodes_ok_def by blast
  have at: "loop_steps S F (from_node k (N l)) e = 3 + length (pieces S (F a) e) + loop_steps S F (tl (from_node k (N l))) e"
    if "(k, a) \<in> set (N l)" for k a l e
    by (subst from_node_at [OF that dist]) simp
  note logs = static_todo(1) [OF st] and adds = static_adds [OF st]
  have one: ?thesis
    if i: "i < n" and rest: "\<And>j. j \<noteq> i \<Longrightarrow> lr_pc t j = lr_pc s j \<and> lr_todo t j = lr_todo s j"
      and less: "pc_steps S F N (lr_pc t i) + (\<Sum>c\<leftarrow>lr_todo t i. call_steps S F N c) <
        pc_steps S F N (lr_pc s i) + (\<Sum>c\<leftarrow>lr_todo s i. call_steps S F N c)" for i
  proof -
    have "steps_left n S F N s' = (pc_steps S F N (lr_pc s' i) + (\<Sum>c\<leftarrow>lr_todo s' i. call_steps S F N c)) +
        (\<Sum>j\<in>{..<n} - {i}. pc_steps S F N (lr_pc s' j) + (\<Sum>c\<leftarrow>lr_todo s' j. call_steps S F N c))" for s'
      using i unfolding steps_left_def by (subst sum.remove [of "{..<n}" i]) simp_all
    moreover have "(\<Sum>j\<in>{..<n} - {i}. pc_steps S F N (lr_pc t j) + (\<Sum>c\<leftarrow>lr_todo t j. call_steps S F N c)) =
        (\<Sum>j\<in>{..<n} - {i}. pc_steps S F N (lr_pc s j) + (\<Sum>c\<leftarrow>lr_todo s j. call_steps S F N c))"
      using rest by (intro sum.cong) simp_all
    ultimately show ?thesis using less by simp
  qed
  show ?thesis
    using assms(1)
  proof (cases rule: race_step.cases)
    case (append_below i l hs e k b)
    then show ?thesis using at [of k b l e] nodes by (intro one [of i]) simp_all
  next
    case (append_lock i l hs e k b c f)
    moreover have "f = F b" using append_lock st by (simp add: static_def)
    ultimately show ?thesis using at [of k b l e] nodes by (intro one [of i]) simp_all
  next
    case (log_next i l hs e k b nd)
    with from_node_next [of k "N l" nd] dist [of l] nodes show ?thesis by (intro one [of i]) simp_all
  next
    case (log_first i l hs e nd nds)
    then show ?thesis using nodes by (intro one [of i]) (auto simp: inside_steps_def from_node_def)
  next
    case (log_root i l hs e)
    then show ?thesis using nodes by (intro one [of i]) (auto simp: inside_steps_def)
  next
    case (log_nowhere i l hs e)
    then show ?thesis using nodes by (intro one [of i]) (auto simp: inside_steps_def)
  next
    case (log_freed i l hs e nd)
    then have "nd \<in> set (N l)" using here [of i l nd] by auto
    with log_freed nodes show ?thesis by simp
  next
    case (log_below i l e ops)
    then show ?thesis by (intro one [of i]) simp_all
  next
    case (log_call i l e ops)
    then show ?thesis by (intro one [of i]) simp_all
  next
    case (log_lock i hs l e b)
    then show ?thesis by (intro one [of i]) simp_all
  next
    case (log_end i l hs e k b)
    then show ?thesis by (intro one [of i]) simp_all
  next
    case (append_write i hs e k b f p ps)
    then show ?thesis by (intro one [of i]) simp_all
  next
    case (append_unlock i hs e k b f)
    then show ?thesis by (intro one [of i]) simp_all
  next
    case (log_unlock i l hs)
    then show ?thesis by (intro one [of i]) simp_all
  next
    case (log_return i)
    then show ?thesis by (intro one [of i]) simp_all
  next
    case (append_null i l hs e k b c)
    with st show ?thesis by (simp add: static_def)
  next
    case (add_lock i l b ops c)
    from logs [OF add_lock(4)] show ?thesis by simp
  next
    case (add_ask i l b c)
    with adds [of i] show ?thesis by simp
  next
    case (add_answer i l b)
    with adds [of i] show ?thesis by simp
  next
    case (add_lend i l b c)
    with adds [of i] show ?thesis by simp
  next
    case (add_store i l b)
    with adds [of i] show ?thesis by simp
  next
    case (add_push i l b)
    with adds [of i] show ?thesis by simp
  next
    case (clear_appenders i l ops c)
    from logs [OF clear_appenders(4)] show ?thesis by simp
  next
    case (del_appender i l b ops)
    from logs [OF del_appender(4)] show ?thesis by simp
  qed
qed

lemma lines_reach:
  assumes "race_reach n S (race_init nodes format fresh work) s" and "\<And>i. keeps_nodes (work i)" and "formatted nodes format"
  shows "lines_ok S s"
  using assms(1)
proof (induction rule: race_reach.induct)
  case race_start
  then show ?case by (simp add: lines_ok_def race_init_def)
next
  case (race_next s t)
  then show ?case using lines_step race_reach_ok [OF race_next.hyps(1) assms(2,3)] by blast
qed

lemma static_completes:
  assumes "race_reach n S (race_init N (Some \<circ> F) fresh work) s" and "\<And>i. only_log (work i)" and "\<And>l. distinct (map fst (N l))"
  shows "\<exists>s'. race_reach n S (race_init N (Some \<circ> F) fresh work) s' \<and> done_all n s'"
  using assms(1)
proof (induction s rule: measure_induct_rule [where f = "steps_left n S F N"])
  case (less s)
  have ok: "locks_ok n s" "nodes_ok s" using race_reach_ok [OF less.prems only_log_keeps [OF assms(2)] formatted_all] by blast+
  have st: "static S F N s" using race_reach_due [OF less.prems assms(2,3)] by blast
  show ?case
  proof (cases "done_all n s")
    case True
    with less.prems show ?thesis by blast
  next
    case False
    with race_progress [OF ok] obtain t where t: "race_step n S s t" by blast
    from less.IH [OF steps_step [where N = N, OF t st ok(2) assms(3)] race_reach.race_next [OF less.prems t]] show ?thesis .
  qed
qed

lemma done_stuck: "locks_ok n s \<Longrightarrow> done_all n s \<Longrightarrow> \<nexists>t. race_step n S s t"
  by (auto simp: done_all_def elim!: race_step.cases)

lemma nothing_due: "done_all n s \<Longrightarrow> i < n \<Longrightarrow> thread_due S N a s i = {#}"
  by (simp add: done_all_def thread_due_def)

section \<open>Two consoles\<close>

text \<open>
  A thread alone takes its call into the first appender and writes the first piece. Two loggers with a
  console appender each have two locks for the one std::cout: their lines can mix.
\<close>

lemma first_piece:
  assumes reach: "race_reach n S s0 s" and i: "i < n" and pc: "lr_pc s i = Away" and todo: "lr_todo s i = Log l e # ops"
    and lv: "logs S l e" "shows_ev S a e" and nodes: "lr_nodes s l = (k, a) # nds"
    and free: "\<not> lr_logger s l" "\<not> lr_appender s a" and fmt: "lr_format s a = Some f" and ps: "pieces S f e = p # ps"
  shows "\<exists>t. race_reach n S s0 t \<and> lr_pc t = (lr_pc s)(i := In_Appender [l] e (k, a) f ps) \<and> lr_todo t = (lr_todo s)(i := ops) \<and>
    lr_nodes t = lr_nodes s \<and> lr_format t = lr_format s \<and> lr_logger t = (lr_logger s)(l := True) \<and> lr_appender t = (lr_appender s)(a := True) \<and>
    lr_out t = lr_out s @ [(a, p)]"
proof -
  let ?s1 = "jump i (Entering [] l e) (called i ops s)"
  let ?s2 = "jump i (Inside [l] e) (?s1\<lparr>lr_logger := (lr_logger ?s1)(l := True)\<rparr>)"
  let ?s3 = "jump i (At_Node [l] e (k, a)) ?s2"
  let ?s4 = "jump i (In_Appender [l] e (k, a) f (pieces S f e)) (?s3\<lparr>lr_appender := (lr_appender ?s3)(a := True)\<rparr>)"
  let ?s5 = "jump i (In_Appender [l] e (k, a) f ps) (?s4\<lparr>lr_out := lr_out ?s4 @ [(a, p)]\<rparr>)"
  have 1: "race_step n S s ?s1" by (rule log_call [OF i pc todo lv(1)])
  have 2: "race_step n S ?s1 ?s2" by (rule log_lock [OF i]) (simp_all add: Spinlock_free free)
  have 3: "race_step n S ?s2 ?s3" by (rule log_first [OF i]) (simp_all add: nodes)
  have 4: "race_step n S ?s3 ?s4" by (rule append_lock [OF i]) (simp_all add: nodes lv Spinlock_free free fmt)
  have 5: "race_step n S ?s4 ?s5" by (rule append_write [OF i]) (simp add: ps)
  note next_step = race_reach.race_next [where n = n and S = S and ?s0.0 = s0]
  have "race_reach n S s0 ?s5"
    by (rule next_step [OF next_step [OF next_step [OF next_step [OF next_step [OF reach 1] 2] 3] 4] 5])
  then show ?thesis by (intro exI [of _ ?s5]) simp
qed

lemma consoles_mix:
  assumes "l \<noteq> l'" and "a \<noteq> b" and "N l = (k, a) # nds" and "N l' = (k', b) # nds'"
    and "logs S l e" "shows_ev S a e" "logs S l' e'" "shows_ev S b e'"
    and "format a = Some f" and "pieces S f e = p # ps" and "format b = Some f'" and "pieces S f' e' = q # qs"
    and "work 0 = Log l e # ops" and "work 1 = Log l' e' # ops'"
  shows "\<exists>s. race_reach 2 S (race_init N format fresh work) s \<and> lr_out s = [(a, p), (b, q)] \<and>
    lr_pc s 0 = In_Appender [l] e (k, a) f ps \<and> lr_pc s 1 = In_Appender [l'] e' (k', b) f' qs"
proof -
  let ?s0 = "race_init N format fresh work"
  have init: "lr_pc ?s0 = (\<lambda>_. Away)" "lr_todo ?s0 = work" "lr_nodes ?s0 = N" "lr_logger ?s0 = (\<lambda>_. False)"
    "lr_appender ?s0 = (\<lambda>_. False)" "lr_format ?s0 = format" "lr_out ?s0 = []"
    by (simp_all add: race_init_def)
  obtain t where t: "race_reach 2 S ?s0 t" "lr_pc t = (\<lambda>_. Away)(0 := In_Appender [l] e (k, a) f ps)" "lr_todo t = work(0 := ops)"
    "lr_nodes t = N" "lr_format t = format" "lr_logger t = (\<lambda>_. False)(l := True)" "lr_appender t = (\<lambda>_. False)(a := True)" "lr_out t = [(a, p)]"
    using first_piece [where i = 0 and n = 2 and S = S and l = l and e = e and ops = ops and a = a and k = k and nds = nds and f = f and p = p and ps = ps,
      OF race_reach.race_start [where ?s0.0 = ?s0]] assms by (auto simp: init)
  from first_piece [where i = 1 and l = l' and e = e' and ops = ops' and a = b and k = k' and nds = nds' and f = f' and p = q and ps = qs, OF t(1)] assms t(2-8) show ?thesis by auto
qed

section \<open>A deleted node\<close>

text \<open>A thread in the loop, and a second one that deletes the appender the loop is at.\<close>

lemma freed_in_loop:
  assumes "N l = (k, a) # nds" and "k \<notin> fst ` set nds" and "logs S l e"
    and "work 0 = Log l e # ops" and "work 1 = Del_Appender l a # ops'"
  shows "\<exists>s. race_reach 2 S (race_init N format fresh work) s \<and> lr_pc s 0 = Crashed \<and> lr_logger s l"
proof -
  let ?s0 = "race_init N format fresh work"
  let ?s1 = "jump 0 (Entering [] l e) (called 0 ops ?s0)"
  let ?s2 = "jump 0 (Inside [l] e) (?s1\<lparr>lr_logger := (lr_logger ?s1)(l := True)\<rparr>)"
  let ?s3 = "jump 0 (At_Node [l] e (k, a)) ?s2"
  let ?s4 = "called 1 ops' (?s3\<lparr>lr_nodes := (lr_nodes ?s3)(l := erase_first a (lr_nodes ?s3 l))\<rparr>)"
  have init: "lr_pc ?s0 = (\<lambda>_. Away)" "lr_todo ?s0 = work" "lr_nodes ?s0 = N" "\<not> lr_logger ?s0 l"
    by (simp_all add: race_init_def)
  have 1: "race_step 2 S ?s0 ?s1" using assms(3,4) by (intro log_call) (simp_all add: init)
  have 2: "race_step 2 S ?s1 ?s2" by (rule log_lock [where e = e and hs = "[]"]) (simp_all add: init Spinlock_free)
  have 3: "race_step 2 S ?s2 ?s3" by (rule log_first [where nds = nds]) (simp_all add: init assms(1))
  have 4: "race_step 2 S ?s3 ?s4" by (rule del_appender) (use assms(5) in \<open>simp_all add: init\<close>)
  have "(k, a) \<notin> set (lr_nodes ?s4 l)" using assms(1,2) by (force simp: init)
  then have 5: "race_step 2 S ?s4 (jump 0 Crashed ?s4)"
    by (rule log_freed [rotated 2, where hs = "[]" and e = e]) simp_all
  note reach = race_reach.race_next [where n = 2 and S = S and ?s0.0 = ?s0]
  have "race_reach 2 S ?s0 (jump 0 Crashed ?s4)"
    by (rule reach [OF reach [OF reach [OF reach [OF reach [OF race_reach.race_start 1] 2] 3] 4] 5])
  then show ?thesis by (intro exI [of _ "jump 0 Crashed ?s4"]) simp
qed

section \<open>Properties\<close>

text \<open>Two threads, a logger with an appender of its own and one that falls back to the root.\<close>

definition demo_sinks :: "string sinks" where
  "demo_sinks = \<lparr>logs = (\<lambda>l e. True), shows_ev = (\<lambda>a e. True), pieces = (\<lambda>f e. [''['', e, '']'']), lends = Suc\<rparr>"

definition demo_nodes :: "nat \<Rightarrow> node list" where
  "demo_nodes l = (if l = 0 then [(0, 0)] else if l = 1 then [(1, 1)] else [])"

definition demo_work :: "nat \<Rightarrow> string log_call list" where
  "demo_work i = (if i = 0 then [Log 1 ''a'', Log 2 ''b''] else if i = 1 then [Log 2 ''c''] else [])"

lemma demo_only_log: "only_log (demo_work i)"
  by (simp add: demo_work_def)

lemma demo_distinct: "distinct (map fst (demo_nodes l))"
  by (simp add: demo_nodes_def)

lemma demo_completes: "\<exists>s. race_reach 2 demo_sinks (race_init demo_nodes (Some \<circ> id) 2 demo_work) s \<and> done_all 2 s"
  by (rule static_completes [OF race_reach.race_start]) (rule demo_only_log demo_distinct)+

text \<open>
  C11. Concurrent logging is safe as long as nobody deletes an appender: in every interleaving of threads
  that log, add and clear appenders, where the appenders of the first lists have a formatter, no thread
  uses a node that is gone or a null formatter, since addAppender gives an appender without one the
  formatter of the logger; what an appender has written to the common stream is the records it has
  finished, whole and one after another, followed by a part of one more only while a thread is in its
  log function; and some thread can take a step unless all of their work is done, so the locks of
  loggers, root and appenders, which addAppender also takes one inside the other, never block each other.
\<close>

theorem concurrent_logging_safe:
  assumes "race_reach n S (race_init nodes format fresh work) s" and "\<forall>i l a. Del_Appender l a \<notin> set (work i)"
    and "\<forall>l. \<forall>nd \<in> set (nodes l). format (snd nd) \<noteq> None"
  shows "(\<forall>i. lr_pc s i \<noteq> Crashed) \<and>
    (\<forall>l. \<forall>nd \<in> set (lr_nodes s l). lr_format s (snd nd) \<noteq> None) \<and>
    (\<forall>a. \<exists>part. texts_of a (lr_out s) = concat (map (\<lambda>(f, e). pieces S f e) (lr_records s a)) @ part \<and>
      (part \<noteq> [] \<longrightarrow> (\<exists>i<n. \<exists>hs e k f ps. lr_pc s i = In_Appender hs e (k, a) f ps \<and> pieces S f e = part @ ps))) \<and>
    ((\<forall>i<n. lr_pc s i = Away \<and> lr_todo s i = []) \<or> (\<exists>t. race_step n S s t))"
proof (intro conjI)
  have keep: "keeps_nodes (work i)" for i using assms(2) by (simp add: keeps_nodes_def)
  have form: "formatted nodes format" using assms(3) by (simp add: formatted_def)
  have ok: "locks_ok n s" "nodes_ok s" using race_reach_ok [OF assms(1) keep form] by blast+
  have lines: "lines_ok S s" by (rule lines_reach [OF assms(1) keep form])
  show "\<forall>i. lr_pc s i \<noteq> Crashed" using ok(1) by (simp add: locks_ok_def)
  show "\<forall>l. \<forall>nd \<in> set (lr_nodes s l). lr_format s (snd nd) \<noteq> None" using ok(2) unfolding nodes_ok_def by force
  show "(\<forall>i<n. lr_pc s i = Away \<and> lr_todo s i = []) \<or> (\<exists>t. race_step n S s t)"
    using race_progress [OF ok] unfolding done_all_def by blast
  show "\<forall>a. \<exists>part. texts_of a (lr_out s) = concat (map (\<lambda>(f, e). pieces S f e) (lr_records s a)) @ part \<and>
      (part \<noteq> [] \<longrightarrow> (\<exists>i<n. \<exists>hs e k f ps. lr_pc s i = In_Appender hs e (k, a) f ps \<and> pieces S f e = part @ ps))"
    unfolding lines_of_def [symmetric]
  proof
    fix a
    show "\<exists>part. texts_of a (lr_out s) = lines_of S (lr_records s a) @ part \<and>
      (part \<noteq> [] \<longrightarrow> (\<exists>i<n. \<exists>hs e k f ps. lr_pc s i = In_Appender hs e (k, a) f ps \<and> pieces S f e = part @ ps))"
    proof (cases "\<exists>i hs e k f ps. lr_pc s i = In_Appender hs e (k, a) f ps")
      case True
      then obtain i hs e k f ps where i: "lr_pc s i = In_Appender hs e (k, a) f ps" by blast
      then have "i < n" using ok(1) by (metis locks_ok_def log_pc.distinct(7) not_le)
      with i lines_writing [OF lines i] show ?thesis by blast
    next
      case False
      with lines_at_rest [OF lines] show ?thesis by simp
    qed
  qed
qed

text \<open>A thread alone adds an appender, which has no formatter yet.\<close>

lemma lone_add:
  assumes reach: "race_reach n S s0 s" and i: "i < n" and pc: "lr_pc s i = Away" and todo: "lr_todo s i = Add_Appender l a # ops"
    and free: "\<not> lr_logger s l" "\<not> lr_appender s a" and none: "lr_format s a = None"
  shows "\<exists>t. race_reach n S s0 t \<and> lr_nodes t = (lr_nodes s)(l := lr_nodes s l @ [(lr_fresh s, a)]) \<and>
    lr_format t = (lr_format s)(a := Some (lends S l)) \<and> lr_pc t i = Leaving [l]"
proof -
  let ?s1 = "jump i (Adding l a) (called i ops (s\<lparr>lr_logger := (lr_logger s)(l := True)\<rparr>))"
  let ?s2 = "jump i (Asking l a) (?s1\<lparr>lr_appender := (lr_appender ?s1)(a := True)\<rparr>)"
  let ?s3 = "jump i (if lr_format ?s2 a = None then Lacking l a else Pushing l a)
    (?s2\<lparr>lr_appender := (lr_appender ?s2)(a := Spinlock_unlock (lr_appender ?s2 a))\<rparr>)"
  let ?s4 = "jump i (Lending l a) (?s3\<lparr>lr_appender := (lr_appender ?s3)(a := True)\<rparr>)"
  let ?s5 = "jump i (Pushing l a) (?s4\<lparr>lr_format := (lr_format ?s4)(a := Some (lends S l)),
    lr_appender := (lr_appender ?s4)(a := Spinlock_unlock (lr_appender ?s4 a))\<rparr>)"
  let ?s6 = "jump i (Leaving [l]) (?s5\<lparr>lr_nodes := (lr_nodes ?s5)(l := lr_nodes ?s5 l @ [(lr_fresh ?s5, a)]), lr_fresh := lr_fresh ?s5 + 1\<rparr>)"
  have 1: "race_step n S s ?s1" by (rule add_lock [OF i pc todo Spinlock_free [OF free(1)]])
  have 2: "race_step n S ?s1 ?s2" by (rule add_ask [OF i]) (simp_all add: Spinlock_free free)
  have 3: "race_step n S ?s2 ?s3" by (rule add_answer [OF i]) simp
  have 4: "race_step n S ?s3 ?s4" by (rule add_lend [OF i]) (simp_all add: none Spinlock_unlock_def Spinlock_free)
  have 5: "race_step n S ?s4 ?s5" by (rule add_store [OF i]) simp
  have 6: "race_step n S ?s5 ?s6" by (rule add_push [OF i]) simp
  note next_step = race_reach.race_next [where n = n and S = S and ?s0.0 = s0]
  have "race_reach n S s0 ?s6"
    by (rule next_step [OF next_step [OF next_step [OF next_step [OF next_step [OF next_step [OF reach 1] 2] 3] 4] 5] 6])
  then show ?thesis by (intro exI [of _ ?s6]) simp
qed

theorem concurrent_logging_safe_witness:
  "\<exists>s t. race_reach 2 demo_sinks (race_init demo_nodes ((Some \<circ> id)(5 := None)) 2 (\<lambda>i. [Add_Appender 2 5, Log 2 ''c''])) s \<and>
     lr_nodes s 2 = [(2, 5)] \<and> lr_format s 5 = Some 3 \<and> (\<forall>i. lr_pc s i \<noteq> Crashed) \<and> race_step 2 demo_sinks s t"
proof -
  let ?s0 = "race_init demo_nodes ((Some \<circ> id)(5 := None)) 2 (\<lambda>i. [Add_Appender 2 5, Log 2 ''c''])"
  obtain s where s: "race_reach 2 demo_sinks ?s0 s" "lr_nodes s = demo_nodes(2 := [(2, 5)])"
      "lr_format s = ((Some \<circ> id)(5 := None))(5 := Some 3)" "lr_pc s 0 = Leaving [2]"
    using lone_add [OF race_reach.race_start [of 2 demo_sinks ?s0], of 0 2 5] by (auto simp: race_init_def demo_nodes_def demo_sinks_def)
  have "\<forall>l. \<forall>nd \<in> set (demo_nodes l). ((Some \<circ> id)(5 := None)) (snd nd) \<noteq> None" by (simp add: demo_nodes_def)
  from concurrent_logging_safe [OF s(1) _ this] have safe: "\<forall>i. lr_pc s i \<noteq> Crashed"
    "(\<forall>i<2. lr_pc s i = Away \<and> lr_todo s i = []) \<or> (\<exists>t. race_step 2 demo_sinks s t)" by simp_all
  from safe(2) s(4) obtain t where "race_step 2 demo_sinks s t" by (metis log_pc.distinct(11) zero_less_numeral)
  with s safe(1) show ?thesis by (intro exI [of _ s] exI [of _ t]) simp
qed

text \<open>
  C12. No record is lost or doubled: where threads only log, each step of any interleaving leaves fewer
  steps to come, and when no more step is possible, every appender has written, whole and in some order,
  exactly the records that the calls make of it: one for each event that its logger lets through, for
  each node of that logger's list, or of the root's when the logger has none, whose appender shows it,
  in the format that the appender has.
\<close>

theorem no_record_lost:
  assumes "race_reach n S (race_init N (Some \<circ> F) fresh work) s" and "\<forall>i. only_log (work i)" and "\<forall>l. distinct (map fst (N l))"
  shows "(\<forall>t. race_step n S s t \<longrightarrow> steps_left n S F N t < steps_left n S F N s) \<and>
    ((\<nexists>t. race_step n S s t) \<longrightarrow> (\<exists>es. texts_of a (lr_out s) = concat (map (pieces S (F a)) es) \<and>
      mset es = (\<Sum>i<n. \<Sum>c\<leftarrow>work i. call_due S N a c)))"
proof -
  have keep: "keeps_nodes (work i)" for i using assms(2) only_log_keeps by blast
  have ok: "locks_ok n s" "nodes_ok s" using race_reach_ok [OF assms(1) keep formatted_all] by blast+
  note due = race_reach_due [where a = a, OF assms(1) assms(2) [rule_format] assms(3) [rule_format]]
  have "steps_left n S F N t < steps_left n S F N s" if "race_step n S s t" for t
    using steps_step [where N = N, OF that _ ok(2) assms(3) [rule_format]] due by blast
  moreover have "\<exists>es. texts_of a (lr_out s) = concat (map (pieces S (F a)) es) \<and> mset es = (\<Sum>i<n. \<Sum>c\<leftarrow>work i. call_due S N a c)"
    if "\<nexists>t. race_step n S s t"
  proof -
    from race_progress [OF ok] that have fin: "done_all n s" by blast
    have "lr_pc s i = Away" for i using ok(1) fin by (cases "i < n") (auto simp: locks_ok_def done_all_def)
    then have "texts_of a (lr_out s) = lines_of S (lr_records s a)"
      using lines_at_rest [OF lines_reach [OF assms(1) keep formatted_all]] by simp
    moreover have "map (\<lambda>(f, e). pieces S f e) (lr_records s a) = map (pieces S (F a)) (map snd (lr_records s a))"
      using due by (force simp: static_def)
    ultimately have "texts_of a (lr_out s) = concat (map (pieces S (F a)) (map snd (lr_records s a)))" by (simp add: lines_of_def)
    moreover have "mset (map snd (lr_records s a)) = (\<Sum>i<n. \<Sum>c\<leftarrow>work i. call_due S N a c)"
      using due nothing_due [OF fin] by simp
    ultimately show ?thesis by blast
  qed
  ultimately show ?thesis by blast
qed

theorem no_record_lost_witness:
  "\<exists>s es. race_reach 2 demo_sinks (race_init demo_nodes (Some \<circ> id) 2 demo_work) s \<and>
     texts_of 0 (lr_out s) = concat (map (\<lambda>e. [''['', e, '']'']) es) \<and> mset es = {#''b'', ''c''#}"
proof -
  obtain s where s: "race_reach 2 demo_sinks (race_init demo_nodes (Some \<circ> id) 2 demo_work) s" "done_all 2 s"
    using demo_completes by blast
  have "keeps_nodes (demo_work i)" for i by (rule only_log_keeps [OF demo_only_log])
  then have "locks_ok 2 s" using race_reach_ok [OF s(1)] formatted_all by blast
  then have "\<nexists>t. race_step 2 demo_sinks s t" using s(2) by (rule done_stuck)
  with no_record_lost [OF s(1), of 0] demo_only_log demo_distinct obtain es where
    "texts_of 0 (lr_out s) = concat (map (pieces demo_sinks (id 0)) es)"
    "mset es = (\<Sum>i<2. \<Sum>c\<leftarrow>demo_work i. call_due demo_sinks demo_nodes 0 c)" by blast
  moreover have "(\<Sum>i<2. \<Sum>c\<leftarrow>demo_work i. call_due demo_sinks demo_nodes 0 c) = {#''b'', ''c''#}"
    by (simp add: numeral_2_eq_2 demo_work_def demo_sinks_def demo_nodes_def loop_list_def)
  ultimately show ?thesis using s(1) by (auto simp: demo_sinks_def)
qed

text \<open>
  C19. delAppender races with the loop of log: it takes no lock, so whenever a logger's first appender
  gets a record that the logger lets through, a second thread that deletes that appender at the right
  moment leaves the first with an iterator to a freed node, with the logger's lock held.
\<close>

theorem delAppender_races:
  assumes "N l = (k, a) # nds" and "k \<notin> fst ` set nds" and "logs S l e"
    and "work 0 = [Log l e]" and "work 1 = [Del_Appender l a]"
  shows "\<exists>s. race_reach 2 S (race_init N format fresh work) s \<and> lr_pc s 0 = Crashed \<and> lr_logger s l"
  using assms by (rule freed_in_loop)

theorem delAppender_races_witness:
  "\<exists>s. race_reach 2 demo_sinks (race_init demo_nodes (Some \<circ> id) 2 (\<lambda>i. if i = 0 then [Log 1 ''a''] else [Del_Appender 1 1])) s \<and>
     lr_pc s 0 = Crashed"
proof -
  have "demo_nodes 1 = (1, 1) # []" "logs demo_sinks 1 ''a''" by (simp_all add: demo_nodes_def demo_sinks_def)
  from delAppender_races [where work = "\<lambda>i. if i = 0 then [Log 1 ''a''] else [Del_Appender 1 1]" and fresh = 2
      and N = demo_nodes and format = "Some \<circ> id", OF this(1) _ this(2)] show ?thesis by auto
qed

end
