(* ===== verification/File_Race.thy ===== *)
theory File_Race
  imports Appender "HOL-Library.Multiset"
begin

text \<open>
  FileLogAppender under contention (log.cpp): threads that log to one file appender through different
  loggers, so that only the appender's own lock is between them. reopen and the writing of a record each
  take the lock; m_lastTime is read and written without it. Meanwhile the clock advances and other
  processes move and remove files.
\<close>

section \<open>The machine\<close>

text \<open>
  The pieces of an event are what the items of the formatter put into the stream. A call carries the
  event and the second in which it began.
\<close>

datatype 'e file_pc =
    Between                                   \<comment> \<open>between two calls\<close>
  | Timed 'e "64 word"                        \<comment> \<open>after time(0), before the test of m_lastTime\<close>
  | Reopening 'e "64 word"                    \<comment> \<open>in reopen, before its lock\<close>
  | Closing 'e "64 word"                      \<comment> \<open>with the lock, before close\<close>
  | Opening 'e "64 word"                      \<comment> \<open>with the lock, before open\<close>
  | Opened 'e "64 word"                       \<comment> \<open>with the lock, at the end of reopen\<close>
  | Storing 'e "64 word"                      \<comment> \<open>before the assignment of m_lastTime\<close>
  | Locking 'e "64 word"                      \<comment> \<open>before the lock of log\<close>
  | Writing 'e "64 word" "string list"        \<comment> \<open>with the lock and the pieces to come\<close>

record 'e file_race =
  fr_stream :: ofstream
  fr_disk :: disk
  fr_stdout :: string
  fr_now :: "64 word"
  fr_lastTime :: "64 word"
  fr_mutex :: bool
  fr_opened :: "64 word"                      \<comment> \<open>history: the second of the last open\<close>
  fr_changed :: "64 word"                     \<comment> \<open>history: the second in which a name last changed\<close>
  fr_records :: "(nat \<times> 'e) list"            \<comment> \<open>history: the records written, with their files\<close>
  fr_pc :: "nat \<Rightarrow> 'e file_pc"
  fr_todo :: "nat \<Rightarrow> 'e list"

text \<open>The constructor has opened the file, in second \<open>t\<close>.\<close>

definition file_race_init :: "string \<Rightarrow> disk \<Rightarrow> 64 word \<Rightarrow> (nat \<Rightarrow> 'e list) \<Rightarrow> 'e file_race" where
  "file_race_init name d t work = (case reopen_stream name of_new d of (st, d1) \<Rightarrow>
     \<lparr>fr_stream = st, fr_disk = d1, fr_stdout = [], fr_now = t, fr_lastTime = 0, fr_mutex = Spinlock_init,
      fr_opened = t, fr_changed = t, fr_records = [], fr_pc = (\<lambda>_. Between), fr_todo = work\<rparr>)"

definition go :: "nat \<Rightarrow> 'e file_pc \<Rightarrow> 'e file_race \<Rightarrow> 'e file_race" where
  "go i p s = s\<lparr>fr_pc := (fr_pc s)(i := p)\<rparr>"

definition begun :: "nat \<Rightarrow> 'e list \<Rightarrow> 'e file_race \<Rightarrow> 'e file_race" where
  "begun i es s = s\<lparr>fr_todo := (fr_todo s)(i := es)\<rparr>"

definition say :: "bool \<Rightarrow> string \<Rightarrow> 'e file_race \<Rightarrow> 'e file_race" where
  "say b x s = s\<lparr>fr_stdout := fr_stdout s @ (if b then x @ nl else [])\<rparr>"

definition noted :: "'e \<Rightarrow> 'e file_race \<Rightarrow> 'e file_race" where
  "noted e s = s\<lparr>fr_records := fr_records s @ (case os_open (fr_stream s) of
     Some ino \<Rightarrow> if os_fail (fr_stream s) then [] else [(ino, e)] | None \<Rightarrow> [])\<rparr>"

inductive file_step :: "nat \<Rightarrow> ('e \<Rightarrow> bool) \<Rightarrow> ('e \<Rightarrow> string list) \<Rightarrow> string \<Rightarrow> 'e file_race \<Rightarrow> 'e file_race \<Rightarrow> bool"
  for n level_ok pieces_of name where
  call_below: "i < n \<Longrightarrow> fr_pc s i = Between \<Longrightarrow> fr_todo s i = e # es \<Longrightarrow> \<not> level_ok e \<Longrightarrow>
    file_step n level_ok pieces_of name s (begun i es s)"
| call_timed: "i < n \<Longrightarrow> fr_pc s i = Between \<Longrightarrow> fr_todo s i = e # es \<Longrightarrow> level_ok e \<Longrightarrow>
    file_step n level_ok pieces_of name s (go i (Timed e (fr_now s)) (begun i es s))"
| same_second: "i < n \<Longrightarrow> fr_pc s i = Timed e t \<Longrightarrow> t = fr_lastTime s \<Longrightarrow>
    file_step n level_ok pieces_of name s (go i (Locking e t) s)"
| new_second: "i < n \<Longrightarrow> fr_pc s i = Timed e t \<Longrightarrow> t \<noteq> fr_lastTime s \<Longrightarrow>
    file_step n level_ok pieces_of name s (go i (Reopening e t) s)"
| reopen_lock: "i < n \<Longrightarrow> fr_pc s i = Reopening e t \<Longrightarrow> Spinlock_lock (fr_mutex s) = Some b \<Longrightarrow>
    file_step n level_ok pieces_of name s (go i (Closing e t) (s\<lparr>fr_mutex := b\<rparr>))"
| reopen_close: "i < n \<Longrightarrow> fr_pc s i = Closing e t \<Longrightarrow>
    file_step n level_ok pieces_of name s (go i (Opening e t)
      (s\<lparr>fr_stream := if os_fail (fr_stream s) then fr_stream s else of_close (fr_stream s)\<rparr>))"
| reopen_open: "i < n \<Longrightarrow> fr_pc s i = Opening e t \<Longrightarrow> of_open_app name (fr_stream s) (fr_disk s) = (st, d) \<Longrightarrow>
    file_step n level_ok pieces_of name s (go i (Opened e t)
      (say (os_fail st) ''!!!! open error !!!!'' (s\<lparr>fr_stream := st, fr_disk := d, fr_opened := fr_now s\<rparr>)))"
| reopen_unlock: "i < n \<Longrightarrow> fr_pc s i = Opened e t \<Longrightarrow>
    file_step n level_ok pieces_of name s (go i (Storing e t) (s\<lparr>fr_mutex := Spinlock_unlock (fr_mutex s)\<rparr>))"
| store_time: "i < n \<Longrightarrow> fr_pc s i = Storing e t \<Longrightarrow>
    file_step n level_ok pieces_of name s (go i (Locking e t) (s\<lparr>fr_lastTime := t\<rparr>))"
| write_lock: "i < n \<Longrightarrow> fr_pc s i = Locking e t \<Longrightarrow> Spinlock_lock (fr_mutex s) = Some b \<Longrightarrow>
    file_step n level_ok pieces_of name s (go i (Writing e t (pieces_of e)) (s\<lparr>fr_mutex := b\<rparr>))"
| write_piece: "i < n \<Longrightarrow> fr_pc s i = Writing e t (p # ps) \<Longrightarrow> of_write p (fr_stream s) (fr_disk s) = (st, d) \<Longrightarrow>
    file_step n level_ok pieces_of name s (go i (Writing e t ps) (s\<lparr>fr_stream := st, fr_disk := d\<rparr>))"
| write_unlock: "i < n \<Longrightarrow> fr_pc s i = Writing e t [] \<Longrightarrow>
    file_step n level_ok pieces_of name s (go i Between
      (say (os_fail (fr_stream s)) ''error'' (noted e (s\<lparr>fr_mutex := Spinlock_unlock (fr_mutex s)\<rparr>))))"
| tick: "fr_now s < t \<Longrightarrow> file_step n level_ok pieces_of name s (s\<lparr>fr_now := t\<rparr>)"
| move_file: "file_step n level_ok pieces_of name s
    (s\<lparr>fr_disk := (fr_disk s)\<lparr>d_names := (d_names (fr_disk s))(f := d_names (fr_disk s) g)\<rparr>, fr_changed := fr_now s\<rparr>)"

inductive file_reach :: "nat \<Rightarrow> ('e \<Rightarrow> bool) \<Rightarrow> ('e \<Rightarrow> string list) \<Rightarrow> string \<Rightarrow> 'e file_race \<Rightarrow> 'e file_race \<Rightarrow> bool"
  for n level_ok pieces_of name s0 where
  file_start: "file_reach n level_ok pieces_of name s0 s0"
| file_next: "file_reach n level_ok pieces_of name s0 s \<Longrightarrow> file_step n level_ok pieces_of name s t \<Longrightarrow>
    file_reach n level_ok pieces_of name s0 t"

lemma go_simps [simp]:
  "fr_pc (go i p s) = (fr_pc s)(i := p)" "fr_stream (go i p s) = fr_stream s" "fr_disk (go i p s) = fr_disk s"
  "fr_stdout (go i p s) = fr_stdout s" "fr_now (go i p s) = fr_now s" "fr_lastTime (go i p s) = fr_lastTime s"
  "fr_mutex (go i p s) = fr_mutex s" "fr_opened (go i p s) = fr_opened s" "fr_changed (go i p s) = fr_changed s"
  "fr_records (go i p s) = fr_records s" "fr_todo (go i p s) = fr_todo s"
  by (simp_all add: go_def)

lemma begun_simps [simp]:
  "fr_todo (begun i es s) = (fr_todo s)(i := es)" "fr_pc (begun i es s) = fr_pc s" "fr_stream (begun i es s) = fr_stream s"
  "fr_disk (begun i es s) = fr_disk s" "fr_stdout (begun i es s) = fr_stdout s" "fr_now (begun i es s) = fr_now s"
  "fr_lastTime (begun i es s) = fr_lastTime s" "fr_mutex (begun i es s) = fr_mutex s" "fr_opened (begun i es s) = fr_opened s"
  "fr_changed (begun i es s) = fr_changed s" "fr_records (begun i es s) = fr_records s"
  by (simp_all add: begun_def)

lemma say_simps [simp]:
  "fr_pc (say b x s) = fr_pc s" "fr_stream (say b x s) = fr_stream s" "fr_disk (say b x s) = fr_disk s"
  "fr_now (say b x s) = fr_now s" "fr_lastTime (say b x s) = fr_lastTime s" "fr_mutex (say b x s) = fr_mutex s"
  "fr_opened (say b x s) = fr_opened s" "fr_changed (say b x s) = fr_changed s" "fr_records (say b x s) = fr_records s"
  "fr_todo (say b x s) = fr_todo s" "fr_stdout (say False x s) = fr_stdout s"
  by (simp_all add: say_def)

lemma noted_simps [simp]:
  "fr_pc (noted e s) = fr_pc s" "fr_stream (noted e s) = fr_stream s" "fr_disk (noted e s) = fr_disk s"
  "fr_now (noted e s) = fr_now s" "fr_lastTime (noted e s) = fr_lastTime s" "fr_mutex (noted e s) = fr_mutex s"
  "fr_opened (noted e s) = fr_opened s" "fr_changed (noted e s) = fr_changed s" "fr_stdout (noted e s) = fr_stdout s"
  "fr_todo (noted e s) = fr_todo s"
  "\<not> os_fail (fr_stream s) \<Longrightarrow> os_open (fr_stream s) = Some ino \<Longrightarrow> fr_records (noted e s) = fr_records s @ [(ino, e)]"
  by (simp_all add: noted_def)

section \<open>The lock\<close>

fun has_lock :: "'e file_pc \<Rightarrow> nat set" where
  "has_lock (Closing e t) = {0}" | "has_lock (Opening e t) = {0}" | "has_lock (Opened e t) = {0}"
| "has_lock (Writing e t ps) = {0}" | "has_lock _ = {}"

lemma has_lock_cases: "has_lock p = {} \<or> has_lock p = {0}"
  by (cases p) simp_all

text \<open>The appender's lock as one of a family, so that the facts about waiting locks apply.\<close>

definition one_lock :: "bool \<Rightarrow> nat \<Rightarrow> bool" where
  "one_lock m x \<longleftrightarrow> x = 0 \<and> m"

definition mutex_ok :: "'e file_race \<Rightarrow> bool" where
  "mutex_ok s \<longleftrightarrow> owns (one_lock (fr_mutex s)) has_lock (fr_pc s)"

lemma one_lock_upd: "(one_lock m)(0 := b) = one_lock b"
  by (auto simp: one_lock_def fun_eq_iff)

lemma mutex_taken:
  assumes "mutex_ok s" and "Spinlock_lock (fr_mutex s) = Some b" and "has_lock (fr_pc s i) = {}" and "has_lock p = {0}"
    and "fr_mutex t = b" and "fr_pc t = (fr_pc s)(i := p)"
  shows "mutex_ok t"
  using spin_wait.owns_take [of "one_lock (fr_mutex s)" has_lock "fr_pc s" 0 b p i] assms
  by (simp add: mutex_ok_def one_lock_upd) (simp add: one_lock_def)

lemma mutex_freed:
  assumes "mutex_ok s" and "has_lock (fr_pc s i) = {0}" and "has_lock p = {}"
    and "fr_mutex t = Spinlock_unlock (fr_mutex s)" and "fr_pc t = (fr_pc s)(i := p)"
  shows "mutex_ok t"
  using spin_wait.owns_drop [of "one_lock (fr_mutex s)" has_lock "fr_pc s" 0 i p] assms
  by (simp add: mutex_ok_def one_lock_upd) (simp add: one_lock_def)

lemma mutex_kept:
  assumes "mutex_ok s" and "fr_mutex t = fr_mutex s" and "fr_pc t = (fr_pc s)(i := p)" and "has_lock p = has_lock (fr_pc s i)"
  shows "mutex_ok t"
  using owns_same [of "one_lock (fr_mutex s)" has_lock "fr_pc s" p i] assms by (simp add: mutex_ok_def)

lemma mutex_step:
  assumes "file_step n level_ok pieces_of name s t" and ok: "mutex_ok s"
  shows "mutex_ok t"
  using assms(1)
proof (cases rule: file_step.cases)
  case (reopen_lock i e u b)
  then show ?thesis by (intro mutex_taken [OF ok, of b i "Closing e u"]) simp_all
next
  case (write_lock i e u b)
  then show ?thesis by (intro mutex_taken [OF ok, of b i "Writing e u (pieces_of e)"]) simp_all
next
  case (reopen_unlock i e u)
  then show ?thesis by (intro mutex_freed [OF ok, of i "Storing e u"]) simp_all
next
  case (write_unlock i e u)
  then show ?thesis by (intro mutex_freed [OF ok, of i Between]) simp_all
qed (use ok in \<open>auto simp: mutex_ok_def intro: owns_same\<close>)

lemma lock_unique: "mutex_ok s \<Longrightarrow> has_lock (fr_pc s i) = {0} \<Longrightarrow> has_lock (fr_pc s j) = {0} \<Longrightarrow> j = i"
  unfolding mutex_ok_def owns_def by blast

lemma lock_free: "mutex_ok s \<Longrightarrow> \<not> fr_mutex s \<Longrightarrow> has_lock (fr_pc s i) = {}"
  unfolding mutex_ok_def owns_def one_lock_def by blast

section \<open>The stream\<close>

text \<open>
  While the disk can open the name and is not full, the stream is never in error, nothing is printed, and
  no file is open only between the close and the open of a reopen.
\<close>

fun at_open :: "'e file_pc \<Rightarrow> bool" where
  "at_open (Opening e t) = True" | "at_open _ = False"

definition disk_works :: "string \<Rightarrow> disk \<Rightarrow> bool" where
  "disk_works name d \<longleftrightarrow> d_can_open d name \<and> \<not> d_full d \<and> (\<forall>f ino. d_names d f = Some ino \<longrightarrow> ino < d_next d)"

definition stream_ok :: "string \<Rightarrow> 'e file_race \<Rightarrow> bool" where
  "stream_ok name s \<longleftrightarrow> disk_works name (fr_disk s) \<and> \<not> os_fail (fr_stream s) \<and> fr_stdout s = [] \<and>
     (os_open (fr_stream s) = None \<longleftrightarrow> (\<exists>i. at_open (fr_pc s i))) \<and>
     (\<forall>ino. os_open (fr_stream s) = Some ino \<longrightarrow> ino < d_next (fr_disk s))"

lemma at_open_locked: "at_open p \<Longrightarrow> has_lock p = {0}"
  by (cases p) auto

lemma open_file:
  assumes "stream_ok name s" and "mutex_ok s" and "has_lock (fr_pc s i) = {0}" and "\<not> at_open (fr_pc s i)"
  obtains ino where "os_open (fr_stream s) = Some ino" "ino < d_next (fr_disk s)" "\<And>j. \<not> at_open (fr_pc s j)"
proof -
  have "\<not> at_open (fr_pc s j)" for j
    using lock_unique [OF assms(2,3)] at_open_locked assms(4) by metis
  with assms(1) that show thesis by (cases "os_open (fr_stream s)") (auto simp: stream_ok_def)
qed

lemma no_file:
  assumes "stream_ok name s" and "mutex_ok s" and "fr_pc s i = Opening e t"
  shows "os_open (fr_stream s) = None" "at_open (fr_pc s j) \<Longrightarrow> j = i"
proof -
  show "os_open (fr_stream s) = None" using assms(1,3) unfolding stream_ok_def by (metis at_open.simps(1))
  show "at_open (fr_pc s j) \<Longrightarrow> j = i" using lock_unique [OF assms(2)] at_open_locked assms(3) by (metis has_lock.simps(2))
qed

lemma disk_open_works:
  assumes "disk_works name d" and "disk_open f d = (ino, d')"
  shows "disk_works name d'" "ino < d_next d'" "d_names d' f = Some ino" "d_next d \<le> d_next d'"
    "\<And>k. k < d_next d \<Longrightarrow> d_data d' k = d_data d k" "\<And>k. d_next d \<le> k \<Longrightarrow> k < d_next d' \<Longrightarrow> d_data d' k = []"
  using assms by (auto simp: disk_works_def disk_open_def less_Suc_eq split: option.splits if_splits)

lemma stream_elsewhere:
  assumes "stream_ok name s" and "fr_disk t = fr_disk s" "fr_stream t = fr_stream s" "fr_stdout t = fr_stdout s"
    and "fr_pc t = (fr_pc s)(i := p)" and "at_open p = at_open (fr_pc s i)"
  shows "stream_ok name t"
proof -
  have "at_open (fr_pc t j) = at_open (fr_pc s j)" for j using assms(5,6) by simp
  with assms(1-4) show ?thesis by (simp add: stream_ok_def)
qed

lemma stream_step:
  assumes "file_step n level_ok pieces_of name s t" and ok: "mutex_ok s" and st: "stream_ok name s"
  shows "stream_ok name t"
  using assms(1)
proof (cases rule: file_step.cases)
  case (reopen_close i e u)
  then obtain ino where ino: "os_open (fr_stream s) = Some ino" using open_file [OF st ok, of i] by auto
  with reopen_close st show ?thesis by (auto simp: stream_ok_def of_close_def intro!: exI [of _ i])
next
  case (reopen_open i e u st' d)
  note none = no_file [OF st ok reopen_open(3)]
  obtain ino d' where o: "disk_open name (fr_disk s) = (ino, d')" by fastforce
  have dw: "disk_works name (fr_disk s)" using st by (simp add: stream_ok_def)
  with reopen_open(4) none(1) o have eq: "st' = \<lparr>os_open = Some ino, os_fail = False\<rparr>" "d = d'"
    by (auto simp: of_open_app_def disk_works_def)
  show ?thesis
    using reopen_open(1) eq st none(2) disk_open_works [OF dw o] by (auto simp: stream_ok_def)
next
  case (write_piece i e u p ps st' d)
  then obtain ino where ino: "os_open (fr_stream s) = Some ino" "\<And>j. \<not> at_open (fr_pc s j)"
    using open_file [OF st ok, of i] by auto
  with write_piece st show ?thesis by (auto simp: stream_ok_def disk_works_def of_write_def split: if_splits)
next
  case (move_file f g)
  with st show ?thesis by (auto simp: stream_ok_def disk_works_def split: if_splits)
next
  case (write_unlock i e u)
  moreover have "\<not> os_fail (fr_stream s)" using st by (simp add: stream_ok_def)
  ultimately show ?thesis by (intro stream_elsewhere [OF st, of _ i Between]) simp_all
next
  case (call_timed i e es)
  then show ?thesis by (intro stream_elsewhere [OF st, of _ i "Timed e (fr_now s)"]) simp_all
next
  case (same_second i e u)
  then show ?thesis by (intro stream_elsewhere [OF st, of _ i "Locking e u"]) simp_all
next
  case (new_second i e u)
  then show ?thesis by (intro stream_elsewhere [OF st, of _ i "Reopening e u"]) simp_all
next
  case (reopen_lock i e u b)
  then show ?thesis by (intro stream_elsewhere [OF st, of _ i "Closing e u"]) simp_all
next
  case (reopen_unlock i e u)
  then show ?thesis by (intro stream_elsewhere [OF st, of _ i "Storing e u"]) simp_all
next
  case (store_time i e u)
  then show ?thesis by (intro stream_elsewhere [OF st, of _ i "Locking e u"]) simp_all
next
  case (write_lock i e u b)
  then show ?thesis by (intro stream_elsewhere [OF st, of _ i "Writing e u (pieces_of e)"]) simp_all
qed (use st in \<open>simp_all add: stream_ok_def\<close>)

section \<open>The second of the open file\<close>

text \<open>
  A call that goes on to write was begun no later than the file in use was opened; the name still leads
  to that file when it has not changed since.
\<close>

fun begun_at :: "'e file_pc \<Rightarrow> 64 word option" where
  "begun_at Between = None" | "begun_at (Timed e t) = Some t" | "begun_at (Reopening e t) = Some t"
| "begun_at (Closing e t) = Some t" | "begun_at (Opening e t) = Some t" | "begun_at (Opened e t) = Some t"
| "begun_at (Storing e t) = Some t" | "begun_at (Locking e t) = Some t" | "begun_at (Writing e t ps) = Some t"

fun fresh_for :: "'e file_pc \<Rightarrow> 64 word option" where
  "fresh_for (Opened e t) = Some t" | "fresh_for (Storing e t) = Some t" | "fresh_for (Locking e t) = Some t"
| "fresh_for (Writing e t ps) = Some t" | "fresh_for _ = None"

definition times_ok :: "string \<Rightarrow> 'e file_race \<Rightarrow> bool" where
  "times_ok name s \<longleftrightarrow> fr_lastTime s \<le> fr_opened s \<and> fr_opened s \<le> fr_now s \<and> fr_changed s \<le> fr_now s \<and>
     (\<forall>i t. begun_at (fr_pc s i) = Some t \<longrightarrow> t \<le> fr_now s) \<and> (\<forall>i t. fresh_for (fr_pc s i) = Some t \<longrightarrow> t \<le> fr_opened s) \<and>
     (fr_changed s < fr_opened s \<longrightarrow> os_open (fr_stream s) = None \<or> d_names (fr_disk s) name = os_open (fr_stream s))"

lemma times_step:
  assumes "file_step n level_ok pieces_of name s t" and ok: "mutex_ok s" and st: "stream_ok name s" and times: "times_ok name s"
  shows "times_ok name t"
proof -
  have at: "begun_at (fr_pc s i) = Some u \<Longrightarrow> u \<le> fr_now s" "fresh_for (fr_pc s i) = Some u \<Longrightarrow> u \<le> fr_opened s" for i u
    using times by (simp_all add: times_ok_def)
  show ?thesis
    using assms(1)
  proof (cases rule: file_step.cases)
    case (reopen_open i e u st' d)
    note none = no_file [OF st ok reopen_open(3)]
    obtain ino d' where o: "disk_open name (fr_disk s) = (ino, d')" by fastforce
    have dw: "disk_works name (fr_disk s)" using st by (simp add: stream_ok_def)
    with reopen_open(4) none(1) o have eq: "st' = \<lparr>os_open = Some ino, os_fail = False\<rparr>" "d = d'"
      by (auto simp: of_open_app_def disk_works_def)
    have "u \<le> fr_now s" using at(1) [of i u] reopen_open(3) by simp
    moreover have "v \<le> fr_now s" if "fresh_for (fr_pc s j) = Some v" for j v
      using at(2) [OF that] times by (auto simp: times_ok_def)
    ultimately show ?thesis
      using reopen_open(1) eq times disk_open_works(3) [OF dw o] by (auto simp: times_ok_def)
  next
    case (tick u)
    have "v \<le> u" if "v \<le> fr_now s" for v using that tick(2) by simp
    with tick times show ?thesis by (auto simp: times_ok_def)
  next
    case (move_file f g)
    with times show ?thesis by (auto simp: times_ok_def)
  next
    case (reopen_close i e u)
    with at [of i u] times show ?thesis by (auto simp: times_ok_def of_close_def split: option.split)
  next
    case (write_piece i e u p ps st' d)
    then have "d_names d = d_names (fr_disk s)" "os_open st' = os_open (fr_stream s)"
      by (auto simp: of_write_def split: option.splits if_splits)
    with write_piece at(1,2) [of i u] times show ?thesis by (auto simp: times_ok_def)
  next
    case (same_second i e u)
    then have "u \<le> fr_opened s" using times by (simp add: times_ok_def)
    with same_second at(1) [of i u] times show ?thesis by (auto simp: times_ok_def)
  next
    case (store_time i e u)
    with at [of i u] times show ?thesis by (auto simp: times_ok_def)
  next
    case (call_timed i e es)
    with times show ?thesis by (auto simp: times_ok_def)
  next
    case (new_second i e u)
    with at [of i u] times show ?thesis by (auto simp: times_ok_def)
  next
    case (reopen_lock i e u b)
    with at [of i u] times show ?thesis by (auto simp: times_ok_def)
  next
    case (reopen_unlock i e u)
    with at [of i u] times show ?thesis by (auto simp: times_ok_def)
  next
    case (write_lock i e u b)
    with at [of i u] times show ?thesis by (auto simp: times_ok_def)
  next
    case (write_unlock i e u)
    with times show ?thesis by (auto simp: times_ok_def)
  next
    case (call_below i e es)
    with times show ?thesis by (simp add: times_ok_def)
  qed
qed

section \<open>Whole records\<close>

text \<open>What is in a file: what was there, then the records written to it, and of a record being written a part.\<close>

definition text_before :: "disk \<Rightarrow> nat \<Rightarrow> string" where
  "text_before d ino = (if ino < d_next d then d_data d ino else [])"

definition written :: "('e \<Rightarrow> string list) \<Rightarrow> (nat \<times> 'e) list \<Rightarrow> nat \<Rightarrow> string" where
  "written pieces_of rs ino = concat (map (\<lambda>r. concat (pieces_of (snd r))) (filter (\<lambda>r. fst r = ino) rs))"

definition whole :: "disk \<Rightarrow> ('e \<Rightarrow> string list) \<Rightarrow> 'e file_race \<Rightarrow> nat \<Rightarrow> string" where
  "whole d pieces_of s ino = text_before d ino @ written pieces_of (fr_records s) ino"

fun is_writing :: "'e file_pc \<Rightarrow> bool" where
  "is_writing (Writing e t ps) = True" | "is_writing _ = False"

definition files_ok :: "disk \<Rightarrow> ('e \<Rightarrow> string list) \<Rightarrow> 'e file_race \<Rightarrow> bool" where
  "files_ok d pieces_of s \<longleftrightarrow> d_next d \<le> d_next (fr_disk s) \<and> (\<forall>r \<in> set (fr_records s). fst r < d_next (fr_disk s)) \<and>
     (\<forall>ino < d_next (fr_disk s). os_open (fr_stream s) \<noteq> Some ino \<or> (\<forall>i. \<not> is_writing (fr_pc s i)) \<longrightarrow>
        d_data (fr_disk s) ino = whole d pieces_of s ino) \<and>
     (\<forall>i e t ps ino. fr_pc s i = Writing e t ps \<longrightarrow> os_open (fr_stream s) = Some ino \<longrightarrow>
        (\<exists>qs. pieces_of e = qs @ ps \<and> d_data (fr_disk s) ino = whole d pieces_of s ino @ concat qs))"

lemma is_writing_iff: "is_writing p \<longleftrightarrow> (\<exists>e t ps. p = Writing e t ps)"
  by (cases p) auto

lemma written_snoc [simp]: "written pieces_of (rs @ [(k, e)]) ino = written pieces_of rs ino @ (if k = ino then concat (pieces_of e) else [])"
  by (simp add: written_def)

lemma nobody_writes:
  assumes "mutex_ok s" and "has_lock (fr_pc s i) = {0}" and "\<not> is_writing (fr_pc s i)"
  shows "\<not> is_writing (fr_pc s j)"
proof
  assume w: "is_writing (fr_pc s j)"
  then have "has_lock (fr_pc s j) = {0}" by (auto simp: is_writing_iff)
  with lock_unique [OF assms(1,2)] w assms(3) show False by blast
qed

lemma files_elsewhere:
  assumes "files_ok d pieces_of s" and "d_next (fr_disk t) = d_next (fr_disk s)" "d_data (fr_disk t) = d_data (fr_disk s)"
    "fr_stream t = fr_stream s" "fr_records t = fr_records s" "fr_pc t = (fr_pc s)(i := p)" "\<not> is_writing p" "\<not> is_writing (fr_pc s i)"
  shows "files_ok d pieces_of t"
proof -
  have "is_writing (fr_pc t j) \<longleftrightarrow> is_writing (fr_pc s j)" for j using assms(6-8) by simp
  moreover have "fr_pc t j = Writing e u ps \<Longrightarrow> fr_pc s j = Writing e u ps" for j e u ps
    using assms(6-8) by (auto split: if_splits)
  ultimately show ?thesis using assms(1-5) unfolding files_ok_def whole_def by metis
qed

lemma files_quiet:
  assumes "files_ok d pieces_of s" and "\<And>i. \<not> is_writing (fr_pc s i)" and "\<And>i. \<not> is_writing (fr_pc t i)"
    and "d_next (fr_disk s) \<le> d_next (fr_disk t)" "fr_records t = fr_records s"
    and "\<And>k. k < d_next (fr_disk s) \<Longrightarrow> d_data (fr_disk t) k = d_data (fr_disk s) k"
    and "\<And>k. d_next (fr_disk s) \<le> k \<Longrightarrow> k < d_next (fr_disk t) \<Longrightarrow> d_data (fr_disk t) k = []"
  shows "files_ok d pieces_of t"
proof -
  have nx: "d_next d \<le> d_next (fr_disk s)" and rec: "\<And>r. r \<in> set (fr_records s) \<Longrightarrow> fst r < d_next (fr_disk s)"
    and old: "\<And>k. k < d_next (fr_disk s) \<Longrightarrow> d_data (fr_disk s) k = whole d pieces_of s k"
    using assms(1,2) unfolding files_ok_def by blast+
  have "d_data (fr_disk t) k = whole d pieces_of t k" if "k < d_next (fr_disk t)" for k
  proof (cases "k < d_next (fr_disk s)")
    case True
    with old assms(5,6) show ?thesis by (simp add: whole_def)
  next
    case False
    then have "filter (\<lambda>r. fst r = k) (fr_records s) = []" using rec by (auto simp: filter_empty_conv)
    with False assms(5,7) nx that show ?thesis by (simp add: whole_def written_def text_before_def)
  qed
  moreover have "fst r < d_next (fr_disk t)" if "r \<in> set (fr_records t)" for r
    using rec that assms(4,5) by fastforce
  moreover have "fr_pc t i \<noteq> Writing e u ps" for i e u ps using assms(3) [of i] by auto
  ultimately show ?thesis using nx assms(4) unfolding files_ok_def by auto
qed

lemma files_step:
  assumes "file_step n level_ok pieces_of name s t" and ok: "mutex_ok s" and st: "stream_ok name s" and files: "files_ok d pieces_of s"
  shows "files_ok d pieces_of t"
  using assms(1)
proof (cases rule: file_step.cases)
  case (reopen_close i e u)
  have none: "\<not> is_writing (fr_pc s j)" for j by (rule nobody_writes [OF ok, of i]) (simp_all add: reopen_close(3))
  show ?thesis by (rule files_quiet [OF files none]) (use reopen_close(1) none in simp_all)
next
  case (reopen_open i e u st' d')
  have none: "\<not> is_writing (fr_pc s j)" for j by (rule nobody_writes [OF ok, of i]) (simp_all add: reopen_open(3))
  obtain ino d1 where o: "disk_open name (fr_disk s) = (ino, d1)" by fastforce
  have dw: "disk_works name (fr_disk s)" using st by (simp add: stream_ok_def)
  with reopen_open(4) no_file(1) [OF st ok reopen_open(3)] o have eq: "d' = d1"
    by (auto simp: of_open_app_def disk_works_def)
  show ?thesis
    by (rule files_quiet [OF files none]) (use reopen_open(1) none eq disk_open_works [OF dw o] in simp_all)
next
  case (write_lock i e u b)
  then have free: "\<not> fr_mutex s" by (simp add: Spinlock_lock_def split: if_splits)
  have none: "\<not> is_writing (fr_pc s j)" for j
    using lock_free [OF ok free, of j] by (auto simp: is_writing_iff)
  have old: "d_data (fr_disk s) k = whole d pieces_of s k" if "k < d_next (fr_disk s)" for k
    using files none that unfolding files_ok_def by blast
  have same: "whole d pieces_of t = whole d pieces_of s" using write_lock(1) by (simp add: whole_def fun_eq_iff)
  have pc: "fr_pc t j = Writing e' v ps \<Longrightarrow> j = i \<and> e' = e \<and> ps = pieces_of e" for j e' v ps
    using write_lock(1) none [of j] by (auto split: if_splits)
  have lt: "ino < d_next (fr_disk s)" if "os_open (fr_stream s) = Some ino" for ino
    using st that by (simp add: stream_ok_def)
  show ?thesis
    unfolding files_ok_def same
  proof (intro conjI allI impI ballI)
    fix j e' v ps ino assume w: "fr_pc t j = Writing e' v ps" "os_open (fr_stream t) = Some ino"
    with pc [OF w(1)] old lt [of ino] write_lock(1)
    show "\<exists>qs. pieces_of e' = qs @ ps \<and> d_data (fr_disk t) ino = whole d pieces_of s ino @ concat qs" by simp
  qed (use write_lock(1) files old in \<open>simp_all add: files_ok_def\<close>)
next
  case (write_piece i e u p ps st' d')
  then obtain ino where ino: "os_open (fr_stream s) = Some ino" "ino < d_next (fr_disk s)"
    using open_file [OF st ok, of i] by auto
  have alone: "j = i" if "is_writing (fr_pc s j)" for j
    using lock_unique [OF ok, of i j] that write_piece(3) by (auto simp: is_writing_iff)
  have eq: "st' = fr_stream s" "d_next d' = d_next (fr_disk s)" "d_data d' = (d_data (fr_disk s))(ino := d_data (fr_disk s) ino @ p)"
    using write_piece(4) ino st by (auto simp: of_write_def stream_ok_def disk_works_def split: if_splits)
  from files write_piece(3) ino(1) obtain qs where qs: "pieces_of e = qs @ p # ps"
      "d_data (fr_disk s) ino = whole d pieces_of s ino @ concat qs" unfolding files_ok_def by blast
  have old: "d_data (fr_disk s) k = whole d pieces_of s k" if "k < d_next (fr_disk s)" "k \<noteq> ino" for k
    using files ino(1) that unfolding files_ok_def by (metis option.inject)
  have same: "whole d pieces_of t = whole d pieces_of s" using write_piece(1) by (simp add: whole_def fun_eq_iff)
  have w: "is_writing (fr_pc t i)" using write_piece(1) by simp
  show ?thesis
    unfolding files_ok_def same
  proof (intro conjI allI impI ballI)
    fix k assume k: "k < d_next (fr_disk t)" and "os_open (fr_stream t) \<noteq> Some k \<or> (\<forall>i. \<not> is_writing (fr_pc t i))"
    with w have "os_open (fr_stream t) \<noteq> Some k" by blast
    with k eq ino write_piece(1) have "k < d_next (fr_disk s)" "k \<noteq> ino" by auto
    with old eq write_piece(1) show "d_data (fr_disk t) k = whole d pieces_of s k" by simp
  next
    fix j e' v ps' ino' assume at: "fr_pc t j = Writing e' v ps'" "os_open (fr_stream t) = Some ino'"
    have "j = i"
    proof (rule ccontr)
      assume "j \<noteq> i"
      with at(1) write_piece(1) have "is_writing (fr_pc s j)" by simp
      with alone \<open>j \<noteq> i\<close> show False by blast
    qed
    with at write_piece(1) eq ino have "e' = e" "ps' = ps" "ino' = ino" by auto
    with qs eq write_piece(1)
    show "\<exists>qs. pieces_of e' = qs @ ps' \<and> d_data (fr_disk t) ino' = whole d pieces_of s ino' @ concat qs"
      by (intro exI [of _ "qs @ [p]"]) simp
  qed (use write_piece(1) files eq in \<open>simp_all add: files_ok_def\<close>)
next
  case (write_unlock i e u)
  then obtain ino where ino: "os_open (fr_stream s) = Some ino" "ino < d_next (fr_disk s)"
    using open_file [OF st ok, of i] by auto
  have alone: "j = i" if "is_writing (fr_pc s j)" for j
    using lock_unique [OF ok, of i j] that write_unlock(3) by (auto simp: is_writing_iff)
  have none: "\<not> is_writing (fr_pc t j)" for j using alone [of j] write_unlock(1) by auto
  from files write_unlock(3) ino(1) have here: "d_data (fr_disk s) ino = whole d pieces_of s ino @ concat (pieces_of e)"
    unfolding files_ok_def by fastforce
  have old: "d_data (fr_disk s) k = whole d pieces_of s k" if "k < d_next (fr_disk s)" "k \<noteq> ino" for k
    using files ino(1) that unfolding files_ok_def by (metis option.inject)
  have recs: "fr_records t = fr_records s @ [(ino, e)]" using write_unlock(1) ino(1) st by (simp add: stream_ok_def)
  have "whole d pieces_of t k = d_data (fr_disk s) k" if "k < d_next (fr_disk s)" for k
    using here old [OF that] recs by (cases "k = ino") (simp_all add: whole_def)
  moreover have "fr_pc t j \<noteq> Writing e' v ps" for j e' v ps using none [of j] by auto
  ultimately show ?thesis
    using write_unlock(1) files recs ino(2) by (auto simp: files_ok_def)
next
  case (move_file f g)
  with files show ?thesis by (simp add: files_ok_def whole_def)
next
  case (tick u)
  with files show ?thesis by (simp add: files_ok_def whole_def)
next
  case (call_below i e es)
  with files show ?thesis by (simp add: files_ok_def whole_def)
next
  case (call_timed i e es)
  then show ?thesis by (intro files_elsewhere [OF files, of _ i "Timed e (fr_now s)"]) simp_all
next
  case (same_second i e u)
  then show ?thesis by (intro files_elsewhere [OF files, of _ i "Locking e u"]) simp_all
next
  case (new_second i e u)
  then show ?thesis by (intro files_elsewhere [OF files, of _ i "Reopening e u"]) simp_all
next
  case (reopen_lock i e u b)
  then show ?thesis by (intro files_elsewhere [OF files, of _ i "Closing e u"]) simp_all
next
  case (reopen_unlock i e u)
  then show ?thesis by (intro files_elsewhere [OF files, of _ i "Storing e u"]) simp_all
next
  case (store_time i e u)
  then show ?thesis by (intro files_elsewhere [OF files, of _ i "Locking e u"]) simp_all
qed

section \<open>Every record is written, and the calls end\<close>

fun in_call :: "'e file_pc \<Rightarrow> 'e list" where
  "in_call Between = []" | "in_call (Timed e t) = [e]" | "in_call (Reopening e t) = [e]" | "in_call (Closing e t) = [e]"
| "in_call (Opening e t) = [e]" | "in_call (Opened e t) = [e]" | "in_call (Storing e t) = [e]" | "in_call (Locking e t) = [e]"
| "in_call (Writing e t ps) = [e]"

definition to_write :: "('e \<Rightarrow> bool) \<Rightarrow> 'e file_race \<Rightarrow> nat \<Rightarrow> 'e multiset" where
  "to_write level_ok s i = mset (in_call (fr_pc s i)) + mset (filter level_ok (fr_todo s i))"

text \<open>A bound on the steps a thread has to make: more than the steps of a call with a reopen for each event to come.\<close>

fun call_left :: "('e \<Rightarrow> string list) \<Rightarrow> 'e file_pc \<Rightarrow> nat" where
  "call_left pieces_of Between = 0" | "call_left pieces_of (Timed e t) = 8 + length (pieces_of e)"
| "call_left pieces_of (Reopening e t) = 7 + length (pieces_of e)" | "call_left pieces_of (Closing e t) = 6 + length (pieces_of e)"
| "call_left pieces_of (Opening e t) = 5 + length (pieces_of e)" | "call_left pieces_of (Opened e t) = 4 + length (pieces_of e)"
| "call_left pieces_of (Storing e t) = 3 + length (pieces_of e)" | "call_left pieces_of (Locking e t) = 2 + length (pieces_of e)"
| "call_left pieces_of (Writing e t ps) = 1 + length ps"

definition thread_left :: "('e \<Rightarrow> string list) \<Rightarrow> 'e file_race \<Rightarrow> nat \<Rightarrow> nat" where
  "thread_left pieces_of s i = call_left pieces_of (fr_pc s i) + (\<Sum>e\<leftarrow>fr_todo s i. 9 + length (pieces_of e))"

definition file_left :: "nat \<Rightarrow> ('e \<Rightarrow> string list) \<Rightarrow> 'e file_race \<Rightarrow> nat" where
  "file_left n pieces_of s = (\<Sum>i<n. thread_left pieces_of s i)"

definition file_done :: "nat \<Rightarrow> 'e file_race \<Rightarrow> bool" where
  "file_done n s \<longleftrightarrow> (\<forall>i<n. fr_pc s i = Between \<and> fr_todo s i = [])"

text \<open>A step is one of a thread, which has one step less to make, or one of the environment.\<close>

lemma one_thread_moves:
  assumes "file_step n level_ok pieces_of name s t" and ok: "mutex_ok s" and st: "stream_ok name s"
  shows "(\<exists>i<n. (\<forall>j. j \<noteq> i \<longrightarrow> fr_pc t j = fr_pc s j \<and> fr_todo t j = fr_todo s j) \<and>
      mset (map snd (fr_records t)) + to_write level_ok t i = mset (map snd (fr_records s)) + to_write level_ok s i \<and>
      thread_left pieces_of t i < thread_left pieces_of s i) \<or>
    fr_pc t = fr_pc s \<and> fr_todo t = fr_todo s \<and> fr_records t = fr_records s"
  using assms(1)
proof (cases rule: file_step.cases)
  case (write_unlock i e u)
  then obtain ino where "os_open (fr_stream s) = Some ino" using open_file [OF st ok, of i] by auto
  with write_unlock st show ?thesis
    by (intro disjI1 exI [of _ i]) (simp add: to_write_def thread_left_def stream_ok_def)
qed ((rule disjI1, rule exI, rule conjI, assumption, simp add: to_write_def thread_left_def) | simp)+

lemma records_step:
  assumes "file_step n level_ok pieces_of name s t" and "mutex_ok s" and "stream_ok name s"
  shows "mset (map snd (fr_records t)) + (\<Sum>i<n. to_write level_ok t i) = mset (map snd (fr_records s)) + (\<Sum>i<n. to_write level_ok s i)"
  using one_thread_moves [OF assms]
proof
  assume "\<exists>i<n. (\<forall>j. j \<noteq> i \<longrightarrow> fr_pc t j = fr_pc s j \<and> fr_todo t j = fr_todo s j) \<and>
      mset (map snd (fr_records t)) + to_write level_ok t i = mset (map snd (fr_records s)) + to_write level_ok s i \<and>
      thread_left pieces_of t i < thread_left pieces_of s i"
  then obtain i where "i < n" "\<forall>j. j \<noteq> i \<longrightarrow> to_write level_ok t j = to_write level_ok s j"
    "mset (map snd (fr_records t)) + to_write level_ok t i = mset (map snd (fr_records s)) + to_write level_ok s i"
    by (auto simp: to_write_def)
  from sum_one_changes [OF this] show ?thesis .
qed (simp add: to_write_def)

lemma left_step:
  assumes "file_step n level_ok pieces_of name s t" and "mutex_ok s" and "stream_ok name s"
  shows "file_left n pieces_of t < file_left n pieces_of s \<or> fr_pc t = fr_pc s \<and> fr_todo t = fr_todo s"
  using one_thread_moves [OF assms]
proof
  assume "\<exists>i<n. (\<forall>j. j \<noteq> i \<longrightarrow> fr_pc t j = fr_pc s j \<and> fr_todo t j = fr_todo s j) \<and>
      mset (map snd (fr_records t)) + to_write level_ok t i = mset (map snd (fr_records s)) + to_write level_ok s i \<and>
      thread_left pieces_of t i < thread_left pieces_of s i"
  then obtain i where i: "i < n" "\<forall>j. j \<noteq> i \<longrightarrow> thread_left pieces_of t j = thread_left pieces_of s j"
    "thread_left pieces_of t i < thread_left pieces_of s i"
    by (auto simp: thread_left_def)
  from less_imp_add_positive [OF i(3)] obtain k where k: "0 < k" "thread_left pieces_of t i + k = thread_left pieces_of s i" by blast
  have "k + (\<Sum>j<n. thread_left pieces_of t j) = 0 + (\<Sum>j<n. thread_left pieces_of s j)"
    by (rule sum_one_changes [OF i(1,2)]) (use k(2) in simp)
  with k(1) show ?thesis by (simp add: file_left_def)
qed simp

definition outside_idle :: "nat \<Rightarrow> 'e file_race \<Rightarrow> bool" where
  "outside_idle n s \<longleftrightarrow> (\<forall>i. n \<le> i \<longrightarrow> fr_pc s i = Between)"

lemma outside_step: "file_step n level_ok pieces_of name s t \<Longrightarrow> outside_idle n s \<Longrightarrow> outside_idle n t"
  by (induction rule: file_step.induct) (auto simp: outside_idle_def)

lemma moves_by: "file_step n level_ok pieces_of name s t \<Longrightarrow> fr_pc t i \<noteq> fr_pc s i \<Longrightarrow>
    \<exists>t. file_step n level_ok pieces_of name s t \<and> fr_pc t i \<noteq> fr_pc s i"
  by blast

lemma locker_moves:
  assumes "i < n" and "has_lock (fr_pc s i) = {0}"
  shows "\<exists>t. file_step n level_ok pieces_of name s t \<and> fr_pc t i \<noteq> fr_pc s i"
proof (cases "fr_pc s i")
  case (Closing e u)
  from reopen_close [OF assms(1) this] show ?thesis by (rule moves_by) (simp add: Closing)
next
  case (Opening e u)
  obtain st d where "of_open_app name (fr_stream s) (fr_disk s) = (st, d)" by fastforce
  from reopen_open [OF assms(1) Opening this] show ?thesis by (rule moves_by) (simp add: Opening)
next
  case (Opened e u)
  from reopen_unlock [OF assms(1) this] show ?thesis by (rule moves_by) (simp add: Opened)
next
  case (Writing e u ps)
  show ?thesis
  proof (cases ps)
    case Nil
    with Writing have "fr_pc s i = Writing e u []" by simp
    from write_unlock [OF assms(1) this] show ?thesis by (rule moves_by) (simp add: Writing)
  next
    case (Cons p ps')
    with Writing have at: "fr_pc s i = Writing e u (p # ps')" by simp
    obtain st d where "of_write p (fr_stream s) (fr_disk s) = (st, d)" by fastforce
    from write_piece [OF assms(1) at this] show ?thesis by (rule moves_by) (simp add: at)
  qed
qed (use assms in simp_all)

lemma someone_moves:
  assumes ok: "mutex_ok s" and out: "outside_idle n s" and left: "\<not> file_done n s"
  shows "\<exists>t. file_step n level_ok pieces_of name s t \<and> (fr_pc t \<noteq> fr_pc s \<or> fr_todo t \<noteq> fr_todo s)"
proof (cases "\<exists>j. has_lock (fr_pc s j) = {0}")
  case True
  then obtain j where j: "has_lock (fr_pc s j) = {0}" by blast
  have "j < n"
  proof (rule ccontr)
    assume "\<not> j < n"
    with out have "fr_pc s j = Between" by (simp add: outside_idle_def)
    with j show False by simp
  qed
  from locker_moves [OF this j] show ?thesis by metis
next
  case False
  with has_lock_cases have "has_lock (fr_pc s j) = {}" for j by blast
  with ok have free: "\<not> fr_mutex s" by (auto simp: mutex_ok_def owns_def one_lock_def)
  have take: "Spinlock_lock (fr_mutex s) = Some True" using free by (simp add: Spinlock_lock_def)
  from left obtain i where i: "i < n" "fr_pc s i \<noteq> Between \<or> fr_todo s i \<noteq> []" by (auto simp: file_done_def)
  have moved: ?thesis if "file_step n level_ok pieces_of name s (go i p s')" "fr_pc s i \<noteq> p" "fr_pc s' = fr_pc s" for p s'
    using that by (intro exI [of _ "go i p s'"]) (auto simp: fun_eq_iff intro!: exI [of _ i])
  show ?thesis
  proof (cases "fr_pc s i")
    case Between
    with i obtain e es where todo: "fr_todo s i = e # es" by (cases "fr_todo s i") auto
    show ?thesis
    proof (cases "level_ok e")
      case True
      from call_timed [where level_ok = level_ok, OF i(1) Between todo True] show ?thesis by (rule moved) (simp_all add: Between)
    next
      case False
      from call_below [where level_ok = level_ok, OF i(1) Between todo False] todo
      show ?thesis by (intro exI [of _ "begun i es s"]) (auto simp: fun_eq_iff intro!: exI [of _ i])
    qed
  next
    case (Timed e u)
    show ?thesis
    proof (cases "u = fr_lastTime s")
      case True
      from same_second [OF i(1) Timed True] show ?thesis by (rule moved) (simp_all add: Timed)
    next
      case False
      from new_second [OF i(1) Timed False] show ?thesis by (rule moved) (simp_all add: Timed)
    qed
  next
    case (Reopening e u)
    from reopen_lock [OF i(1) this take] show ?thesis by (rule moved) (simp_all add: Reopening)
  next
    case (Storing e u)
    from store_time [OF i(1) this] show ?thesis by (rule moved) (simp_all add: Storing)
  next
    case (Locking e u)
    from write_lock [OF i(1) this take] show ?thesis by (rule moved) (simp_all add: Locking)
  qed (use False in \<open>auto dest!: spec [of _ i]\<close>)
qed

section \<open>Reachable states\<close>

definition file_ok :: "nat \<Rightarrow> string \<Rightarrow> disk \<Rightarrow> ('e \<Rightarrow> string list) \<Rightarrow> 'e file_race \<Rightarrow> bool" where
  "file_ok n name d pieces_of s \<longleftrightarrow> outside_idle n s \<and> mutex_ok s \<and> stream_ok name s \<and> times_ok name s \<and> files_ok d pieces_of s"

lemma file_init_ok:
  assumes "disk_works name d"
  shows "file_ok n name d pieces_of (file_race_init name d t work)"
proof -
  obtain ino d1 where o: "disk_open name d = (ino, d1)" by fastforce
  have "reopen_stream name of_new d = (\<lparr>os_open = Some ino, os_fail = False\<rparr>, d1)"
    using assms o by (simp add: reopen_stream_def of_open_app_def of_new_def of_close_def disk_works_def)
  then have init: "file_race_init name d t work = \<lparr>fr_stream = \<lparr>os_open = Some ino, os_fail = False\<rparr>, fr_disk = d1,
      fr_stdout = [], fr_now = t, fr_lastTime = 0, fr_mutex = False, fr_opened = t, fr_changed = t, fr_records = [],
      fr_pc = (\<lambda>_. Between), fr_todo = work\<rparr>"
    by (simp add: file_race_init_def)
  note d1 = disk_open_works [OF assms o]
  have "d_data d1 k = text_before d k" if "k < d_next d1" for k
    using d1(5,6) [of k] that by (cases "k < d_next d") (simp_all add: text_before_def)
  then show ?thesis
    using d1(1-4) unfolding init
    by (simp add: file_ok_def outside_idle_def mutex_ok_def owns_def one_lock_def stream_ok_def times_ok_def files_ok_def
        whole_def written_def)
qed

lemma file_reach_ok:
  assumes "file_reach n level_ok pieces_of name (file_race_init name d t work) s" and "disk_works name d"
  shows "file_ok n name d pieces_of s \<and> mset (map snd (fr_records s)) + (\<Sum>i<n. to_write level_ok s i) = (\<Sum>i<n. mset (filter level_ok (work i)))"
  using assms(1)
proof (induction rule: file_reach.induct)
  case file_start
  have "fr_records (file_race_init name d t work) = []" "fr_pc (file_race_init name d t work) = (\<lambda>_. Between)"
    "fr_todo (file_race_init name d t work) = work" by (simp_all add: file_race_init_def split: prod.split)
  with file_init_ok [OF assms(2)] show ?case by (simp add: to_write_def)
next
  case (file_next s u)
  then have ok: "outside_idle n s" "mutex_ok s" "stream_ok name s" "times_ok name s" "files_ok d pieces_of s"
    by (simp_all add: file_ok_def)
  note st = file_next.hyps(2)
  have "file_ok n name d pieces_of u"
    unfolding file_ok_def
    using outside_step [OF st ok(1)] mutex_step [OF st ok(2)] stream_step [OF st ok(2,3)] times_step [OF st ok(2-4)]
      files_step [OF st ok(2,3,5)] by blast
  with records_step [OF st ok(2,3)] file_next.IH show ?case by simp
qed

text \<open>Writing the pieces of a record one after the other is writing the record, as \<open>file_write_body\<close> of Appender does.\<close>

lemma of_write_pieces:
  "\<not> d_full d \<Longrightarrow> \<not> os_fail st \<Longrightarrow> os_open st \<noteq> None \<Longrightarrow>
     of_write (concat ps) st d = fold (\<lambda>p (st, d). of_write p st d) ps (st, d)"
proof (induction ps arbitrary: d)
  case Nil
  then show ?case by (simp add: of_write_def)
next
  case (Cons p ps)
  from Cons.prems obtain ino where ino: "os_open st = Some ino" by blast
  let ?d = "d\<lparr>d_data := (d_data d)(ino := d_data d ino @ p)\<rparr>"
  have "of_write p st d = (st, ?d)" using Cons.prems ino by (auto simp: of_write_def)
  moreover have "of_write (concat ps) st ?d = fold (\<lambda>p (st, d). of_write p st d) ps (st, ?d)"
    using Cons.prems by (intro Cons.IH) simp_all
  moreover have "of_write (p @ concat ps) st d = of_write (concat ps) st ?d"
    using Cons.prems ino by (cases "concat ps = []") (auto simp: of_write_def simp del: concat_eq_Nil_conv)
  ultimately show ?case by simp
qed

text \<open>A thread alone, in the second after the construction.\<close>

definition race_disk :: disk where
  "race_disk = \<lparr>d_names = [''app.log'' \<mapsto> 0], d_data = (\<lambda>_. ''old ''), d_next = 1, d_can_open = (\<lambda>_. True), d_full = False\<rparr>"

definition race_demo :: "string file_race" where
  "race_demo = file_race_init ''app.log'' race_disk 0 (\<lambda>i. if i = 0 then [''hello''] else [])"

abbreviation race_reaches :: "string file_race \<Rightarrow> bool" where
  "race_reaches \<equiv> file_reach 1 (\<lambda>_. True) (\<lambda>x. [x]) ''app.log'' race_demo"

lemma race_disk_works: "disk_works ''app.log'' race_disk"
  by (simp add: race_disk_def disk_works_def)

definition demo_at :: "string file_pc \<Rightarrow> bool \<Rightarrow> nat option \<Rightarrow> string \<Rightarrow> 64 word \<Rightarrow> 64 word \<Rightarrow> (nat \<times> string) list \<Rightarrow> string file_race" where
  "demo_at p m file x stored opened rs = \<lparr>fr_stream = \<lparr>os_open = file, os_fail = False\<rparr>,
     fr_disk = race_disk\<lparr>d_data := (d_data race_disk)(0 := ''old '' @ x)\<rparr>, fr_stdout = [], fr_now = 1, fr_lastTime = stored,
     fr_mutex = m, fr_opened = opened, fr_changed = 0, fr_records = rs, fr_pc = (\<lambda>_. Between)(0 := p), fr_todo = (\<lambda>_. [])\<rparr>"

lemma demo_begins: "race_reaches (demo_at (Timed ''hello'' 1) False (Some 0) [] 0 0 [])"
proof -
  have eq: "race_demo = \<lparr>fr_stream = \<lparr>os_open = Some 0, os_fail = False\<rparr>, fr_disk = race_disk, fr_stdout = [], fr_now = 0,
      fr_lastTime = 0, fr_mutex = False, fr_opened = 0, fr_changed = 0, fr_records = [], fr_pc = (\<lambda>_. Between),
      fr_todo = (\<lambda>i. if i = 0 then [''hello''] else [])\<rparr>"
    by (simp add: race_demo_def file_race_init_def reopen_stream_def of_open_app_def of_new_def of_close_def disk_open_def race_disk_def)
  have tick: "race_reaches (race_demo\<lparr>fr_now := 1\<rparr>)"
    by (rule file_next [OF file_start tick]) (simp add: eq)
  have call: "go 0 (Timed ''hello'' 1) (begun 0 [] (race_demo\<lparr>fr_now := 1\<rparr>)) = demo_at (Timed ''hello'' 1) False (Some 0) [] 0 0 []"
    by (simp add: eq demo_at_def go_def begun_def race_disk_def fun_eq_iff)
  have "file_step 1 (\<lambda>_. True) (\<lambda>x. [x]) ''app.log'' (race_demo\<lparr>fr_now := 1\<rparr>) (demo_at (Timed ''hello'' 1) False (Some 0) [] 0 0 [])"
    using call_timed [of 0 1 "race_demo\<lparr>fr_now := 1\<rparr>" "''hello''" "[]" "\<lambda>_. True"] call by (simp add: eq)
  with tick show ?thesis by (rule file_next)
qed

lemma race_demo_run:
  "race_reaches (demo_at (Writing ''hello'' 1 [''hello'']) True (Some 0) [] 1 1 [])"
  "race_reaches (demo_at Between False (Some 0) ''hello'' 1 1 [(0, ''hello'')])"
proof -
  note file_next [OF demo_begins new_second [of 0 1 _ "''hello''" 1]]
  then have "race_reaches (demo_at (Reopening ''hello'' 1) False (Some 0) [] 0 0 [])"
    by (simp add: demo_at_def go_def)
  note file_next [OF this reopen_lock [of 0 1 _ "''hello''" 1 True]]
  then have "race_reaches (demo_at (Closing ''hello'' 1) True (Some 0) [] 0 0 [])"
    by (simp add: demo_at_def go_def Spinlock_lock_def)
  note file_next [OF this reopen_close [of 0 1 _ "''hello''" 1]]
  then have "race_reaches (demo_at (Opening ''hello'' 1) True None [] 0 0 [])"
    by (simp add: demo_at_def go_def of_close_def)
  note file_next [OF this reopen_open [of 0 1 _ "''hello''" 1]]
  then have "race_reaches (demo_at (Opened ''hello'' 1) True (Some 0) [] 0 1 [])"
    by (simp add: demo_at_def go_def say_def of_open_app_def disk_open_def race_disk_def)
  note file_next [OF this reopen_unlock [of 0 1 _ "''hello''" 1]]
  then have "race_reaches (demo_at (Storing ''hello'' 1) False (Some 0) [] 0 1 [])"
    by (simp add: demo_at_def go_def Spinlock_unlock_def)
  note file_next [OF this store_time [of 0 1 _ "''hello''" 1]]
  then have "race_reaches (demo_at (Locking ''hello'' 1) False (Some 0) [] 1 1 [])"
    by (simp add: demo_at_def go_def)
  note file_next [OF this write_lock [of 0 1 _ "''hello''" 1 True]]
  then show w: "race_reaches (demo_at (Writing ''hello'' 1 [''hello'']) True (Some 0) [] 1 1 [])"
    by (simp add: demo_at_def go_def Spinlock_lock_def)
  note file_next [OF w write_piece [of 0 1 _ "''hello''" 1 "''hello''" "[]"]]
  then have "race_reaches (demo_at (Writing ''hello'' 1 []) True (Some 0) ''hello'' 1 1 [])"
    by (simp add: demo_at_def go_def of_write_def race_disk_def)
  note file_next [OF this write_unlock [of 0 1 _ "''hello''" 1]]
  then show "race_reaches (demo_at Between False (Some 0) ''hello'' 1 1 [(0, ''hello'')])"
    by (simp add: demo_at_def go_def say_def noted_def Spinlock_unlock_def)
qed

section \<open>Properties\<close>

text \<open>
  C13. Threads that log to one file at once lose nothing: as long as the disk lets the name be opened and
  has space, in every interleaving of their calls with each other, with the clock and with other processes
  that move or remove files, no error is printed; whenever the appender's lock is free, every file
  holds what it held and then whole records; while calls are left, some thread can step and comes
  closer to its end; and at the end each record at or above the appender's level is in exactly one file.
\<close>

theorem concurrent_file_log:
  assumes "file_reach n level_ok pieces_of name (file_race_init name d t work) s" and "disk_works name d"
  shows "fr_stdout s = [] \<and>
    (\<not> fr_mutex s \<longrightarrow> (\<forall>ino < d_next (fr_disk s). d_data (fr_disk s) ino = text_before d ino @
       concat (map (\<lambda>r. concat (pieces_of (snd r))) (filter (\<lambda>r. fst r = ino) (fr_records s))))) \<and>
    (file_done n s \<or> (\<exists>u. file_step n level_ok pieces_of name s u \<and> file_left n pieces_of u < file_left n pieces_of s)) \<and>
    (file_done n s \<longrightarrow> mset (map snd (fr_records s)) = (\<Sum>i<n. mset (filter level_ok (work i))))"
proof -
  from file_reach_ok [OF assms] have ok: "outside_idle n s" "mutex_ok s" "stream_ok name s" "files_ok d pieces_of s"
    and recs: "mset (map snd (fr_records s)) + (\<Sum>i<n. to_write level_ok s i) = (\<Sum>i<n. mset (filter level_ok (work i)))"
    by (simp_all add: file_ok_def)
  have lines: "d_data (fr_disk s) ino = text_before d ino @ written pieces_of (fr_records s) ino"
    if "\<not> fr_mutex s" "ino < d_next (fr_disk s)" for ino
  proof -
    have "\<not> is_writing (fr_pc s i)" for i using lock_free [OF ok(2) that(1), of i] by (auto simp: is_writing_iff)
    with ok(4) that(2) show ?thesis unfolding files_ok_def whole_def by blast
  qed
  have "\<exists>u. file_step n level_ok pieces_of name s u \<and> file_left n pieces_of u < file_left n pieces_of s" if "\<not> file_done n s"
    using someone_moves [OF ok(2,1) that] left_step [OF _ ok(2,3)] by metis
  moreover have "mset (map snd (fr_records s)) = (\<Sum>i<n. mset (filter level_ok (work i)))" if "file_done n s"
  proof -
    have "to_write level_ok s i = {#}" if "i < n" for i
      using that \<open>file_done n s\<close> by (simp add: file_done_def to_write_def)
    with recs show ?thesis by simp
  qed
  ultimately show ?thesis using lines ok(3) by (auto simp: written_def stream_ok_def)
qed

theorem concurrent_file_log_witness:
  "\<exists>s. race_reaches s \<and> file_done 1 s \<and> fr_stdout s = [] \<and> d_data (fr_disk s) 0 = ''old hello'' \<and>
     mset (map snd (fr_records s)) = {#''hello''#}"
proof -
  let ?s = "demo_at Between False (Some 0) ''hello'' 1 1 [(0, ''hello'')]"
  have "file_done 1 ?s" "\<not> fr_mutex ?s" "0 < d_next (fr_disk ?s)" "fr_records ?s = [(0, ''hello'')]"
    by (simp_all add: file_done_def demo_at_def race_disk_def)
  moreover have "text_before race_disk 0 = ''old ''" by (simp add: text_before_def race_disk_def)
  ultimately show ?thesis
    using concurrent_file_log [OF race_demo_run(2) [unfolded race_demo_def] race_disk_works] race_demo_run(2)
    by (intro exI [of _ ?s]) simp
qed

text \<open>
  C14. A removed file is left within a second, however many threads log: a record of a call that began in
  a later second than the last move or removal of a file is written to the file that the name leads to,
  although the time of the last reopen is read and written without the lock.
\<close>

theorem file_follows_name:
  assumes "file_reach n level_ok pieces_of name (file_race_init name d t0 work) s" and "disk_works name d"
    and "fr_pc s i = Writing e t ps" and "fr_changed s < t"
  shows "\<exists>ino. os_open (fr_stream s) = Some ino \<and> d_names (fr_disk s) name = Some ino"
proof -
  from file_reach_ok [OF assms(1,2)] have ok: "mutex_ok s" "stream_ok name s" "times_ok name s"
    by (simp_all add: file_ok_def)
  obtain ino where ino: "os_open (fr_stream s) = Some ino" using open_file [OF ok(2,1), of i] assms(3) by auto
  have "t \<le> fr_opened s" using ok(3) assms(3) unfolding times_ok_def by (metis fresh_for.simps(4))
  with assms(4) have "fr_changed s < fr_opened s" by simp
  with ok(3) ino show ?thesis by (auto simp: times_ok_def)
qed

theorem file_follows_name_witness:
  "\<exists>s. race_reaches s \<and> fr_pc s 0 = Writing ''hello'' 1 [''hello''] \<and> os_open (fr_stream s) = d_names (fr_disk s) ''app.log''"
proof -
  let ?s = "demo_at (Writing ''hello'' 1 [''hello'']) True (Some 0) [] 1 1 []"
  have at: "fr_pc ?s 0 = Writing ''hello'' 1 [''hello'']" "fr_changed ?s < 1" by (simp_all add: demo_at_def)
  from file_follows_name [OF race_demo_run(1) [unfolded race_demo_def] race_disk_works at] race_demo_run(1) at(1)
  show ?thesis by (intro exI [of _ ?s]) auto
qed

end
