(* ===== verification/Lexical_Cast.thy ===== *)
theory Lexical_Cast
  imports Yaml_Api Ordered_Map
begin

text \<open>
  The LexicalCast specialisations of config.h between a YAML text and a container: vector, list,
  set, unordered_set, map and unordered_map. The casts of the element type are arguments; the
  primary template is boost::lexical_cast, which is such an argument too. The round trips are stated
  for elements whose own text survives.
\<close>

section \<open>Loops shared by the specialisations\<close>

text \<open>ss.str(""); ss << node[i]; ... LexicalCast<std::string, T>()(ss.str())\<close>

definition cast_node :: "'n yaml \<Rightarrow> (string \<Rightarrow> 'a res) \<Rightarrow> 'n \<Rightarrow> 'a res" where
  "cast_node Y from x = from (y_emit Y x)"

definition cast_index :: "'n yaml \<Rightarrow> (string \<Rightarrow> 'a res) \<Rightarrow> 'n \<Rightarrow> nat \<Rightarrow> 'a res" where
  "cast_index Y from node i = rbind (or_throw (y_at Y node i)) (cast_node Y from)"

text \<open>The loop over the indices, with the container's way of adding an element.\<close>

definition cast_seq :: "'n yaml \<Rightarrow> (string \<Rightarrow> 'a res) \<Rightarrow> ('a \<Rightarrow> 'c \<Rightarrow> 'c) \<Rightarrow> 'c \<Rightarrow> string \<Rightarrow> 'c res" where
  "cast_seq Y from add start v = rbind (or_throw (y_load Y v)) (\<lambda>node.
     rfold (\<lambda>i vec. rbind (cast_index Y from node i) (\<lambda>a. Inr (add a vec))) [0..<y_size Y node] start)"

text \<open>The loop over the entries of a map node.\<close>

definition cast_entries ::
  "'n yaml \<Rightarrow> (string \<Rightarrow> 'a res) \<Rightarrow> (string \<Rightarrow> 'a \<Rightarrow> 'c \<Rightarrow> 'c) \<Rightarrow> 'c \<Rightarrow> string \<Rightarrow> 'c res" where
  "cast_entries Y from add start v = rbind (or_throw (y_load Y v)) (\<lambda>node.
     rfold (\<lambda>(k, x) vec. rbind (cast_node Y from x) (\<lambda>a. Inr (add (y_scalar Y k) a vec))) (y_entries Y node) start)"

text \<open>node.push_back(YAML::Load(LexicalCast<T, std::string>()(i))), for every element; ss << node.\<close>

definition load_elem :: "'n yaml \<Rightarrow> ('a \<Rightarrow> string res) \<Rightarrow> 'a \<Rightarrow> 'n res" where
  "load_elem Y to a = rbind (to a) (\<lambda>s. or_throw (y_load Y s))"

definition emit_seq :: "'n yaml \<Rightarrow> ('a \<Rightarrow> string res) \<Rightarrow> 'a list \<Rightarrow> string res" where
  "emit_seq Y to vs = rbind
     (rfold (\<lambda>a node. rbind (load_elem Y to a) (\<lambda>x. Inr (y_push Y node x))) vs (y_node Y))
     (\<lambda>node. Inr (y_emit Y node))"

definition emit_entries :: "'n yaml \<Rightarrow> ('a \<Rightarrow> string res) \<Rightarrow> (string \<times> 'a) list \<Rightarrow> string res" where
  "emit_entries Y to kvs = rbind
     (rfold (\<lambda>(k, a) node. rbind (load_elem Y to a) (\<lambda>x. Inr (y_put Y node k x))) kvs (y_node Y))
     (\<lambda>node. Inr (y_emit Y node))"

section \<open>The specialisations\<close>

definition vector_from_string :: "'n yaml \<Rightarrow> (string \<Rightarrow> 'a res) \<Rightarrow> string \<Rightarrow> 'a list res" where
  "vector_from_string Y from = cast_seq Y from (\<lambda>a vec. vec @ [a]) []"

definition vector_to_string :: "'n yaml \<Rightarrow> ('a \<Rightarrow> string res) \<Rightarrow> 'a list \<Rightarrow> string res" where
  "vector_to_string Y to v = emit_seq Y to v"

definition list_from_string :: "'n yaml \<Rightarrow> (string \<Rightarrow> 'a res) \<Rightarrow> string \<Rightarrow> 'a list res" where
  "list_from_string Y from = cast_seq Y from (\<lambda>a vec. vec @ [a]) []"

definition list_to_string :: "'n yaml \<Rightarrow> ('a \<Rightarrow> string res) \<Rightarrow> 'a list \<Rightarrow> string res" where
  "list_to_string Y to v = emit_seq Y to v"

text \<open>std::set: the elements in ascending order; insert keeps an element that is there.\<close>

definition set_from_string :: "'n yaml \<Rightarrow> (string \<Rightarrow> 'a::linorder res) \<Rightarrow> string \<Rightarrow> 'a list res" where
  "set_from_string Y from = cast_seq Y from insort_insert []"

definition set_to_string :: "'n yaml \<Rightarrow> ('a \<Rightarrow> string res) \<Rightarrow> 'a list \<Rightarrow> string res" where
  "set_to_string Y to v = emit_seq Y to v"

text \<open>
  std::unordered_set: a set; \<open>iter\<close> is the order in which the implementation iterates over it.
\<close>

definition unordered_set_from_string :: "'n yaml \<Rightarrow> (string \<Rightarrow> 'a res) \<Rightarrow> string \<Rightarrow> 'a set res" where
  "unordered_set_from_string Y from = cast_seq Y from insert {}"

definition unordered_set_to_string ::
  "'n yaml \<Rightarrow> ('a \<Rightarrow> string res) \<Rightarrow> ('a set \<Rightarrow> 'a list) \<Rightarrow> 'a set \<Rightarrow> string res" where
  "unordered_set_to_string Y to iter v = emit_seq Y to (iter v)"

definition map_from_string :: "'n yaml \<Rightarrow> (string \<Rightarrow> 'a res) \<Rightarrow> string \<Rightarrow> (string, 'a) omap res" where
  "map_from_string Y from = cast_entries Y from om_insert []"

definition map_to_string :: "'n yaml \<Rightarrow> ('a \<Rightarrow> string res) \<Rightarrow> (string, 'a) omap \<Rightarrow> string res" where
  "map_to_string Y to v = emit_entries Y to v"

text \<open>std::unordered_map: a partial function and its iteration order; insert keeps an entry that is there.\<close>

definition um_insert :: "string \<Rightarrow> 'a \<Rightarrow> (string \<rightharpoonup> 'a) \<Rightarrow> (string \<rightharpoonup> 'a)" where
  "um_insert k a m = (case m k of None \<Rightarrow> m(k \<mapsto> a) | Some _ \<Rightarrow> m)"

definition unordered_map_from_string ::
  "'n yaml \<Rightarrow> (string \<Rightarrow> 'a res) \<Rightarrow> string \<Rightarrow> (string \<rightharpoonup> 'a) res" where
  "unordered_map_from_string Y from = cast_entries Y from um_insert Map.empty"

definition unordered_map_to_string ::
  "'n yaml \<Rightarrow> ('a \<Rightarrow> string res) \<Rightarrow> ((string \<rightharpoonup> 'a) \<Rightarrow> (string \<times> 'a) list) \<Rightarrow> (string \<rightharpoonup> 'a) \<Rightarrow> string res" where
  "unordered_map_to_string Y to iter v = emit_entries Y to (iter v)"

section \<open>The loops in closed form\<close>

text \<open>
  \<open>elem_survives Y from to a n\<close>: the text of \<open>a\<close> loads as the node \<open>n\<close>, whose own text is read back
  as \<open>a\<close>.
\<close>

definition elem_survives :: "'n yaml \<Rightarrow> (string \<Rightarrow> 'a res) \<Rightarrow> ('a \<Rightarrow> string res) \<Rightarrow> 'a \<Rightarrow> 'n \<Rightarrow> bool" where
  "elem_survives Y from to a n \<longleftrightarrow> load_elem Y to a = Inr n \<and> cast_node Y from n = Inr a"

lemma emit_seq_eq:
  assumes "list_all2 (\<lambda>a n. load_elem Y to a = Inr n) vs ns"
  shows "emit_seq Y to vs = Inr (y_emit Y (seq_node Y ns))"
proof -
  have "rfold (\<lambda>a node. rbind (load_elem Y to a) (\<lambda>x. Inr (y_push Y node x))) vs node =
      Inr (fold (\<lambda>x n. y_push Y n x) ns node)" for node
    using assms by (induction arbitrary: node rule: list_all2_induct) simp_all
  then show ?thesis by (simp add: emit_seq_def seq_node_def)
qed

lemma emit_entries_eq:
  assumes "list_all2 (\<lambda>(k, a) (k', n). k' = k \<and> load_elem Y to a = Inr n) kvs kns"
  shows "emit_entries Y to kvs = Inr (y_emit Y (map_node Y kns))"
proof -
  have "rfold (\<lambda>(k, a) node. rbind (load_elem Y to a) (\<lambda>x. Inr (y_put Y node k x))) kvs node =
      Inr (fold (\<lambda>(k, x) n. y_put Y n k x) kns node)" for node
    using assms by (induction arbitrary: node rule: list_all2_induct) auto
  then show ?thesis by (simp add: emit_entries_def map_node_def)
qed

lemma rfold_upt_shift: "rfold f [Suc m..<Suc n] s = rfold (\<lambda>i. f (Suc i)) [m..<n] s"
proof -
  have "rfold f (map Suc xs) s = rfold (\<lambda>i. f (Suc i)) xs s" for xs s
    by (induction xs arbitrary: s) (simp_all add: fun_eq_iff cong: rbind_cong)
  then show ?thesis by (metis map_Suc_upt)
qed

lemma cast_loop_eq:
  assumes "\<forall>i < length vs. at i = Inr (vs ! i)"
  shows "rfold (\<lambda>i vec. rbind (at i) (\<lambda>a. Inr (add a vec))) [0..<length vs] c = Inr (fold add vs c)"
  using assms
proof (induction vs arbitrary: at c)
  case Nil
  then show ?case by simp
next
  case (Cons a vs)
  have tail: "rfold (\<lambda>i vec. rbind (at (Suc i)) (\<lambda>a. Inr (add a vec))) [0..<length vs] (add a c)
      = Inr (fold add vs (add a c))"
    using Cons.prems by (intro Cons.IH) auto
  have "[0..<length (a # vs)] = 0 # [Suc 0..<Suc (length vs)]" by (simp add: upt_conv_Cons del: upt_Suc)
  with Cons.prems tail show ?case by (simp add: rfold_upt_shift del: upt_Suc)
qed

lemma cast_seq_eq:
  assumes "y_load Y v = Some node" and "seq_reads Y node ns"
    and "list_all2 (\<lambda>a n. cast_node Y from n = Inr a) vs ns"
  shows "cast_seq Y from add start v = Inr (fold add vs start)"
proof -
  have len: "y_size Y node = length vs" "length ns = length vs"
    using assms(2,3) by (simp_all add: seq_reads_def list_all2_lengthD)
  have "\<forall>i < length vs. cast_index Y from node i = Inr (vs ! i)"
    using assms(2,3) len by (simp add: cast_index_def seq_reads_def list_all2_conv_all_nth)
  then show ?thesis
    using assms(1) len by (simp add: cast_seq_def cast_loop_eq)
qed

lemma cast_entries_eq:
  assumes "y_load Y v = Some node" and "map (\<lambda>(k, x). (y_scalar Y k, x)) (y_entries Y node) = kns"
    and "list_all2 (\<lambda>(k, a) (k', n). k' = k \<and> cast_node Y from n = Inr a) kvs kns"
  shows "cast_entries Y from add start v = Inr (fold (\<lambda>(k, a). add k a) kvs start)"
proof -
  have "rfold (\<lambda>(k, x) vec. rbind (cast_node Y from x) (\<lambda>a. Inr (add (y_scalar Y k) a vec))) es c
      = Inr (fold (\<lambda>(k, a). add k a) kvs c)"
    if "list_all2 (\<lambda>(k, a) (k', n). k' = k \<and> cast_node Y from n = Inr a) kvs (map (\<lambda>(k, x). (y_scalar Y k, x)) es)"
    for es c kvs
    using that
  proof (induction es arbitrary: c kvs)
    case (Cons x es)
    then show ?case by (cases x) (auto simp: list_all2_Cons2)
  qed simp
  with assms show ?thesis by (simp add: cast_entries_def)
qed


section \<open>Round trips\<close>

lemma elem_survives_all:
  assumes "list_all2 (elem_survives Y from to) vs ns"
  shows "list_all2 (\<lambda>a n. load_elem Y to a = Inr n) vs ns"
    and "list_all2 (\<lambda>a n. cast_node Y from n = Inr a) vs ns"
  using assms by (auto simp: elem_survives_def elim!: list_all2_mono)

lemma seq_roundtrip:
  assumes "list_all2 (elem_survives Y from to) vs ns" and "seq_survives Y ns"
  shows "rbind (emit_seq Y to vs) (cast_seq Y from add c) = Inr (fold add vs c)"
proof -
  from assms(2) obtain n where "y_load Y (y_emit Y (seq_node Y ns)) = Some n" "seq_reads Y n ns"
    by (auto simp: seq_survives_def)
  from cast_seq_eq [OF this elem_survives_all(2) [OF assms(1)]] show ?thesis
    by (simp add: emit_seq_eq [OF elem_survives_all(1) [OF assms(1)]])
qed

text \<open>The same for maps, whose entries may come back in another order.\<close>

lemma list_all2_mset_right:
  assumes "list_all2 P xs ys" and "mset ys' = mset ys"
  shows "\<exists>xs'. mset xs' = mset xs \<and> list_all2 P xs' ys'"
proof -
  have "list_all2 (\<lambda>y x. P x y) ys xs" using assms(1) by (simp add: list_all2_conv_all_nth)
  from list_all2_reorder_left_invariance [OF this assms(2)] obtain xs'
    where "list_all2 (\<lambda>y x. P x y) ys' xs'" "mset xs' = mset xs" by blast
  then show ?thesis by (auto simp: list_all2_conv_all_nth)
qed

definition entry_survives ::
  "'n yaml \<Rightarrow> (string \<Rightarrow> 'a res) \<Rightarrow> ('a \<Rightarrow> string res) \<Rightarrow> string \<times> 'a \<Rightarrow> string \<times> 'n \<Rightarrow> bool" where
  "entry_survives Y from to x y \<longleftrightarrow> fst y = fst x \<and> elem_survives Y from to (snd x) (snd y)"

lemma entries_roundtrip:
  assumes surv: "list_all2 (entry_survives Y from to) kvs kns" and "map_survives Y kns"
  shows "\<exists>kvs'. mset kvs' = mset kvs \<and>
    rbind (emit_entries Y to kvs) (cast_entries Y from add c) = Inr (fold (\<lambda>(k, a). add k a) kvs' c)"
proof -
  from assms(2) obtain n where n: "y_load Y (y_emit Y (map_node Y kns)) = Some n" "map_reads Y n kns"
    by (auto simp: map_survives_def)
  let ?es = "map (\<lambda>(k, x). (y_scalar Y k, x)) (y_entries Y n)"
  from n(2) have "mset ?es = mset kns" by (simp add: map_reads_def)
  from list_all2_mset_right [OF surv this] obtain kvs' where kvs': "mset kvs' = mset kvs"
    and surv': "list_all2 (entry_survives Y from to) kvs' ?es" by blast
  have "list_all2 (\<lambda>(k, a) (k', n). k' = k \<and> cast_node Y from n = Inr a) kvs' ?es"
    using surv' by (rule list_all2_mono) (auto simp: entry_survives_def elem_survives_def)
  from cast_entries_eq [OF n(1) refl this]
  have "cast_entries Y from add c (y_emit Y (map_node Y kns)) = Inr (fold (\<lambda>(k, a). add k a) kvs' c)" .
  moreover have "list_all2 (\<lambda>(k, a) (k', n). k' = k \<and> load_elem Y to a = Inr n) kvs kns"
    using surv by (rule list_all2_mono) (auto simp: entry_survives_def elem_survives_def)
  ultimately show ?thesis using kvs' by (auto simp: emit_entries_eq)
qed

lemma fold_snoc: "fold (\<lambda>a vec. vec @ [a]) vs acc = acc @ vs"
  by (induction vs arbitrary: acc) simp_all

lemma fold_insort_insert:
  "sorted acc \<Longrightarrow> distinct acc \<Longrightarrow> sorted (fold insort_insert vs acc) \<and> distinct (fold insort_insert vs acc) \<and>
     set (fold insort_insert vs acc) = set vs \<union> set acc"
  by (induction vs arbitrary: acc)
    (auto simp: sorted_insort_insert distinct_insort_insert set_insort_insert)

text \<open>std::set built from a sorted, duplicate-free list is that list.\<close>

lemma fold_insort_insert_sorted:
  "sorted vs \<Longrightarrow> distinct vs \<Longrightarrow> fold insort_insert vs [] = vs"
  using fold_insort_insert [of "[]" vs] sorted_distinct_set_unique by force

lemma fold_insert_set: "fold insert vs s = set vs \<union> s"
  by (induction vs arbitrary: s) auto

lemma fold_om_insert:
  "om_ok m \<Longrightarrow> distinct (map fst kvs) \<Longrightarrow> (\<forall>k \<in> fst ` set kvs. om_find m k = None) \<Longrightarrow>
     om_ok (fold (\<lambda>(k, a). om_insert k a) kvs m) \<and>
     om_find (fold (\<lambda>(k, a). om_insert k a) kvs m) = om_find m ++ map_of kvs"
proof (induction kvs arbitrary: m)
  case (Cons x kvs)
  obtain k a where x: "x = (k, a)" by (cases x)
  from Cons.prems x have none: "om_find m k = None" by simp
  have m1: "om_find (om_insert k a m) = (om_find m)(k \<mapsto> a)"
    using none by (simp add: om_insert_def om.find_put)
  have "\<forall>k' \<in> fst ` set kvs. om_find (om_insert k a m) k' = None"
    using Cons.prems x by (auto simp: m1)
  with Cons have IH: "om_ok (fold (\<lambda>(k, a). om_insert k a) kvs (om_insert k a m)) \<and>
     om_find (fold (\<lambda>(k, a). om_insert k a) kvs (om_insert k a m)) = om_find (om_insert k a m) ++ map_of kvs"
    by (simp add: om_ok_insert)
  have "map_of kvs k = None" using Cons.prems(2) x by (simp add: map_of_eq_None_iff)
  then have "(om_find m)(k \<mapsto> a) ++ map_of kvs = om_find m ++ map_of (x # kvs)"
    by (auto simp: fun_eq_iff map_add_def x split: option.split)
  with IH show ?case by (simp add: m1 x del: map_of.simps)
qed simp

lemma fold_um_insert:
  "distinct (map fst kvs) \<Longrightarrow> (\<forall>k \<in> fst ` set kvs. m k = None) \<Longrightarrow>
     fold (\<lambda>(k, a). um_insert k a) kvs m = m ++ map_of kvs"
proof (induction kvs arbitrary: m)
  case (Cons x kvs)
  obtain k a where x: "x = (k, a)" by (cases x)
  have "map_of kvs k = None" using Cons.prems(1) x by (simp add: map_of_eq_None_iff)
  then have "m(k \<mapsto> a) ++ map_of kvs = m ++ map_of (x # kvs)"
    by (auto simp: fun_eq_iff map_add_def x split: option.split)
  moreover have "um_insert k a m = m(k \<mapsto> a)" using Cons.prems x by (simp add: um_insert_def)
  moreover have "fold (\<lambda>(k, a). um_insert k a) kvs (m(k \<mapsto> a)) = m(k \<mapsto> a) ++ map_of kvs"
    using Cons x by (intro Cons.IH) auto
  ultimately show ?case using x by (simp del: map_of.simps)
qed simp

lemma map_of_mset_eq: "distinct (map fst xs) \<Longrightarrow> mset ys = mset xs \<Longrightarrow> distinct (map fst ys) \<and> map_of ys = map_of xs"
proof -
  assume d: "distinct (map fst xs)" and m: "mset ys = mset xs"
  have d': "distinct (map fst ys)"
    using d m by (metis mset_eq_imp_distinct_iff mset_map)
  moreover have "map_of ys k = map_of xs k" for k
  proof -
    have "map_of ys k = Some v \<longleftrightarrow> map_of xs k = Some v" for v
      using d d' mset_eq_setD [OF m] by (simp add: map_of_eq_Some_iff)
    then show ?thesis by (metis option.exhaust)
  qed
  ultimately show ?thesis by auto
qed

text \<open>Container round trips, one per pair of specialisations.\<close>

lemma vector_roundtrip_lemma:
  assumes "list_all2 (elem_survives Y from to) v ns" and "seq_survives Y ns"
  shows "rbind (vector_to_string Y to v) (vector_from_string Y from) = Inr v"
  by (simp add: seq_roundtrip [OF assms] vector_to_string_def vector_from_string_def fold_snoc)

lemma set_roundtrip_lemma:
  assumes "list_all2 (elem_survives Y from to) v ns" and "seq_survives Y ns" and "sorted v" and "distinct v"
  shows "rbind (set_to_string Y to v) (set_from_string Y from) = Inr v"
  using assms(3,4) by (simp add: seq_roundtrip [OF assms(1,2)] set_to_string_def set_from_string_def fold_insort_insert_sorted)

lemma unordered_set_roundtrip_lemma:
  assumes "list_all2 (elem_survives Y from to) (iter v) ns" and "seq_survives Y ns" and "set (iter v) = v"
  shows "rbind (unordered_set_to_string Y to iter v) (unordered_set_from_string Y from) = Inr v"
  using assms(3) by (simp add: seq_roundtrip [OF assms(1,2)] unordered_set_to_string_def unordered_set_from_string_def fold_insert_set)

lemma map_roundtrip_lemma:
  assumes surv: "list_all2 (entry_survives Y from to) v kns" "map_survives Y kns" and ok: "om_ok v"
  shows "rbind (map_to_string Y to v) (map_from_string Y from) = Inr v"
proof -
  from entries_roundtrip [OF surv, of om_insert "[]"] obtain v' where m: "mset v' = mset v"
    and run: "rbind (emit_entries Y to v) (cast_entries Y from om_insert []) = Inr (fold (\<lambda>(k, a). om_insert k a) v' [])"
    by blast
  from map_of_mset_eq [OF om_ok_distinct [OF ok] m]
  have d: "distinct (map fst v')" and eq: "map_of v' = map_of v" by auto
  have fm: "om_find m = map_of m" for m :: "(string, 'a) omap" by (simp add: fun_eq_iff om_find_def)
  from fold_om_insert [OF om_ok_Nil d] have ok': "om_ok (fold (\<lambda>(k, a). om_insert k a) v' [])"
    and "om_find (fold (\<lambda>(k, a). om_insert k a) v' []) = om_find v"
    by (auto simp: fm eq)
  then have "fold (\<lambda>(k, a). om_insert k a) v' [] = v" using ok by (intro om.extensional)
  with run show ?thesis by (simp add: map_to_string_def map_from_string_def)
qed

lemma unordered_map_roundtrip_lemma:
  assumes surv: "list_all2 (entry_survives Y from to) (iter v) kns" "map_survives Y kns"
    and iter: "distinct (map fst (iter v))" "map_of (iter v) = v"
  shows "rbind (unordered_map_to_string Y to iter v) (unordered_map_from_string Y from) = Inr v"
proof -
  from entries_roundtrip [OF surv, of um_insert Map.empty] obtain v' where m: "mset v' = mset (iter v)"
    and run: "rbind (emit_entries Y to (iter v)) (cast_entries Y from um_insert Map.empty) =
      Inr (fold (\<lambda>(k, a). um_insert k a) v' Map.empty)"
    by blast
  from map_of_mset_eq [OF iter(1) m] iter(2) have "fold (\<lambda>(k, a). um_insert k a) v' Map.empty = v"
    by (simp add: fold_um_insert)
  with run show ?thesis by (simp add: unordered_map_to_string_def unordered_map_from_string_def)
qed

section \<open>Properties\<close>

text \<open>
  Documents for the witnesses: the texts of the scalars a and b, of their sequence and of a map, and
  the nodes they stand for.
\<close>

definition demo_load :: "string \<Rightarrow> ynode option" where
  "demo_load s = (if s = ''[a, b]'' then Some (YSeq [YScalar ''a'', YScalar ''b''])
     else if s = ''{l: b, k: a}'' then Some (YMap [(YScalar ''l'', YScalar ''b''), (YScalar ''k'', YScalar ''a'')])
     else if s = ''['' then None else Some (YScalar s))"

definition demo_emit :: "ynode \<Rightarrow> string" where
  "demo_emit n = (case n of YScalar s \<Rightarrow> s | YSeq ns \<Rightarrow> ''[a, b]'' | YMap kvs \<Rightarrow> ''{l: b, k: a}'' | _ \<Rightarrow> [])"

abbreviation demo_yaml :: "ynode yaml" where
  "demo_yaml \<equiv> tree_yaml demo_load demo_emit"

lemma demo_elem:
  "s \<in> {''a'', ''b''} \<Longrightarrow> elem_survives demo_yaml Inr Inr s (YScalar s)"
  by (auto simp: elem_survives_def load_elem_def cast_node_def tree_yaml_def demo_load_def demo_emit_def)

lemma demo_elems: "list_all2 (elem_survives demo_yaml Inr Inr) [''a'', ''b''] [YScalar ''a'', YScalar ''b'']"
  by (simp add: demo_elem)

lemma demo_seq: "seq_survives demo_yaml [YScalar ''a'', YScalar ''b'']"
proof -
  have "y_load demo_yaml (y_emit demo_yaml (seq_node demo_yaml [YScalar ''a'', YScalar ''b''])) = Some (YSeq [YScalar ''a'', YScalar ''b''])"
    by (simp add: tree_seq_node) (simp add: tree_yaml_def demo_emit_def demo_load_def)
  with tree_seq_reads [of demo_load demo_emit "[YScalar ''a'', YScalar ''b'']"] show ?thesis
    by (auto simp: seq_survives_def tree_seq_node)
qed

lemma demo_map: "map_survives demo_yaml [(''k'', YScalar ''a''), (''l'', YScalar ''b'')]"
  by (simp add: map_survives_def map_node_def map_reads_def tree_yaml_def demo_emit_def demo_load_def)

lemma demo_entries:
  "list_all2 (entry_survives demo_yaml Inr Inr) [(''k'', ''a''), (''l'', ''b'')] [(''k'', YScalar ''a''), (''l'', YScalar ''b'')]"
  by (simp add: entry_survives_def demo_elem)

text \<open>
  C30. Vectors, lists and sets round-trip through their YAML text, whatever the element type, when each
  element's own text does and the YAML library reads back the sequence it wrote: vectors and lists
  come back element for element and in order, an ordered set with the same elements in ascending order,
  and an unordered set as the same set, whatever order it is iterated in.
\<close>

theorem sequences_roundtrip:
  fixes v :: "'a::linorder list"
  assumes "list_all2 (elem_survives Y from to) v ns" and "seq_survives Y ns"
    and "list_all2 (elem_survives Y from to) (iter u) ms" and "seq_survives Y ms" and "set (iter u) = u"
  shows "rbind (vector_to_string Y to v) (vector_from_string Y from) = Inr v \<and>
    rbind (list_to_string Y to v) (list_from_string Y from) = Inr v \<and>
    (sorted v \<and> distinct v \<longrightarrow> rbind (set_to_string Y to v) (set_from_string Y from) = Inr v) \<and>
    rbind (unordered_set_to_string Y to iter u) (unordered_set_from_string Y from) = Inr u"
  using vector_roundtrip_lemma [OF assms(1,2)] set_roundtrip_lemma [OF assms(1,2)]
    unordered_set_roundtrip_lemma [where iter = iter and v = u, OF assms(3-5)]
  by (simp add: list_to_string_def list_from_string_def vector_to_string_def vector_from_string_def)

definition demo_to :: "nat \<Rightarrow> string res" where
  "demo_to i = Inr (if i = 1 then ''a'' else ''b'')"

definition demo_from :: "string \<Rightarrow> nat res" where
  "demo_from s = Inr (if s = ''a'' then 1 else 2)"

theorem sequences_roundtrip_witness:
  "rbind (vector_to_string demo_yaml demo_to [1, 2]) (vector_from_string demo_yaml demo_from) = Inr [1, 2] \<and>
   rbind (set_to_string demo_yaml demo_to [1, 2]) (set_from_string demo_yaml demo_from) = Inr [1, 2] \<and>
   rbind (unordered_set_to_string demo_yaml demo_to (\<lambda>s. [1, 2]) {1, 2})
     (unordered_set_from_string demo_yaml demo_from) = Inr {1, 2}"
proof -
  have el: "list_all2 (elem_survives demo_yaml demo_from demo_to) [1, 2] [YScalar ''a'', YScalar ''b'']"
    by (simp add: elem_survives_def load_elem_def cast_node_def tree_yaml_def demo_load_def demo_emit_def
        demo_to_def demo_from_def)
  show ?thesis
    using sequences_roundtrip [OF el demo_seq, where iter = "\<lambda>s. [1, 2]" and u = "{1, 2}", OF el demo_seq] by simp
qed

text \<open>
  C29. Maps with string keys round-trip through their YAML text, ordered and unordered ones, when the
  text of each value does as an element of its own and the YAML library reads back the map it wrote
  with the same keys: the same keys come back with the same values, whatever order the library lists
  the entries in.
\<close>

theorem map_roundtrip:
  assumes "list_all2 (entry_survives Y from to) v kns" and "map_survives Y kns" and "om_ok v"
    and "list_all2 (entry_survives Y from to) (iter u) jns" and "map_survives Y jns"
    and "distinct (map fst (iter u))" and "map_of (iter u) = u"
  shows "rbind (map_to_string Y to v) (map_from_string Y from) = Inr v \<and>
    rbind (unordered_map_to_string Y to iter u) (unordered_map_from_string Y from) = Inr u"
  using map_roundtrip_lemma [OF assms(1-3)]
    unordered_map_roundtrip_lemma [where iter = iter and v = u, OF assms(4-7)] by simp

theorem map_roundtrip_witness:
  "rbind (map_to_string demo_yaml Inr [(''k'', ''a''), (''l'', ''b'')]) (map_from_string demo_yaml Inr) =
     Inr [(''k'', ''a''), (''l'', ''b'')]"
proof -
  let ?kvs = "[(''k'', ''a''), (''l'', ''b'')]"
  have "om_ok ?kvs" by (simp add: om_ok_def)
  moreover have "distinct (map fst ?kvs)" by simp
  ultimately show ?thesis
    using map_roundtrip [OF demo_entries demo_map _ _ demo_map, of "\<lambda>u. ?kvs" "map_of ?kvs"] demo_entries by simp
qed

end
