(* ===== verification/Thread.thy ===== *)
theory Thread
  imports Prelude
begin

text \<open>
  Semaphore and Thread (thread.h, thread.cpp): the constructor's handshake with the new thread, join,
  the destructor and setName, as an interleaving of the creating and the created thread. Each step
  touches shared memory once. An access to the Thread object after its destruction is recorded.
\<close>

section \<open>Semaphore\<close>

text \<open>
  sem_init, sem_wait and sem_post; SEM_VALUE_MAX is the bound POSIX gives a count. In Semaphore_wait a
  None is a call that blocks; the argument tells whether a signal handler interrupts sem_wait, which
  then fails, and wait throws.
\<close>

definition SEM_VALUE_MAX :: nat where
  "SEM_VALUE_MAX = 2147483647"

definition Semaphore :: "nat \<Rightarrow> nat res" where
  "Semaphore count = (if count \<le> SEM_VALUE_MAX then Inr count else Inl (Throw (Std_Exception ''sem_init error'')))"

definition Semaphore_wait :: "bool \<Rightarrow> nat \<Rightarrow> nat res option" where
  "Semaphore_wait interrupted n =
     (if interrupted then Some (Inl (Throw (Std_Exception ''sem_wait error''))) else if 0 < n then Some (Inr (n - 1)) else None)"

definition Semaphore_notify :: "nat \<Rightarrow> nat res" where
  "Semaphore_notify n = (if n < SEM_VALUE_MAX then Inr (n + 1) else Inl (Throw (Std_Exception ''sem_post error'')))"

section \<open>Thread\<close>

text \<open>
  The object: m_id is unset until run stores it; \<open>th_thread\<close> is whether m_thread is non-zero.
\<close>

record 'cb thread =
  th_id :: "32 word option"
  th_thread :: bool
  th_cb :: "'cb option"
  th_name :: string
  th_semaphore :: nat

text \<open>Where the creating thread is, and where the created thread is in run.\<close>

datatype creator_pc = Creating | Waiting | Constructed | Joining | Ctor_Failed | Destroyed

datatype child_pc = Not_Started | At_SetThis | At_SetId | At_SetName | At_Swap | At_Notify | Running | Finished

text \<open>
  The whole state. \<open>ts_t_thread\<close> is whether the child's thread-local t_thread points to the object,
  \<open>ts_t_name\<close> the child's t_thread_name, \<open>ts_kernel_name\<close> the name given to the kernel, \<open>ts_local\<close>
  the local cb of run, \<open>ts_dangling\<close> the functions that accessed the object after its end.
\<close>

record 'cb tstate =
  ts_obj :: "'cb thread option"
  ts_creator :: creator_pc
  ts_child :: child_pc
  ts_t_thread :: bool
  ts_t_name :: string
  ts_kernel_name :: string
  ts_local :: "'cb option"
  ts_dangling :: "string list"

text \<open>The member initialisers of the constructor and the test of the name.\<close>

definition Thread_members :: "'cb \<Rightarrow> string \<Rightarrow> 'cb thread" where
  "Thread_members cb name = \<lparr>th_id = None, th_thread = False, th_cb = Some cb,
     th_name = (if name = [] then ''UNKNOW'' else name), th_semaphore = 0\<rparr>"

definition Thread_init :: "'cb \<Rightarrow> string \<Rightarrow> 'cb tstate" where
  "Thread_init cb name = \<lparr>ts_obj = Some (Thread_members cb name), ts_creator = Creating, ts_child = Not_Started,
     ts_t_thread = False, ts_t_name = ''UNKNOW'', ts_kernel_name = [], ts_local = None, ts_dangling = []\<rparr>"

text \<open>An access to the object by a function.\<close>

definition access :: "string \<Rightarrow> ('cb thread \<Rightarrow> 'cb thread) \<Rightarrow> 'cb tstate \<Rightarrow> 'cb tstate" where
  "access who f s = (case ts_obj s of
     Some t \<Rightarrow> s\<lparr>ts_obj := Some (f t)\<rparr> | None \<Rightarrow> s\<lparr>ts_dangling := ts_dangling s @ [who]\<rparr>)"

text \<open>pthread_create, and its failure: the constructor throws, its members are destroyed.\<close>

definition pthread_create_ok :: "'cb tstate \<Rightarrow> 'cb tstate" where
  "pthread_create_ok s = (access ''Thread'' (\<lambda>t. t\<lparr>th_thread := True\<rparr>) s)\<lparr>ts_creator := Waiting, ts_child := At_SetThis\<rparr>"

definition pthread_create_fail :: "'cb tstate \<Rightarrow> 'cb tstate" where
  "pthread_create_fail s = s\<lparr>ts_obj := None, ts_creator := Ctor_Failed\<rparr>"

text \<open>The statements of run, in order.\<close>

definition run_set_this :: "'cb tstate \<Rightarrow> 'cb tstate" where
  "run_set_this s = s\<lparr>ts_t_thread := True, ts_child := At_SetId\<rparr>"

definition run_set_id :: "32 word \<Rightarrow> 'cb tstate \<Rightarrow> 'cb tstate" where
  "run_set_id tid s = (access ''run'' (\<lambda>t. t\<lparr>th_id := Some tid\<rparr>) s)\<lparr>ts_child := At_SetName\<rparr>"

definition run_set_name :: "'cb tstate \<Rightarrow> 'cb tstate" where
  "run_set_name s = (access ''run'' id s)\<lparr>
     ts_kernel_name := (case ts_obj s of Some t \<Rightarrow> take 15 (th_name t) | None \<Rightarrow> []), ts_child := At_Swap\<rparr>"

definition run_swap :: "'cb tstate \<Rightarrow> 'cb tstate" where
  "run_swap s = (access ''run'' (\<lambda>t. t\<lparr>th_cb := None\<rparr>) s)\<lparr>
     ts_local := (case ts_obj s of Some t \<Rightarrow> th_cb t | None \<Rightarrow> None), ts_child := At_Notify\<rparr>"

definition run_notify :: "'cb tstate \<Rightarrow> 'cb tstate" where
  "run_notify s = (access ''run'' (\<lambda>t. t\<lparr>th_semaphore :=
      (case Semaphore_notify (th_semaphore t) of Inr n \<Rightarrow> n | Inl _ \<Rightarrow> th_semaphore t)\<rparr>) s)\<lparr>ts_child := Running\<rparr>"

definition run_return :: "'cb tstate \<Rightarrow> 'cb tstate" where
  "run_return s = s\<lparr>ts_child := Finished\<rparr>"

text \<open>Thread::setName called by the callback.\<close>

definition Thread_setName :: "string \<Rightarrow> 'cb tstate \<Rightarrow> 'cb tstate" where
  "Thread_setName name s = (if ts_t_thread s then access ''setName'' (\<lambda>t. t\<lparr>th_name := name\<rparr>) s else s)\<lparr>ts_t_name := name\<rparr>"

text \<open>Thread::GetThis in the child, whether it is the object or a null pointer; Thread::GetName there.\<close>

definition Thread_GetThis :: "'cb tstate \<Rightarrow> bool" where
  "Thread_GetThis s = ts_t_thread s"


definition Thread_GetName :: "'cb tstate \<Rightarrow> string" where
  "Thread_GetName s = ts_t_name s"

text \<open>
  m_semaphore.wait at the end of the constructor: no step while the count is 0. An exception ends the
  constructor: the members are destroyed, the thread goes on, and the destructor does not run.
\<close>

definition ctor_wait :: "bool \<Rightarrow> 'cb tstate \<Rightarrow> 'cb tstate option" where
  "ctor_wait interrupted s = (case ts_obj s of
     None \<Rightarrow> None
   | Some t \<Rightarrow> map_option (\<lambda>r. case r of
         Inr n \<Rightarrow> s\<lparr>ts_obj := Some (t\<lparr>th_semaphore := n\<rparr>), ts_creator := Constructed\<rparr>
       | Inl _ \<Rightarrow> s\<lparr>ts_obj := None, ts_creator := Ctor_Failed\<rparr>)
       (Semaphore_wait interrupted (th_semaphore t)))"

text \<open>
  join: with m_thread zero nothing but the store of zero; otherwise pthread_join, which returns when
  the child has returned. Its failure leaves m_thread alone and throws.
\<close>

definition join_begin :: "'cb tstate \<Rightarrow> 'cb tstate" where
  "join_begin s = (case ts_obj s of
     Some t \<Rightarrow> if th_thread t then s\<lparr>ts_creator := Joining\<rparr> else s | None \<Rightarrow> s)"

definition join_end :: "'cb tstate \<Rightarrow> 'cb tstate" where
  "join_end s = (access ''join'' (\<lambda>t. t\<lparr>th_thread := False\<rparr>) s)\<lparr>ts_creator := Constructed\<rparr>"

definition join_fail :: "'cb tstate \<Rightarrow> 'cb tstate" where
  "join_fail s = s\<lparr>ts_creator := Constructed\<rparr>"

text \<open>The destructor detaches a thread that was not joined; the object ends.\<close>

definition Thread_dtor :: "'cb tstate \<Rightarrow> 'cb tstate" where
  "Thread_dtor s = s\<lparr>ts_obj := None, ts_creator := Destroyed\<rparr>"

section \<open>The interleaving\<close>

inductive thread_step :: "32 word \<Rightarrow> 'cb tstate \<Rightarrow> 'cb tstate \<Rightarrow> bool" for tid where
  t_create: "ts_creator s = Creating \<Longrightarrow> thread_step tid s (pthread_create_ok s)"
| t_create_fail: "ts_creator s = Creating \<Longrightarrow> thread_step tid s (pthread_create_fail s)"
| t_wait: "ts_creator s = Waiting \<Longrightarrow> ctor_wait interrupted s = Some s' \<Longrightarrow> thread_step tid s s'"
| t_join: "ts_creator s = Constructed \<Longrightarrow> thread_step tid s (join_begin s)"
| t_joined: "ts_creator s = Joining \<Longrightarrow> ts_child s = Finished \<Longrightarrow> thread_step tid s (join_end s)"
| t_join_fail: "ts_creator s = Joining \<Longrightarrow> thread_step tid s (join_fail s)"
| t_dtor: "ts_creator s = Constructed \<Longrightarrow> thread_step tid s (Thread_dtor s)"
| t_set_this: "ts_child s = At_SetThis \<Longrightarrow> thread_step tid s (run_set_this s)"
| t_set_id: "ts_child s = At_SetId \<Longrightarrow> thread_step tid s (run_set_id tid s)"
| t_set_name: "ts_child s = At_SetName \<Longrightarrow> thread_step tid s (run_set_name s)"
| t_swap: "ts_child s = At_Swap \<Longrightarrow> thread_step tid s (run_swap s)"
| t_notify: "ts_child s = At_Notify \<Longrightarrow> thread_step tid s (run_notify s)"
| t_setName: "ts_child s = Running \<Longrightarrow> thread_step tid s (Thread_setName n s)"
| t_return: "ts_child s = Running \<Longrightarrow> thread_step tid s (run_return s)"

inductive thread_reach :: "32 word \<Rightarrow> 'cb \<Rightarrow> string \<Rightarrow> 'cb tstate \<Rightarrow> bool" for tid cb name where
  reach_init: "thread_reach tid cb name (Thread_init cb name)"
| reach_step: "thread_reach tid cb name s \<Longrightarrow> thread_step tid s s' \<Longrightarrow> thread_reach tid cb name s'"

section \<open>The invariant of the handshake\<close>

fun child_rank :: "child_pc \<Rightarrow> nat" where
  "child_rank Not_Started = 0"
| "child_rank At_SetThis = 1"
| "child_rank At_SetId = 2"
| "child_rank At_SetName = 3"
| "child_rank At_Swap = 4"
| "child_rank At_Notify = 5"
| "child_rank Running = 6"
| "child_rank Finished = 7"

text \<open>
  What run has done to the object by the time it is at a given statement. After a failed constructor
  the object is gone, and run, if it was started, goes on without it.
\<close>

definition handshake :: "32 word \<Rightarrow> 'cb \<Rightarrow> 'cb tstate \<Rightarrow> bool" where
  "handshake tid cb s \<longleftrightarrow> (let r = child_rank (ts_child s); c = ts_creator s in
     (c = Creating \<longrightarrow> r = 0) \<and> (r = 0 \<longrightarrow> c \<in> {Creating, Ctor_Failed}) \<and>
     (ts_obj s = None \<longleftrightarrow> c \<in> {Ctor_Failed, Destroyed}) \<and>
     (c \<in> {Constructed, Joining, Destroyed} \<longrightarrow> 6 \<le> r) \<and>
     (c \<noteq> Ctor_Failed \<longrightarrow> 5 \<le> r \<longrightarrow> ts_local s = Some cb) \<and>
     (2 \<le> r \<longrightarrow> ts_t_thread s) \<and>
     (c \<noteq> Ctor_Failed \<longrightarrow> set (ts_dangling s) \<subseteq> {''setName''}) \<and>
     (ts_dangling s \<noteq> [] \<longrightarrow> c \<in> {Destroyed, Ctor_Failed}) \<and>
     (\<forall>t. ts_obj s = Some t \<longrightarrow>
        th_id t = (if 3 \<le> r then Some tid else None) \<and>
        th_cb t = (if 5 \<le> r then None else Some cb) \<and>
        th_semaphore t = (if 6 \<le> r \<and> c = Waiting then 1 else 0) \<and>
        (c = Waiting \<longrightarrow> th_thread t)))"

lemma handshake_init: "handshake tid cb (Thread_init cb name)"
  by (simp add: handshake_def Thread_init_def Thread_members_def)

lemmas thread_defs = pthread_create_ok_def pthread_create_fail_def run_set_this_def run_set_id_def
  run_set_name_def run_swap_def run_notify_def run_return_def Thread_setName_def join_begin_def
  join_end_def join_fail_def Thread_dtor_def access_def

lemma ctor_wait_Some: "ctor_wait interrupted s = Some s' \<longleftrightarrow> (\<exists>t. ts_obj s = Some t \<and>
    (if interrupted then s' = s\<lparr>ts_obj := None, ts_creator := Ctor_Failed\<rparr>
     else 0 < th_semaphore t \<and>
       s' = s\<lparr>ts_obj := Some (t\<lparr>th_semaphore := th_semaphore t - 1\<rparr>), ts_creator := Constructed\<rparr>))"
  by (auto simp: ctor_wait_def Semaphore_wait_def split: option.splits if_splits)

lemma handshake_wait: "ctor_wait interrupted s = Some s' \<Longrightarrow> ts_creator s = Waiting \<Longrightarrow> handshake tid cb s \<Longrightarrow> handshake tid cb s'"
  by (cases interrupted) (auto simp: ctor_wait_Some handshake_def Let_def split: if_splits)

lemma handshake_step:
  assumes "thread_step tid s s'" and "handshake tid cb s"
  shows "handshake tid cb s'"
  using assms(1)
proof (cases rule: thread_step.cases)
  case (t_wait interrupted)
  from handshake_wait [OF t_wait(2,1) assms(2)] show ?thesis .
qed ((use assms(2) in \<open>cases "ts_obj s"; cases "ts_creator s";
  auto simp: handshake_def thread_defs Let_def Semaphore_notify_def SEM_VALUE_MAX_def split: if_splits\<close>)+)

lemma handshake_constructed:
  assumes "handshake tid cb s" and "ts_creator s = Constructed \<or> ts_creator s = Joining"
  shows "6 \<le> child_rank (ts_child s) \<and> ts_local s = Some cb \<and> ts_dangling s = [] \<and>
    (\<exists>t. ts_obj s = Some t \<and> th_id t = Some tid \<and> th_cb t = None \<and> th_semaphore t = 0)"
  using assms by (cases "ts_creator s"; cases "ts_obj s") (simp_all add: handshake_def Let_def)

lemma thread_reach_handshake: "thread_reach tid cb name s \<Longrightarrow> handshake tid cb s"
  by (induction rule: thread_reach.induct) (auto intro: handshake_init handshake_step)


lemma handshake_notifying:
  assumes "handshake tid cb s" and "ts_child s = At_Notify" and "ts_creator s \<noteq> Ctor_Failed"
  shows "ts_creator s = Waiting \<and> (\<exists>t. ts_obj s = Some t)"
  using assms by (cases "ts_creator s"; cases "ts_obj s") (simp_all add: handshake_def Let_def)

text \<open>
  The constructor returns: while it waits, either the semaphore is up or the child can move, and
  every move of the child before the post brings it closer.
\<close>

definition to_notify :: "'cb tstate \<Rightarrow> nat" where
  "to_notify s = 6 - child_rank (ts_child s)"

lemma handshake_waiting:
  assumes hs: "handshake tid cb s" and wait: "ts_creator s = Waiting"
  shows "(\<exists>s'. ctor_wait False s = Some s') \<or> (\<exists>s'. thread_step tid s s' \<and> ts_creator s' = Waiting \<and> to_notify s' < to_notify s)"
proof (cases "6 \<le> child_rank (ts_child s)")
  case True
  with hs wait obtain t where "ts_obj s = Some t" "th_semaphore t = 1"
    by (auto simp: handshake_def Let_def)
  then show ?thesis by (simp add: ctor_wait_def Semaphore_wait_def)
next
  case False
  let ?P = "\<lambda>s'. ts_creator s' = Waiting \<and> to_notify s' < to_notify s"
  from hs wait obtain t where t: "ts_obj s = Some t" by (auto simp: handshake_def Let_def)
  from False hs wait consider "ts_child s = At_SetThis" | "ts_child s = At_SetId" | "ts_child s = At_SetName"
    | "ts_child s = At_Swap" | "ts_child s = At_Notify"
    by (cases "ts_child s") (auto simp: handshake_def Let_def)
  then have "\<exists>s'. thread_step tid s s' \<and> ?P s'"
  proof cases
    case 1
    then show ?thesis by (intro exI [of _ "run_set_this s"] conjI t_set_this) (simp_all add: thread_defs to_notify_def wait)
  next
    case 2
    then show ?thesis by (intro exI [of _ "run_set_id tid s"] conjI t_set_id) (simp_all add: thread_defs to_notify_def wait t)
  next
    case 3
    then show ?thesis by (intro exI [of _ "run_set_name s"] conjI t_set_name) (simp_all add: thread_defs to_notify_def wait t)
  next
    case 4
    then show ?thesis by (intro exI [of _ "run_swap s"] conjI t_swap) (simp_all add: thread_defs to_notify_def wait t)
  next
    case 5
    then show ?thesis by (intro exI [of _ "run_notify s"] conjI t_notify) (simp_all add: thread_defs to_notify_def wait t)
  qed
  then show ?thesis by blast
qed

lemma ctor_can_return:
  assumes "thread_reach tid cb name s" and "ts_creator s = Waiting"
  shows "\<exists>s'. (thread_step tid)\<^sup>*\<^sup>* s s' \<and> ts_creator s' = Constructed"
  using assms
proof (induction "to_notify s" arbitrary: s rule: less_induct)
  case less
  from handshake_waiting [OF thread_reach_handshake [OF less.prems(1)] less.prems(2)]
  show ?case
  proof
    assume "\<exists>s'. ctor_wait False s = Some s'"
    then obtain s' where s': "ctor_wait False s = Some s'" by blast
    have "thread_step tid s s'" by (rule t_wait [OF less.prems(2) s'])
    moreover have "ts_creator s' = Constructed" using s' by (auto simp: ctor_wait_Some)
    ultimately show ?thesis by blast
  next
    assume "\<exists>s'. thread_step tid s s' \<and> ts_creator s' = Waiting \<and> to_notify s' < to_notify s"
    then obtain s' where s': "thread_step tid s s'" "ts_creator s' = Waiting" "to_notify s' < to_notify s" by blast
    from less.hyps [OF s'(3) reach_step [OF less.prems(1) s'(1)] s'(2)] s'(1) show ?thesis
      by (meson converse_rtranclp_into_rtranclp)
  qed
qed

text \<open>Joining: the flag falls only once the callback has returned.\<close>

definition joined_after_run :: "'cb tstate \<Rightarrow> bool" where
  "joined_after_run s \<longleftrightarrow> (\<forall>t. ts_obj s = Some t \<longrightarrow> ts_creator s \<in> {Constructed, Joining} \<longrightarrow>
     \<not> th_thread t \<longrightarrow> ts_child s = Finished)"

lemma joined_step:
  assumes "thread_step tid s s'" and "handshake tid cb s" and "joined_after_run s"
  shows "joined_after_run s'"
  using assms
  by (cases rule: thread_step.cases; cases "ts_obj s"; cases "ts_creator s")
    (auto simp add: joined_after_run_def handshake_def thread_defs Let_def ctor_wait_Some split: if_splits)

lemma thread_reach_joined: "thread_reach tid cb name s \<Longrightarrow> joined_after_run s"
proof (induction rule: thread_reach.induct)
  case reach_init
  show ?case by (simp add: joined_after_run_def Thread_init_def)
next
  case (reach_step s s')
  then show ?case using joined_step [OF reach_step(2) thread_reach_handshake [OF reach_step(1)]] by simp
qed

text \<open>
  The name given to the constructor reaches the object and the kernel; the child's own
  t_thread_name, which the log shows, stays as it was.
\<close>

definition names_inv :: "string \<Rightarrow> 'cb tstate \<Rightarrow> bool" where
  "names_inv name s \<longleftrightarrow> (let r = child_rank (ts_child s) in
     (r \<le> 5 \<longrightarrow> ts_t_name s = ''UNKNOW'' \<and>
        (\<forall>t. ts_obj s = Some t \<longrightarrow> th_name t = (if name = [] then ''UNKNOW'' else name))) \<and>
     (ts_creator s \<noteq> Ctor_Failed \<longrightarrow> 4 \<le> r \<longrightarrow> ts_kernel_name s = take 15 (if name = [] then ''UNKNOW'' else name)))"

lemma names_step:
  assumes "thread_step tid s s'" and "handshake tid cb s" and "names_inv name s"
  shows "names_inv name s'"
  using assms
  by (cases rule: thread_step.cases; cases "ts_obj s"; cases "ts_creator s")
    (auto simp add: names_inv_def handshake_def thread_defs Let_def ctor_wait_Some split: if_splits)

lemma thread_reach_names: "thread_reach tid cb name s \<Longrightarrow> names_inv name s"
proof (induction rule: thread_reach.induct)
  case reach_init
  show ?case by (simp add: names_inv_def Thread_init_def Thread_members_def)
next
  case (reach_step s s')
  then show ?case using names_step [OF reach_step(2) thread_reach_handshake [OF reach_step(1)]] by simp
qed

section \<open>Properties\<close>

text \<open>A run in which the creator constructs the thread and then destroys the object, while the callback goes on.\<close>

definition after_ctor :: "32 word \<Rightarrow> 'cb \<Rightarrow> string \<Rightarrow> 'cb tstate" where
  "after_ctor tid cb name = the (ctor_wait False (run_notify (run_swap (run_set_name (run_set_id tid
     (run_set_this (pthread_create_ok (Thread_init cb name))))))))"

lemma after_ctor_eq:
  "after_ctor tid cb name = \<lparr>ts_obj = Some \<lparr>th_id = Some tid, th_thread = True, th_cb = None,
       th_name = (if name = [] then ''UNKNOW'' else name), th_semaphore = 0\<rparr>,
     ts_creator = Constructed, ts_child = Running, ts_t_thread = True, ts_t_name = ''UNKNOW'',
     ts_kernel_name = take 15 (if name = [] then ''UNKNOW'' else name), ts_local = Some cb, ts_dangling = []\<rparr>"
  by (simp add: after_ctor_def thread_defs Thread_init_def Thread_members_def ctor_wait_def Semaphore_wait_def
      Semaphore_notify_def SEM_VALUE_MAX_def)

lemma notify_reach:
  "thread_reach tid cb name (run_swap (run_set_name (run_set_id tid (run_set_this (pthread_create_ok (Thread_init cb name)))))) \<and>
   ts_child (run_swap (run_set_name (run_set_id tid (run_set_this (pthread_create_ok (Thread_init cb name)))))) = At_Notify"
proof -
  let ?s1 = "pthread_create_ok (Thread_init cb name) :: 'a tstate"
  let ?s2 = "run_set_this ?s1"
  let ?s3 = "run_set_id tid ?s2"
  let ?s4 = "run_set_name ?s3"
  note defs = thread_defs Thread_init_def Thread_members_def
  have 1: "thread_reach tid cb name ?s1" by (rule reach_step [OF reach_init t_create]) (simp add: Thread_init_def)
  have 2: "thread_reach tid cb name ?s2" by (rule reach_step [OF 1 t_set_this]) (simp add: defs)
  have 3: "thread_reach tid cb name ?s3" by (rule reach_step [OF 2 t_set_id]) (simp add: defs)
  have 4: "thread_reach tid cb name ?s4" by (rule reach_step [OF 3 t_set_name]) (simp add: defs)
  have "thread_reach tid cb name (run_swap ?s4)" by (rule reach_step [OF 4 t_swap]) (simp add: defs)
  then show ?thesis by (simp add: run_swap_def)
qed

lemma after_ctor_reach: "thread_reach tid cb name (after_ctor tid cb name)"
proof -
  let ?s5 = "run_swap (run_set_name (run_set_id tid (run_set_this (pthread_create_ok (Thread_init cb name)))))"
  note defs = thread_defs Thread_init_def Thread_members_def
  have 6: "thread_reach tid cb name (run_notify ?s5)"
    using notify_reach [of tid cb name] by (blast intro: reach_step t_notify)
  have "ctor_wait False (run_notify ?s5) = Some (after_ctor tid cb name)"
    by (simp add: after_ctor_def) (simp add: defs ctor_wait_def Semaphore_wait_def Semaphore_notify_def SEM_VALUE_MAX_def)
  then show ?thesis by (intro reach_step [OF 6 t_wait]) (simp_all add: defs)
qed

text \<open>
  C15. The constructor's handshake: in every interleaving, once the constructor has returned and
  until the object ends, the thread's id and kernel name are set, the callback has been moved out of
  the object into the running thread exactly once, the semaphore is back at 0, and nothing has
  accessed the object outside its lifetime.
\<close>

theorem constructed_thread_runs:
  assumes "thread_reach tid cb name s" and "ts_creator s = Constructed \<or> ts_creator s = Joining"
  shows "\<exists>t. ts_obj s = Some t \<and> th_id t = Some tid \<and> th_cb t = None \<and> th_semaphore t = 0 \<and>
    ts_local s = Some cb \<and> (ts_child s = Running \<or> ts_child s = Finished) \<and>
    ts_kernel_name s = take 15 (if name = [] then ''UNKNOW'' else name) \<and> ts_dangling s = []"
proof -
  note hs = thread_reach_handshake [OF assms(1)]
  note con = handshake_constructed [OF hs assms(2)]
  then have ch: "ts_child s = Running \<or> ts_child s = Finished" by (cases "ts_child s") simp_all
  have "ts_creator s \<noteq> Ctor_Failed" using assms(2) by auto
  with thread_reach_names [OF assms(1)] con have "ts_kernel_name s = take 15 (if name = [] then ''UNKNOW'' else name)"
    by (simp add: names_inv_def Let_def)
  with con ch show ?thesis by blast
qed

theorem constructed_thread_runs_witness:
  "thread_reach 7 ''callback'' ''worker'' (after_ctor 7 ''callback'' ''worker'') \<and>
   map_option th_id (ts_obj (after_ctor 7 ''callback'' ''worker'')) = Some (Some 7)"
  using constructed_thread_runs [OF after_ctor_reach [of 7 "''callback''" "''worker''"]] after_ctor_reach [of 7 "''callback''" "''worker''"]
  by (auto simp: after_ctor_eq)

text \<open>
  C36. The constructor cannot be stuck: from every reachable state in which it waits for its
  semaphore, steps of the two threads lead to a state in which it has returned.
\<close>

theorem constructor_can_return:
  assumes "thread_reach tid cb name s" and "ts_creator s = Waiting"
  shows "\<exists>s'. (thread_step tid)\<^sup>*\<^sup>* s s' \<and> ts_creator s' = Constructed"
  using assms by (rule ctor_can_return)

theorem constructor_can_return_witness:
  "\<exists>s'. (thread_step 7)\<^sup>*\<^sup>* (pthread_create_ok (Thread_init ''callback'' [])) s' \<and> ts_creator s' = Constructed"
proof -
  have "thread_reach 7 ''callback'' [] (pthread_create_ok (Thread_init ''callback'' []))"
    by (rule reach_step [OF reach_init t_create]) (simp add: Thread_init_def)
  then show ?thesis by (rule constructor_can_return) (simp add: thread_defs Thread_init_def)
qed

text \<open>
  join waits: in every interleaving, an object that exists, has been constructed, and has its
  thread handle cleared, belongs to a thread whose callback has returned.
\<close>

lemma join_waits:
  assumes "thread_reach tid cb name s" and "ts_obj s = Some t" and "ts_creator s = Constructed" and "\<not> th_thread t"
  shows "ts_child s = Finished"
  using thread_reach_joined [OF assms(1)] assms(2-4) by (simp add: joined_after_run_def)

text \<open>
  A thread that is destroyed without a join is detached, and its callback can then reach the
  destroyed object: setName is the only function of which an interleaving accesses the object after
  its destruction, and there is one that does.
\<close>

lemma detached_setName_dangles:
  "(\<exists>s. thread_reach tid cb name s \<and> ts_dangling s = [''setName'']) \<and>
   (\<forall>s. thread_reach tid cb name s \<longrightarrow> ts_creator s \<noteq> Ctor_Failed \<longrightarrow> set (ts_dangling s) \<subseteq> {''setName''} \<and>
      (ts_dangling s \<noteq> [] \<longrightarrow> ts_creator s = Destroyed))"
proof -
  let ?s1 = "Thread_dtor (after_ctor tid cb name)"
  let ?s2 = "Thread_setName ''late'' ?s1"
  note defs = thread_defs after_ctor_eq
  have 1: "thread_reach tid cb name ?s1" by (rule reach_step [OF after_ctor_reach t_dtor]) (simp add: defs)
  have 2: "thread_reach tid cb name ?s2" by (rule reach_step [OF 1 t_setName]) (simp add: defs)
  have "ts_dangling ?s2 = [''setName'']" by (simp add: defs)
  with 2 have "\<exists>s. thread_reach tid cb name s \<and> ts_dangling s = [''setName'']" by blast
  moreover have "set (ts_dangling s) \<subseteq> {''setName''} \<and> (ts_dangling s \<noteq> [] \<longrightarrow> ts_creator s = Destroyed)"
    if "thread_reach tid cb name s" "ts_creator s \<noteq> Ctor_Failed" for s
    using thread_reach_handshake [OF that(1)] that(2) unfolding handshake_def Let_def by blast
  ultimately show ?thesis by blast
qed

text \<open>
  A signal that interrupts sem_wait makes the constructor throw after the thread has been created: run
  then stores the id into an object that is gone.
\<close>

lemma interrupted_wait_dangles:
  "\<exists>s. thread_reach tid cb name s \<and> ts_creator s = Ctor_Failed \<and> ts_child s = At_SetName \<and> ts_dangling s = [''run'']"
proof -
  let ?s1 = "pthread_create_ok (Thread_init cb name) :: 'a tstate"
  let ?s2 = "run_set_this ?s1"
  let ?s3 = "?s2\<lparr>ts_obj := None, ts_creator := Ctor_Failed\<rparr>"
  note defs = thread_defs Thread_init_def Thread_members_def
  have 1: "thread_reach tid cb name ?s1" by (rule reach_step [OF reach_init t_create]) (simp add: Thread_init_def)
  have 2: "thread_reach tid cb name ?s2" by (rule reach_step [OF 1 t_set_this]) (simp add: defs)
  have "ctor_wait True ?s2 = Some ?s3" by (simp add: ctor_wait_Some defs)
  then have 3: "thread_reach tid cb name ?s3" by (intro reach_step [OF 2 t_wait, of True]) (simp_all add: defs)
  have 4: "thread_reach tid cb name (run_set_id tid ?s3)" by (rule reach_step [OF 3 t_set_id]) (simp add: defs)
  then show ?thesis by (intro exI [of _ "run_set_id tid ?s3"]) (simp add: defs)
qed

end
