(* ===== verification/Thread_Log.thy ===== *)
theory Thread_Log
  imports Thread Log_Api
begin

text \<open>
  Threads and their records: what a record made inside a thread's callback shows as the name of the
  thread (thread.cpp, and the logging macros of log.h, which ask Thread::GetName).
\<close>

text \<open>The world as the macros see it inside the callback of a thread.\<close>

definition in_thread :: "32 word \<Rightarrow> 'cb tstate \<Rightarrow> world \<Rightarrow> world" where
  "in_thread tid s w = w\<lparr>w_tid := tid, w_tname := Thread_GetName s\<rparr>"


lemma in_thread_fields [simp]:
  "w_loggers (in_thread tid s w) = w_loggers w" "w_appenders (in_thread tid s w) = w_appenders w"
  "w_stdout (in_thread tid s w) = w_stdout w" "w_strftime (in_thread tid s w) = w_strftime w" "w_now (in_thread tid s w) = w_now w"
  by (simp_all add: in_thread_def)




end
