(* ===== verification/Fiber.thy ===== *)
theory Fiber
  imports Prelude
begin

text \<open>
  Fiber (fiber.h, fiber.cpp): the fibers of one thread as a machine whose control is a continuation.
  A ucontext_t is the continuation it resumes; swapcontext stores the running continuation and
  resumes another. The code a fiber or the thread runs is a list of actions, the calls the class
  offers and an output action to observe the order. The heap keeps None for a destroyed fiber.
\<close>

section \<open>State\<close>

datatype State = STATE_INIT | STATE_HOLD | STATE_EXEC | STATE_TERM | STATE_READY | STATE_EXCEPT

text \<open>\<open>Drop n\<close>: the last shared pointer to fiber n outside the fiber machinery goes away.\<close>

datatype action =
    Emit string
  | GetThis_call
  | New_Fiber "action list option" "64 word"
  | SwapIn nat
  | YieldToHold_call
  | YieldToReady_call
  | Reset nat "action list option"
  | Drop nat
  | Raise exn

type_synonym cb = "action list option"

text \<open>
  A point in the code: the thread's own code; the entry of MainFunc; the callback of a fiber, called
  by the MainFunc whose \<open>cur\<close> is that fiber; the end of MainFunc, after its swapOut.
\<close>

datatype cont =
    In_Main "action list"
  | At_MainFunc
  | In_Fiber nat "action list"
  | After_Out nat

text \<open>A context that getcontext filled in a constructor points into that constructor.\<close>

datatype context_t = In_Ctor | Resume cont

record fiber =
  fb_id :: "64 word"
  fb_stack_size :: "32 word"
  fb_state :: State
  fb_ctx :: context_t
  fb_stack :: bool
  fb_cb :: cb
  fb_owned :: bool

record fstate =
  fs_fibers :: "fiber option list"
  fs_t_fiber :: "nat option"
  fs_threadFiber :: "nat option"
  fs_fiber_id :: "64 word"
  fs_fiber_count :: "64 word"
  fs_conf_size :: "32 word"
  fs_control :: cont
  fs_out :: "string list"

definition fiber_at :: "fstate \<Rightarrow> nat \<Rightarrow> fiber option" where
  "fiber_at s n = (if n < length (fs_fibers s) then fs_fibers s ! n else None)"

definition put_fiber :: "nat \<Rightarrow> fiber option \<Rightarrow> fstate \<Rightarrow> fstate" where
  "put_fiber n f s = s\<lparr>fs_fibers := (fs_fibers s)[n := f]\<rparr>"

text \<open>The thread at its start; the configured stack size is the value of "fiber.stack_size".\<close>

definition thread_start :: "action list \<Rightarrow> 32 word \<Rightarrow> fstate" where
  "thread_start code conf_size = \<lparr>fs_fibers = [], fs_t_fiber = None, fs_threadFiber = None, fs_fiber_id = 0,
     fs_fiber_count = 0, fs_conf_size = conf_size, fs_control = In_Main code, fs_out = []\<rparr>"

section \<open>Operations\<close>

definition SetThis :: "nat option \<Rightarrow> fstate \<Rightarrow> fstate" where
  "SetThis f s = s\<lparr>fs_t_fiber := f\<rparr>"

definition GetFiberId :: "fstate \<Rightarrow> 64 word" where
  "GetFiberId s = (case fs_t_fiber s of
     None \<Rightarrow> 0 | Some n \<Rightarrow> (case fiber_at s n of None \<Rightarrow> 0 | Some f \<Rightarrow> fb_id f))"

definition TotalFibers :: "fstate \<Rightarrow> 64 word" where
  "TotalFibers s = fs_fiber_count s"

text \<open>The private constructor: the thread's main fiber.\<close>

definition Fiber_main :: "fstate \<Rightarrow> nat \<times> fstate" where
  "Fiber_main s = (let n = length (fs_fibers s) in
     (n, (SetThis (Some n) s)\<lparr>
        fs_fibers := fs_fibers s @ [Some \<lparr>fb_id = 0, fb_stack_size = 0, fb_state = STATE_EXEC, fb_ctx = In_Ctor,
          fb_stack = False, fb_cb = None, fb_owned = True\<rparr>],
        fs_fiber_count := fs_fiber_count s + 1\<rparr>))"

text \<open>The constructor with a callback; m_stack_size is 32 bits wide.\<close>

definition Fiber_new :: "cb \<Rightarrow> 64 word \<Rightarrow> fstate \<Rightarrow> fstate" where
  "Fiber_new cb stack_size s =
     (let i = fs_fiber_id s + 1;
          size = (if stack_size \<noteq> 0 then ucast stack_size else fs_conf_size s)
      in s\<lparr>fs_fiber_id := i, fs_fiber_count := fs_fiber_count s + 1,
           fs_fibers := fs_fibers s @ [Some \<lparr>fb_id = i, fb_stack_size = size, fb_state = STATE_INIT,
             fb_ctx = Resume At_MainFunc, fb_stack = True, fb_cb = cb, fb_owned = True\<rparr>]\<rparr>)"

definition GetThis :: "fstate \<Rightarrow> nat \<times> fstate" where
  "GetThis s = (case fs_t_fiber s of
     Some n \<Rightarrow> (n, s)
   | None \<Rightarrow> (case Fiber_main s of (n, s1) \<Rightarrow> (n, s1\<lparr>fs_threadFiber := Some n\<rparr>)))"

definition finished :: "State \<Rightarrow> bool" where
  "finished st \<longleftrightarrow> st = STATE_TERM \<or> st = STATE_EXCEPT \<or> st = STATE_INIT"

definition Fiber_dtor :: "nat \<Rightarrow> fstate \<Rightarrow> fstate res" where
  "Fiber_dtor n s0 = (let s = s0\<lparr>fs_fiber_count := fs_fiber_count s0 - 1\<rparr> in
     case fiber_at s n of
       None \<Rightarrow> Inl (Unspecified ''use after free'')
     | Some f \<Rightarrow>
         if fb_stack f then
           if \<not> finished (fb_state f) then Inl (Assert_Fail ''~Fiber: m_state'') else Inr (put_fiber n None s)
         else if fb_cb f \<noteq> None then Inl (Assert_Fail ''!m_cb'')
         else if fb_state f \<noteq> STATE_EXEC then Inl (Assert_Fail ''m_state == STATE_EXEC'')
         else Inr (put_fiber n None (if fs_t_fiber s = Some n then SetThis None s else s)))"

definition Fiber_reset :: "nat \<Rightarrow> cb \<Rightarrow> fstate \<Rightarrow> fstate res" where
  "Fiber_reset n cb s = (case fiber_at s n of
     None \<Rightarrow> Inl (Unspecified ''use after free'')
   | Some f \<Rightarrow>
       if \<not> fb_stack f then Inl (Assert_Fail ''m_stack'')
       else if \<not> finished (fb_state f) then Inl (Assert_Fail ''reset: m_state'')
       else Inr (put_fiber n (Some (f\<lparr>fb_cb := cb, fb_ctx := Resume At_MainFunc, fb_state := STATE_INIT\<rparr>)) s))"

text \<open>
  swapcontext (save, load): the running continuation goes into the context of fiber \<open>save\<close>, then the
  context of fiber \<open>load\<close> is resumed.
\<close>

definition swapcontext :: "nat \<Rightarrow> nat \<Rightarrow> cont \<Rightarrow> fstate \<Rightarrow> fstate res" where
  "swapcontext save load k s = (case fiber_at s save of
     None \<Rightarrow> Inl (Unspecified ''use after free'')
   | Some f \<Rightarrow> (let s1 = put_fiber save (Some (f\<lparr>fb_ctx := Resume k\<rparr>)) s in
       case fiber_at s1 load of
         None \<Rightarrow> Inl (Unspecified ''use after free'')
       | Some g \<Rightarrow> (case fb_ctx g of
           In_Ctor \<Rightarrow> Inl (Unspecified ''context of a constructor that returned'')
         | Resume k' \<Rightarrow> Inr (s1\<lparr>fs_control := k'\<rparr>))))"

text \<open>swapIn, called at a point that continues with \<open>k\<close>.\<close>

definition swapIn :: "nat \<Rightarrow> cont \<Rightarrow> fstate \<Rightarrow> fstate res" where
  "swapIn n k s0 = (let s = SetThis (Some n) s0 in
     case fiber_at s n of
       None \<Rightarrow> Inl (Unspecified ''use after free'')
     | Some f \<Rightarrow>
         if fb_state f = STATE_EXEC then Inl (Assert_Fail ''m_state != STATE_EXEC'')
         else (case fs_threadFiber s of
             None \<Rightarrow> Inl (Null_Deref ''t_threadFiber'')
           | Some m \<Rightarrow> swapcontext m n k (put_fiber n (Some (f\<lparr>fb_state := STATE_EXEC\<rparr>)) s)))"

definition swapOut :: "nat \<Rightarrow> cont \<Rightarrow> fstate \<Rightarrow> fstate res" where
  "swapOut n k s = (let s1 = SetThis (fs_threadFiber s) s in
     case fs_threadFiber s of
       None \<Rightarrow> Inl (Null_Deref ''t_threadFiber'')
     | Some m \<Rightarrow> swapcontext n m k s1)"

text \<open>YieldToHold and YieldToReady differ in the state they set.\<close>

definition Yield :: "State \<Rightarrow> cont \<Rightarrow> fstate \<Rightarrow> fstate res" where
  "Yield st k s0 = (case GetThis s0 of (cur, s) \<Rightarrow> (case fiber_at s cur of
     None \<Rightarrow> Inl (Unspecified ''use after free'')
   | Some f \<Rightarrow>
       if fb_state f \<noteq> STATE_EXEC then Inl (Assert_Fail ''cur->m_state == STATE_EXEC'')
       else swapOut cur k (put_fiber cur (Some (f\<lparr>fb_state := st\<rparr>)) s)))"

definition YieldToHold :: "cont \<Rightarrow> fstate \<Rightarrow> fstate res" where
  "YieldToHold = Yield STATE_HOLD"

definition YieldToReady :: "cont \<Rightarrow> fstate \<Rightarrow> fstate res" where
  "YieldToReady = Yield STATE_READY"

text \<open>
  The tail of MainFunc: \<open>cur\<close> is given up, which destroys the fiber when nobody else holds it, and
  the raw pointer is used to swap out.
\<close>

definition MainFunc_leave :: "nat \<Rightarrow> fstate \<Rightarrow> fstate res" where
  "MainFunc_leave cur s = (case fiber_at s cur of
     None \<Rightarrow> Inl (Unspecified ''use after free'')
   | Some f \<Rightarrow> rbind (if fb_owned f then Inr s else Fiber_dtor cur s) (swapOut cur (After_Out cur)))"

definition MainFunc_return :: "nat \<Rightarrow> fstate \<Rightarrow> fstate res" where
  "MainFunc_return cur s = (case fiber_at s cur of
     None \<Rightarrow> Inl (Unspecified ''use after free'')
   | Some f \<Rightarrow> MainFunc_leave cur (put_fiber cur (Some (f\<lparr>fb_cb := None, fb_state := STATE_TERM\<rparr>)) s))"

definition MainFunc_catch :: "nat \<Rightarrow> fstate \<Rightarrow> fstate res" where
  "MainFunc_catch cur s = (case fiber_at s cur of
     None \<Rightarrow> Inl (Unspecified ''use after free'')
   | Some f \<Rightarrow> MainFunc_leave cur (put_fiber cur (Some (f\<lparr>fb_state := STATE_EXCEPT\<rparr>)) s))"

text \<open>The entry of MainFunc; calling an empty std::function throws.\<close>

definition MainFunc_enter :: "fstate \<Rightarrow> fstate res" where
  "MainFunc_enter s0 = (case GetThis s0 of (cur, s) \<Rightarrow> (case fiber_at s cur of
     None \<Rightarrow> Inl (Unspecified ''use after free'')
   | Some f \<Rightarrow> (case fb_cb f of
       Some acts \<Rightarrow> Inr (s\<lparr>fs_control := In_Fiber cur acts\<rparr>)
     | None \<Rightarrow> MainFunc_catch cur s)))"

text \<open>Dropping the last outer pointer: a fiber on whose stack MainFunc or a yield holds it stays.\<close>

definition drop_fiber :: "nat \<Rightarrow> fstate \<Rightarrow> fstate res" where
  "drop_fiber n s = (case fiber_at s n of
     None \<Rightarrow> Inl (Unspecified ''use after free'')
   | Some f \<Rightarrow>
       if finished (fb_state f) then Fiber_dtor n s
       else Inr (put_fiber n (Some (f\<lparr>fb_owned := False\<rparr>)) s))"

text \<open>One action, at a point that continues with \<open>k\<close>.\<close>

fun perform :: "action \<Rightarrow> cont \<Rightarrow> fstate \<Rightarrow> fstate res" where
  "perform (Emit x) k s = Inr (s\<lparr>fs_out := fs_out s @ [x], fs_control := k\<rparr>)"
| "perform GetThis_call k s = Inr ((snd (GetThis s))\<lparr>fs_control := k\<rparr>)"
| "perform (New_Fiber cb sz) k s = Inr ((Fiber_new cb sz s)\<lparr>fs_control := k\<rparr>)"
| "perform (SwapIn n) k s = swapIn n k s"
| "perform YieldToHold_call k s = YieldToHold k s"
| "perform YieldToReady_call k s = YieldToReady k s"
| "perform (Reset n cb) k s = rbind (Fiber_reset n cb s) (\<lambda>s1. Inr (s1\<lparr>fs_control := k\<rparr>))"
| "perform (Drop n) k s = rbind (drop_fiber n s) (\<lambda>s1. Inr (s1\<lparr>fs_control := k\<rparr>))"
| "perform (Raise e) k s = (case k of In_Fiber n _ \<Rightarrow> MainFunc_catch n s | _ \<Rightarrow> Inl (Throw e))"

text \<open>One step of the thread; its own code at the end is the end of the run.\<close>

definition fiber_step :: "fstate \<Rightarrow> fstate res" where
  "fiber_step s = (case fs_control s of
     In_Main [] \<Rightarrow> Inr s
   | In_Main (a # as) \<Rightarrow> perform a (In_Main as) s
   | At_MainFunc \<Rightarrow> MainFunc_enter s
   | In_Fiber n [] \<Rightarrow> MainFunc_return n s
   | In_Fiber n (a # as) \<Rightarrow> perform a (In_Fiber n as) s
   | After_Out n \<Rightarrow> Inl (Assert_Fail ''never reach here''))"

fun fiber_run :: "nat \<Rightarrow> fstate \<Rightarrow> fstate res" where
  "fiber_run 0 s = Inr s"
| "fiber_run (Suc n) s = rbind (fiber_step s) (fiber_run n)"

lemma fiber_run_add: "fiber_run (m + n) s = rbind (fiber_run m s) (fiber_run n)"
  by (induction m arbitrary: s) (simp_all add: rbind_assoc fun_eq_iff cong: rbind_cong)


section \<open>Access to the heap\<close>

lemma fiber_at_put [simp]:
  "fiber_at s n = Some g \<Longrightarrow> fiber_at (put_fiber n f s) m = (if m = n then f else fiber_at s m)"
  by (auto simp: fiber_at_def put_fiber_def split: if_splits)

lemma fiber_at_fields [simp]:
  "fiber_at (s\<lparr>fs_t_fiber := t\<rparr>) n = fiber_at s n" "fiber_at (s\<lparr>fs_threadFiber := u\<rparr>) n = fiber_at s n"
  "fiber_at (s\<lparr>fs_control := k\<rparr>) n = fiber_at s n" "fiber_at (s\<lparr>fs_out := xs\<rparr>) n = fiber_at s n"
  "fiber_at (s\<lparr>fs_fiber_count := c\<rparr>) n = fiber_at s n" "fiber_at (s\<lparr>fs_fiber_id := i\<rparr>) n = fiber_at s n"
  by (simp_all add: fiber_at_def)

lemma put_fiber_fields [simp]:
  "fs_t_fiber (put_fiber n f s) = fs_t_fiber s" "fs_threadFiber (put_fiber n f s) = fs_threadFiber s"
  "fs_control (put_fiber n f s) = fs_control s" "fs_out (put_fiber n f s) = fs_out s"
  "fs_fiber_count (put_fiber n f s) = fs_fiber_count s" "fs_fiber_id (put_fiber n f s) = fs_fiber_id s"
  by (simp_all add: put_fiber_def)

lemma fiber_at_new: "fiber_at (Fiber_new cb sz s) n =
    (if n = length (fs_fibers s) then Some \<lparr>fb_id = fs_fiber_id s + 1,
       fb_stack_size = (if sz \<noteq> 0 then ucast sz else fs_conf_size s), fb_state = STATE_INIT,
       fb_ctx = Resume At_MainFunc, fb_stack = True, fb_cb = cb, fb_owned = True\<rparr> else fiber_at s n)"
  by (auto simp: fiber_at_def Fiber_new_def Let_def nth_append)

lemma Fiber_new_fields [simp]:
  "fs_t_fiber (Fiber_new cb sz s) = fs_t_fiber s" "fs_threadFiber (Fiber_new cb sz s) = fs_threadFiber s"
  "fs_control (Fiber_new cb sz s) = fs_control s" "fs_out (Fiber_new cb sz s) = fs_out s"
  by (simp_all add: Fiber_new_def Let_def)

section \<open>The discipline under which the states mean what they say\<close>

text \<open>
  The thread's own code swaps into sub-fibers that can run, does not yield and does not throw; a
  sub-fiber does not swap into another. Only fibers that are not suspended are reset or dropped.
\<close>

definition can_run :: "State \<Rightarrow> bool" where
  "can_run st \<longleftrightarrow> st = STATE_INIT \<or> st = STATE_HOLD \<or> st = STATE_READY"

definition sub_fiber :: "fstate \<Rightarrow> nat \<Rightarrow> (State \<Rightarrow> bool) \<Rightarrow> bool" where
  "sub_fiber s n P \<longleftrightarrow> n \<noteq> 0 \<and> (\<exists>f. fiber_at s n = Some f \<and> P (fb_state f))"

fun allowed_main :: "fstate \<Rightarrow> action \<Rightarrow> bool" where
  "allowed_main s (SwapIn n) = sub_fiber s n can_run"
| "allowed_main s (Reset n _) = sub_fiber s n finished"
| "allowed_main s (Drop n) = sub_fiber s n finished"
| "allowed_main s (Emit _) = True"
| "allowed_main s GetThis_call = True"
| "allowed_main s (New_Fiber _ _) = True"
| "allowed_main s _ = False"

fun allowed_fiber :: "fstate \<Rightarrow> action \<Rightarrow> bool" where
  "allowed_fiber s (SwapIn n) = False"
| "allowed_fiber s (Reset n _) = sub_fiber s n finished"
| "allowed_fiber s (Drop n) = sub_fiber s n finished"
| "allowed_fiber s _ = True"

definition disciplined :: "fstate \<Rightarrow> bool" where
  "disciplined s \<longleftrightarrow> (case fs_control s of
     In_Main (a # _) \<Rightarrow> allowed_main s a | In_Fiber _ (a # _) \<Rightarrow> allowed_fiber s a | _ \<Rightarrow> True)"

text \<open>What a saved context resumes, by the state of its fiber.\<close>

definition ctx_fits :: "nat \<Rightarrow> fiber \<Rightarrow> bool" where
  "ctx_fits n f \<longleftrightarrow>
     (fb_state f = STATE_INIT \<longrightarrow> fb_ctx f = Resume At_MainFunc) \<and>
     (fb_state f = STATE_HOLD \<or> fb_state f = STATE_READY \<longrightarrow> (\<exists>as. fb_ctx f = Resume (In_Fiber n as))) \<and>
     (fb_state f = STATE_TERM \<or> fb_state f = STATE_EXCEPT \<longrightarrow> fb_ctx f = Resume (After_Out n)) \<and>
     (\<forall>as. fb_ctx f \<noteq> Resume (In_Main as))"

text \<open>The running fiber, by the point of control.\<close>

definition runs :: "cont \<Rightarrow> nat \<Rightarrow> bool" where
  "runs k cur \<longleftrightarrow> (case k of In_Main _ \<Rightarrow> cur = 0 | At_MainFunc \<Rightarrow> cur \<noteq> 0 | In_Fiber n _ \<Rightarrow> n = cur \<and> cur \<noteq> 0
     | After_Out _ \<Rightarrow> False)"

definition fiber_inv :: "fstate \<Rightarrow> bool" where
  "fiber_inv s \<longleftrightarrow> fs_threadFiber s = Some 0 \<and>
     (\<exists>m. fiber_at s 0 = Some m \<and> \<not> fb_stack m \<and> fb_state m = STATE_EXEC \<and> fb_cb m = None \<and>
       (fs_t_fiber s \<noteq> Some 0 \<longrightarrow> (\<exists>as. fb_ctx m = Resume (In_Main as)))) \<and>
     fs_t_fiber s \<noteq> None \<and>
     (\<forall>cur. fs_t_fiber s = Some cur \<longrightarrow> runs (fs_control s) cur \<and> fiber_at s cur \<noteq> None) \<and>
     (\<forall>n f. n \<noteq> 0 \<longrightarrow> fiber_at s n = Some f \<longrightarrow>
        fb_stack f \<and> fb_owned f \<and> (fb_state f = STATE_EXEC \<longleftrightarrow> fs_t_fiber s = Some n) \<and> ctx_fits n f)"

lemma fiber_inv_sub:
  "fiber_inv s \<Longrightarrow> n \<noteq> 0 \<Longrightarrow> fiber_at s n = Some f \<Longrightarrow>
     fb_stack f \<and> fb_owned f \<and> (fb_state f = STATE_EXEC \<longleftrightarrow> fs_t_fiber s = Some n) \<and> ctx_fits n f"
  by (simp add: fiber_inv_def)

text \<open>Steps that stay in the running fiber.\<close>

lemma fiber_inv_control:
  "fiber_inv s \<Longrightarrow> fs_t_fiber s = Some cur \<Longrightarrow> runs k cur \<Longrightarrow> fiber_inv (s\<lparr>fs_control := k\<rparr>)"
  by (simp add: fiber_inv_def)

lemma fiber_inv_out: "fiber_inv s \<Longrightarrow> fiber_inv (s\<lparr>fs_out := xs\<rparr>)"
  by (simp add: fiber_inv_def)

lemma fiber_inv_count: "fiber_inv s \<Longrightarrow> fiber_inv (s\<lparr>fs_fiber_count := c\<rparr>)"
  by (simp add: fiber_inv_def)

lemma fiber_inv_new: "fiber_inv s \<Longrightarrow> fiber_inv (Fiber_new cb sz s)"
proof -
  assume inv: "fiber_inv s"
  let ?n = "length (fs_fibers s)"
  have none: "fiber_at s ?n = None" by (simp add: fiber_at_def)
  from inv obtain cur where cur: "fs_t_fiber s = Some cur" "fiber_at s cur \<noteq> None"
    by (auto simp: fiber_inv_def split: option.splits)
  from inv obtain m where m: "fiber_at s 0 = Some m" by (auto simp: fiber_inv_def)
  have ne: "?n \<noteq> 0" "cur \<noteq> ?n" using none cur m by auto
  then have "fiber_at (Fiber_new cb sz s) 0 = fiber_at s 0" "fiber_at (Fiber_new cb sz s) cur = fiber_at s cur"
    by (simp_all add: fiber_at_new)
  with inv ne cur(1) show ?thesis by (auto simp: fiber_inv_def fiber_at_new ctx_fits_def)
qed

lemma fiber_inv_put:
  assumes inv: "fiber_inv s" and n: "n \<noteq> 0" "fiber_at s n = Some g" and nr: "fs_t_fiber s \<noteq> Some n"
    and f: "\<And>f'. f = Some f' \<Longrightarrow> fb_stack f' \<and> fb_owned f' \<and> fb_state f' \<noteq> STATE_EXEC \<and> ctx_fits n f'"
  shows "fiber_inv (put_fiber n f s)"
  using assms unfolding fiber_inv_def by (auto split: if_splits)

lemma GetThis_inv: "fiber_inv s \<Longrightarrow> fs_t_fiber s = Some cur \<Longrightarrow> GetThis s = (cur, s)"
  by (simp add: GetThis_def)

lemma finished_not_running:
  "fiber_inv s \<Longrightarrow> sub_fiber s n finished \<Longrightarrow>
     \<exists>f. n \<noteq> 0 \<and> fiber_at s n = Some f \<and> finished (fb_state f) \<and> fb_stack f \<and> fs_t_fiber s \<noteq> Some n"
  by (auto simp: sub_fiber_def finished_def dest: fiber_inv_sub)

lemma reset_inv:
  assumes inv: "fiber_inv s" and sub: "sub_fiber s n finished"
  shows "\<exists>s'. Fiber_reset n cb s = Inr s' \<and> fiber_inv s' \<and> fs_t_fiber s' = fs_t_fiber s"
proof -
  from finished_not_running [OF assms] obtain f where f: "n \<noteq> 0" "fiber_at s n = Some f" "finished (fb_state f)" "fb_stack f"
    "fs_t_fiber s \<noteq> Some n" by blast
  let ?f = "f\<lparr>fb_cb := cb, fb_ctx := Resume At_MainFunc, fb_state := STATE_INIT\<rparr>"
  have "fb_owned f" using fiber_inv_sub [OF inv f(1,2)] by simp
  then have "fiber_inv (put_fiber n (Some ?f) s)"
    using f by (intro fiber_inv_put [OF inv f(1,2,5)]) (auto simp: ctx_fits_def)
  with f show ?thesis by (simp add: Fiber_reset_def)
qed

lemma drop_inv:
  assumes inv: "fiber_inv s" and sub: "sub_fiber s n finished"
  shows "\<exists>s'. drop_fiber n s = Inr s' \<and> fiber_inv s' \<and> fs_t_fiber s' = fs_t_fiber s"
proof -
  from finished_not_running [OF assms] obtain f where f: "n \<noteq> 0" "fiber_at s n = Some f" "finished (fb_state f)" "fb_stack f"
    "fs_t_fiber s \<noteq> Some n" by blast
  let ?s = "s\<lparr>fs_fiber_count := fs_fiber_count s - 1\<rparr>"
  have "fiber_inv (put_fiber n None ?s)"
    using f by (intro fiber_inv_put [OF fiber_inv_count [OF inv] f(1)]) auto
  with f show ?thesis by (simp add: drop_fiber_def Fiber_dtor_def)
qed


section \<open>Switches keep the invariant\<close>

lemma fiber_inv_main: "fiber_inv s \<Longrightarrow> \<exists>m. fiber_at s 0 = Some m \<and> \<not> fb_stack m \<and> fb_state m = STATE_EXEC \<and> fb_cb m = None"
  by (auto simp: fiber_inv_def)

lemma fiber_inv_thread: "fiber_inv s \<Longrightarrow> fs_threadFiber s = Some 0"
  by (simp add: fiber_inv_def)

lemma ctx_can_run:
  "ctx_fits n f \<Longrightarrow> can_run (fb_state f) \<Longrightarrow> \<exists>k. fb_ctx f = Resume k \<and> (n \<noteq> 0 \<longrightarrow> runs k n)"
  by (auto simp: ctx_fits_def can_run_def runs_def)

text \<open>The thread's own code swaps in a fiber that can run.\<close>

lemma swapIn_inv:
  assumes inv: "fiber_inv s" and run: "fs_t_fiber s = Some 0" and sub: "sub_fiber s n can_run"
  shows "\<exists>s'. swapIn n (In_Main as) s = Inr s' \<and> fiber_inv s' \<and> fs_t_fiber s' = Some n"
proof -
  from sub obtain f where n: "n \<noteq> 0" and f: "fiber_at s n = Some f" "can_run (fb_state f)"
    by (auto simp: sub_fiber_def)
  from fiber_inv_sub [OF inv n f(1)] have fits: "ctx_fits n f" "fb_stack f" "fb_owned f" by auto
  from ctx_can_run [OF fits(1) f(2)] n obtain k where k: "fb_ctx f = Resume k" "runs k n" by blast
  from fiber_inv_main [OF inv] obtain m where m: "fiber_at s 0 = Some m" "\<not> fb_stack m" "fb_state m = STATE_EXEC" "fb_cb m = None"
    by blast
  from f(2) have ne: "fb_state f \<noteq> STATE_EXEC" by (auto simp: can_run_def)
  let ?s1 = "SetThis (Some n) s"
  let ?s2 = "put_fiber n (Some (f\<lparr>fb_state := STATE_EXEC\<rparr>)) ?s1"
  let ?s3 = "put_fiber 0 (Some (m\<lparr>fb_ctx := Resume (In_Main as)\<rparr>)) ?s2"
  let ?s4 = "?s3\<lparr>fs_control := k\<rparr>"
  have f1: "fiber_at ?s1 n = Some f" using f by (simp add: SetThis_def)
  have m2: "fiber_at ?s2 0 = Some m" using m f1 n by (simp add: SetThis_def)
  have at: "fiber_at ?s4 j = (if j = 0 then Some (m\<lparr>fb_ctx := Resume (In_Main as)\<rparr>)
      else if j = n then Some (f\<lparr>fb_state := STATE_EXEC\<rparr>) else fiber_at s j)" for j
    using f1 m2 by (simp add: SetThis_def)
  have "swapIn n (In_Main as) s = Inr ?s4"
    using f1 m2 n k ne fiber_inv_thread [OF inv] by (simp add: swapIn_def swapcontext_def Let_def SetThis_def)
  moreover have "fs_t_fiber ?s4 = Some n" "fs_threadFiber ?s4 = Some 0"
    using fiber_inv_thread [OF inv] by (simp_all add: SetThis_def)
  moreover have "fb_stack g \<and> fb_owned g \<and> (fb_state g = STATE_EXEC \<longleftrightarrow> j = n) \<and> ctx_fits j g"
    if "j \<noteq> 0" "fiber_at ?s4 j = Some g" for j g
  proof (cases "j = n")
    case True
    with that(2) n have "g = f\<lparr>fb_state := STATE_EXEC\<rparr>" unfolding at by simp
    with True fits show ?thesis by (simp add: ctx_fits_def)
  next
    case False
    with that have "fiber_at s j = Some g" unfolding at by simp
    from fiber_inv_sub [OF inv that(1) this] False that(1) run show ?thesis by simp
  qed
  moreover have "fs_control ?s4 = k" by simp
  moreover have "fiber_at ?s4 0 = Some (m\<lparr>fb_ctx := Resume (In_Main as)\<rparr>)" "fiber_at ?s4 n \<noteq> None"
    using n unfolding at by simp_all
  ultimately show ?thesis
    using k(2) n m unfolding fiber_inv_def by (intro exI [of _ ?s4]) auto
qed

text \<open>The running sub-fiber gives control back, in a new state and at a new point.\<close>

lemma swapOut_inv:
  assumes inv: "fiber_inv s" and run: "fs_t_fiber s = Some n" "n \<noteq> 0" and f: "fiber_at s n = Some f"
    and st: "st \<noteq> STATE_EXEC" and fits: "ctx_fits n (f\<lparr>fb_cb := cb, fb_state := st, fb_ctx := Resume k\<rparr>)"
  shows "\<exists>s' as. swapOut n k (put_fiber n (Some (f\<lparr>fb_cb := cb, fb_state := st\<rparr>)) s) = Inr s' \<and> fiber_inv s' \<and>
    fs_t_fiber s' = Some 0 \<and> fs_control s' = In_Main as \<and> fs_out s' = fs_out s \<and>
    fiber_at s' n = Some (f\<lparr>fb_cb := cb, fb_state := st, fb_ctx := Resume k\<rparr>)"
proof -
  from inv run obtain m as where m: "fiber_at s 0 = Some m" "\<not> fb_stack m" "fb_state m = STATE_EXEC" "fb_cb m = None"
    and ctx: "fb_ctx m = Resume (In_Main as)" unfolding fiber_inv_def by fastforce
  let ?s1 = "SetThis (Some 0) (put_fiber n (Some (f\<lparr>fb_cb := cb, fb_state := st\<rparr>)) s)"
  let ?f = "f\<lparr>fb_cb := cb, fb_state := st, fb_ctx := Resume k\<rparr>"
  let ?s2 = "(put_fiber n (Some ?f) ?s1)\<lparr>fs_control := In_Main as\<rparr>"
  have f1: "fiber_at ?s1 n = Some (f\<lparr>fb_cb := cb, fb_state := st\<rparr>)" using f by (simp add: SetThis_def)
  have at: "fiber_at ?s2 j = (if j = n then Some ?f else fiber_at s j)" for j
    using f1 f by (simp add: SetThis_def)
  have sw: "swapOut n k (put_fiber n (Some (f\<lparr>fb_cb := cb, fb_state := st\<rparr>)) s) = Inr ?s2"
    using f1 m(1) run(2) ctx f fiber_inv_thread [OF inv]
    by (simp add: swapOut_def swapcontext_def Let_def SetThis_def)
  have tf: "fs_t_fiber ?s2 = Some 0" "fs_threadFiber ?s2 = Some 0"
    using fiber_inv_thread [OF inv] by (simp_all add: SetThis_def)
  moreover have "fb_stack g \<and> fb_owned g \<and> fb_state g \<noteq> STATE_EXEC \<and> ctx_fits j g"
    if "j \<noteq> 0" "fiber_at ?s2 j = Some g" for j g
  proof (cases "j = n")
    case True
    with that(2) have "g = ?f" unfolding at by simp
    with True st fits fiber_inv_sub [OF inv run(2) f] show ?thesis by simp
  next
    case False
    with that(2) have "fiber_at s j = Some g" unfolding at by simp
    from fiber_inv_sub [OF inv that(1) this] False run show ?thesis by simp
  qed
  moreover have main: "fiber_at ?s2 0 = Some m" using run(2) m(1) unfolding at by simp
  moreover have ctl: "fs_control ?s2 = In_Main as" by simp
  ultimately have "fiber_inv ?s2"
    unfolding fiber_inv_def tf main ctl using m run(2) main by (simp add: runs_def)
  moreover have "fs_out ?s2 = fs_out s" by (simp add: SetThis_def)
  moreover have "fiber_at ?s2 n = Some ?f" unfolding at by simp
  ultimately show ?thesis using tf ctl sw by blast
qed

lemma yield_inv:
  assumes inv: "fiber_inv s" and ctl: "fs_control s = In_Fiber n (a # as)" and st: "st = STATE_HOLD \<or> st = STATE_READY"
  shows "\<exists>s'. Yield st (In_Fiber n as) s = Inr s' \<and> fiber_inv s' \<and> fs_t_fiber s' = Some 0"
proof -
  from inv ctl have run: "fs_t_fiber s = Some n" "n \<noteq> 0" and "fiber_at s n \<noteq> None"
    by (auto simp: fiber_inv_def runs_def)
  then obtain f where f: "fiber_at s n = Some f" by blast
  from fiber_inv_sub [OF inv run(2) f] run have ex: "fb_state f = STATE_EXEC" by simp
  have "ctx_fits n (f\<lparr>fb_cb := fb_cb f, fb_state := st, fb_ctx := Resume (In_Fiber n as)\<rparr>)"
    using st by (auto simp: ctx_fits_def)
  from swapOut_inv [OF inv run f _ this] st ex f show ?thesis
    by (auto simp: Yield_def GetThis_inv [OF inv run(1)])
qed

lemma leave_inv:
  assumes inv: "fiber_inv s" and run: "fs_t_fiber s = Some n" "n \<noteq> 0" and f: "fiber_at s n = Some f"
    and st: "st = STATE_TERM \<or> st = STATE_EXCEPT"
  shows "\<exists>s'. MainFunc_leave n (put_fiber n (Some (f\<lparr>fb_cb := cb, fb_state := st\<rparr>)) s) = Inr s' \<and> fiber_inv s' \<and>
    fs_t_fiber s' = Some 0"
proof -
  from fiber_inv_sub [OF inv run(2) f] have own: "fb_owned f" by simp
  have "ctx_fits n (f\<lparr>fb_cb := cb, fb_state := st, fb_ctx := Resume (After_Out n)\<rparr>)"
    using st by (auto simp: ctx_fits_def)
  from swapOut_inv [OF inv run f _ this] st own f show ?thesis by (auto simp: MainFunc_leave_def)
qed

lemma catch_inv:
  assumes inv: "fiber_inv s" and run: "fs_t_fiber s = Some n" "n \<noteq> 0" and f: "fiber_at s n = Some f"
  shows "\<exists>s'. MainFunc_catch n s = Inr s' \<and> fiber_inv s' \<and> fs_t_fiber s' = Some 0"
  using leave_inv [OF assms, of STATE_EXCEPT "fb_cb f"] f by (simp add: MainFunc_catch_def)

text \<open>Where a fiber is after its end, by return or by exception.\<close>

lemma leave_ends:
  assumes inv: "fiber_inv s" and run: "fs_t_fiber s = Some n" "n \<noteq> 0" and f: "fiber_at s n = Some f"
    and st: "st = STATE_TERM \<or> st = STATE_EXCEPT"
  shows "\<exists>s' as. MainFunc_leave n (put_fiber n (Some (f\<lparr>fb_cb := cb, fb_state := st\<rparr>)) s) = Inr s' \<and>
    fs_control s' = In_Main as \<and> fiber_at s' n = Some (f\<lparr>fb_cb := cb, fb_state := st, fb_ctx := Resume (After_Out n)\<rparr>)"
proof -
  from fiber_inv_sub [OF inv run(2) f] have own: "fb_owned f" by simp
  have "ctx_fits n (f\<lparr>fb_cb := cb, fb_state := st, fb_ctx := Resume (After_Out n)\<rparr>)"
    using st by (auto simp: ctx_fits_def)
  from swapOut_inv [OF inv run f _ this] st own f show ?thesis by (auto simp: MainFunc_leave_def)
qed

lemma return_inv:
  assumes inv: "fiber_inv s" and run: "fs_t_fiber s = Some n" "n \<noteq> 0" and f: "fiber_at s n = Some f"
  shows "\<exists>s'. MainFunc_return n s = Inr s' \<and> fiber_inv s' \<and> fs_t_fiber s' = Some 0"
  using leave_inv [OF assms, of STATE_TERM None] f by (simp add: MainFunc_return_def)

lemma enter_inv:
  assumes inv: "fiber_inv s" and ctl: "fs_control s = At_MainFunc"
  shows "\<exists>s'. MainFunc_enter s = Inr s' \<and> fiber_inv s'"
proof -
  from inv ctl obtain n f where run: "fs_t_fiber s = Some n" "n \<noteq> 0" and f: "fiber_at s n = Some f"
    by (auto simp: fiber_inv_def runs_def)
  show ?thesis
  proof (cases "fb_cb f")
    case None
    with catch_inv [OF inv run f] f show ?thesis by (auto simp: MainFunc_enter_def GetThis_inv [OF inv run(1)])
  next
    case (Some acts)
    then have "MainFunc_enter s = Inr (s\<lparr>fs_control := In_Fiber n acts\<rparr>)"
      using f by (simp add: MainFunc_enter_def GetThis_inv [OF inv run(1)])
    then show ?thesis using fiber_inv_control [OF inv run(1), of "In_Fiber n acts"] run by (simp add: runs_def)
  qed
qed


text \<open>Every step of a disciplined thread succeeds and keeps the invariant.\<close>

lemma perform_main_inv:
  assumes inv: "fiber_inv s" and ctl: "fs_control s = In_Main (a # as)" and al: "allowed_main s a"
  shows "\<exists>s'. perform a (In_Main as) s = Inr s' \<and> fiber_inv s'"
proof -
  have run: "fs_t_fiber s = Some 0" using inv ctl by (auto simp: fiber_inv_def runs_def)
  have k: "fiber_inv (s'\<lparr>fs_control := In_Main as\<rparr>)" if "fiber_inv s'" "fs_t_fiber s' = Some 0" for s'
    by (rule fiber_inv_control [OF that]) (simp add: runs_def)
  show ?thesis
  proof (cases a)
    case (Emit x)
    then show ?thesis using k [OF fiber_inv_out [OF inv]] run by simp
  next
    case GetThis_call
    then show ?thesis using k [OF inv run] by (simp add: GetThis_inv [OF inv run])
  next
    case (New_Fiber cb sz)
    then show ?thesis using k [OF fiber_inv_new [OF inv]] run by simp
  next
    case (SwapIn n)
    then show ?thesis using swapIn_inv [OF inv run, of n as] al by auto
  next
    case (Reset n cb)
    then show ?thesis using reset_inv [OF inv, of n cb] al k run by auto
  next
    case (Drop n)
    then show ?thesis using drop_inv [OF inv, of n] al k run by auto
  qed (use al in auto)
qed

lemma perform_fiber_inv:
  assumes inv: "fiber_inv s" and ctl: "fs_control s = In_Fiber n (a # as)" and al: "allowed_fiber s a"
  shows "\<exists>s'. perform a (In_Fiber n as) s = Inr s' \<and> fiber_inv s'"
proof -
  have run: "fs_t_fiber s = Some n" "n \<noteq> 0" and "fiber_at s n \<noteq> None"
    using inv ctl by (auto simp: fiber_inv_def runs_def)
  then obtain f where f: "fiber_at s n = Some f" by blast
  have k: "fiber_inv (s'\<lparr>fs_control := In_Fiber n as\<rparr>)" if "fiber_inv s'" "fs_t_fiber s' = Some n" for s'
    using run(2) by (intro fiber_inv_control [OF that]) (simp add: runs_def)
  show ?thesis
  proof (cases a)
    case (Emit x)
    then show ?thesis using k [OF fiber_inv_out [OF inv]] run by simp
  next
    case GetThis_call
    then show ?thesis using k [OF inv run(1)] by (simp add: GetThis_inv [OF inv run(1)])
  next
    case (New_Fiber cb sz)
    then show ?thesis using k [OF fiber_inv_new [OF inv]] run by simp
  next
    case YieldToHold_call
    then show ?thesis using yield_inv [OF inv ctl, of STATE_HOLD] by (auto simp: YieldToHold_def)
  next
    case YieldToReady_call
    then show ?thesis using yield_inv [OF inv ctl, of STATE_READY] by (auto simp: YieldToReady_def)
  next
    case (Reset m cb)
    then show ?thesis using reset_inv [OF inv, of m cb] al k run by auto
  next
    case (Drop m)
    then show ?thesis using drop_inv [OF inv, of m] al k run by auto
  next
    case (Raise e)
    then show ?thesis using catch_inv [OF inv run f] by auto
  qed (use al in auto)
qed

lemma fiber_step_inv:
  assumes inv: "fiber_inv s" and d: "disciplined s"
  shows "\<exists>s'. fiber_step s = Inr s' \<and> fiber_inv s'"
proof (cases "fs_control s")
  case (In_Main as)
  show ?thesis
  proof (cases as)
    case Nil
    with In_Main inv show ?thesis by (simp add: fiber_step_def)
  next
    case (Cons a as')
    with In_Main d perform_main_inv [OF inv, of a as'] show ?thesis by (simp add: fiber_step_def disciplined_def)
  qed
next
  case At_MainFunc
  with enter_inv [OF inv] show ?thesis by (simp add: fiber_step_def)
next
  case (In_Fiber n as)
  show ?thesis
  proof (cases as)
    case Nil
    from inv In_Fiber have run: "fs_t_fiber s = Some n" "n \<noteq> 0" and "fiber_at s n \<noteq> None"
      by (auto simp: fiber_inv_def runs_def)
    then obtain f where "fiber_at s n = Some f" by blast
    from return_inv [OF inv run this] Nil In_Fiber show ?thesis by (auto simp: fiber_step_def)
  next
    case (Cons a as')
    with In_Fiber d perform_fiber_inv [OF inv, of n a as'] show ?thesis by (simp add: fiber_step_def disciplined_def)
  qed
next
  case (After_Out n)
  with inv show ?thesis by (auto simp: fiber_inv_def runs_def)
qed

text \<open>The thread's first call of GetThis sets the invariant up.\<close>

lemma thread_start_inv:
  "\<exists>s. fiber_run 1 (thread_start (GetThis_call # code) sz) = Inr s \<and> fiber_inv s \<and> fs_control s = In_Main code \<and> fs_out s = []"
  by (auto simp: fiber_step_def thread_start_def GetThis_def Fiber_main_def SetThis_def fiber_inv_def fiber_at_def
      runs_def Let_def nth_Cons' split: if_splits)

inductive fiber_reach :: "action list \<Rightarrow> 32 word \<Rightarrow> fstate \<Rightarrow> bool" for code sz where
  fiber_begin: "fiber_run 1 (thread_start (GetThis_call # code) sz) = Inr s \<Longrightarrow> fiber_reach code sz s"
| fiber_next: "fiber_reach code sz s \<Longrightarrow> disciplined s \<Longrightarrow> fiber_step s = Inr s' \<Longrightarrow> fiber_reach code sz s'"

lemma fiber_reach_inv: "fiber_reach code sz s \<Longrightarrow> fiber_inv s"
proof (induction rule: fiber_reach.induct)
  case (fiber_begin s)
  then show ?case using thread_start_inv [of code sz] by auto
next
  case (fiber_next s s')
  then show ?case using fiber_step_inv by (metis Inl_Inr_False sum.inject(2))
qed


section \<open>Turn taking\<close>

text \<open>
  A callback that emits one text per turn and holds in between, and the thread's code that emits its
  own text before each turn it gives.
\<close>

fun turns :: "string list \<Rightarrow> action list" where
  "turns [] = []"
| "turns (x # xs) = Emit x # (if xs = [] then [] else YieldToHold_call # turns xs)"

fun driver :: "string list \<Rightarrow> action list" where
  "driver [] = []"
| "driver (m # ms) = Emit m # SwapIn 1 # driver ms"

fun alternate :: "string list \<Rightarrow> string list \<Rightarrow> string list" where
  "alternate (m # ms) (x # xs) = m # x # alternate ms xs"
| "alternate _ _ = []"

text \<open>A thread with its main fiber and one sub-fiber.\<close>

definition duo :: "context_t \<Rightarrow> State \<Rightarrow> context_t \<Rightarrow> cb \<Rightarrow> 32 word \<Rightarrow> nat \<Rightarrow> cont \<Rightarrow> string list \<Rightarrow> 32 word \<Rightarrow> fstate" where
  "duo c0 st c1 cb sz t k out conf = \<lparr>
     fs_fibers = [Some \<lparr>fb_id = 0, fb_stack_size = 0, fb_state = STATE_EXEC, fb_ctx = c0, fb_stack = False,
         fb_cb = None, fb_owned = True\<rparr>,
       Some \<lparr>fb_id = 1, fb_stack_size = sz, fb_state = st, fb_ctx = c1, fb_stack = True, fb_cb = cb, fb_owned = True\<rparr>],
     fs_t_fiber = Some t, fs_threadFiber = Some 0, fs_fiber_id = 1, fs_fiber_count = 2, fs_conf_size = conf,
     fs_control = k, fs_out = out\<rparr>"

lemma duo_emit_main:
  "fiber_step (duo c0 st c1 cb sz 0 (In_Main (Emit x # as)) out conf) = Inr (duo c0 st c1 cb sz 0 (In_Main as) (out @ [x]) conf)"
  by (simp add: duo_def fiber_step_def)

lemma duo_emit_fiber:
  "fiber_step (duo c0 st c1 cb sz 1 (In_Fiber 1 (Emit x # as)) out conf) =
     Inr (duo c0 st c1 cb sz 1 (In_Fiber 1 as) (out @ [x]) conf)"
  by (simp add: duo_def fiber_step_def)

lemma duo_swapIn:
  "st \<noteq> STATE_EXEC \<Longrightarrow> fiber_step (duo c0 st (Resume k) cb sz 0 (In_Main (SwapIn 1 # as)) out conf) =
     Inr (duo (Resume (In_Main as)) STATE_EXEC (Resume k) cb sz 1 k out conf)"
  by (simp add: duo_def fiber_step_def swapIn_def swapcontext_def SetThis_def fiber_at_def put_fiber_def)

lemma duo_enter:
  "fiber_step (duo c0 st c1 (Some acts) sz 1 At_MainFunc out conf) = Inr (duo c0 st c1 (Some acts) sz 1 (In_Fiber 1 acts) out conf)"
  by (simp add: duo_def fiber_step_def MainFunc_enter_def GetThis_def fiber_at_def)

lemma duo_hold:
  "fiber_step (duo (Resume k0) STATE_EXEC c1 cb sz 1 (In_Fiber 1 (YieldToHold_call # as)) out conf) =
     Inr (duo (Resume k0) STATE_HOLD (Resume (In_Fiber 1 as)) cb sz 0 k0 out conf)"
  by (simp add: duo_def fiber_step_def YieldToHold_def Yield_def GetThis_def swapOut_def swapcontext_def SetThis_def
      fiber_at_def put_fiber_def)

lemma duo_return:
  "fiber_step (duo (Resume k0) STATE_EXEC c1 cb sz 1 (In_Fiber 1 []) out conf) =
     Inr (duo (Resume k0) STATE_TERM (Resume (After_Out 1)) None sz 0 k0 out conf)"
  by (simp add: duo_def fiber_step_def MainFunc_return_def MainFunc_leave_def swapOut_def swapcontext_def SetThis_def
      fiber_at_def put_fiber_def)

lemma duo_start:
  "fiber_run 2 (thread_start (GetThis_call # New_Fiber cb sz # as) conf) =
     Inr (duo In_Ctor STATE_INIT (Resume At_MainFunc) cb (if sz \<noteq> 0 then ucast sz else conf) 0 (In_Main as) [] conf)"
  by (simp add: numeral_2_eq_2 thread_start_def fiber_step_def GetThis_def Fiber_main_def Fiber_new_def SetThis_def duo_def Let_def)

lemma fiber_run_Suc: "fiber_step s = Inr s1 \<Longrightarrow> fiber_run n s1 = r \<Longrightarrow> fiber_run (Suc n) s = r"
  by simp

definition finished_duo :: "fstate \<Rightarrow> string list \<Rightarrow> bool" where
  "finished_duo s out \<longleftrightarrow> fs_control s = In_Main [] \<and> fs_out s = out \<and>
     (\<exists>f. fiber_at s 1 = Some f \<and> fb_state f = STATE_TERM \<and> fb_cb f = None)"

text \<open>The turns from a point where the fiber is inside its callback.\<close>

lemma run_turns:
  assumes "xs \<noteq> []" and "length ms + 1 = length xs"
  shows "\<exists>n s. fiber_run n (duo (Resume (In_Main (driver ms))) STATE_EXEC c1 cb sz 1 (In_Fiber 1 (turns xs)) out conf) = Inr s \<and>
    finished_duo s (out @ hd xs # alternate ms (tl xs))"
  using assms
proof (induction xs arbitrary: ms c1 out)
  case (Cons x xs)
  let ?main = "Resume (In_Main (driver ms))"
  show ?case
  proof (cases xs)
    case Nil
    with Cons.prems have ms: "ms = []" by simp
    let ?first = "duo ?main STATE_EXEC c1 cb sz 1 (In_Fiber 1 (turns (x # xs))) out conf"
    let ?s = "duo ?main STATE_TERM (Resume (After_Out 1)) None sz 0 (In_Main []) (out @ [x]) conf"
    have e: "fiber_step ?first = Inr (duo ?main STATE_EXEC c1 cb sz 1 (In_Fiber 1 []) (out @ [x]) conf)"
      using Nil duo_emit_fiber by simp
    have r: "fiber_step (duo ?main STATE_EXEC c1 cb sz 1 (In_Fiber 1 []) (out @ [x]) conf) = Inr ?s"
      using duo_return ms by simp
    have "fiber_run (Suc (Suc 0)) ?first = Inr ?s"
      by (rule fiber_run_Suc [OF e fiber_run_Suc [OF r]]) simp
    moreover have "finished_duo ?s (out @ [x])"
      by (simp add: finished_duo_def duo_def fiber_at_def)
    ultimately show ?thesis using Nil ms by (intro exI [of _ "Suc (Suc 0)"] exI [of _ ?s]) simp
  next
    case (Cons y ys)
    with Cons.prems obtain m ms' where ms: "ms = m # ms'" by (cases ms) auto
    from Cons.prems Cons ms have "xs \<noteq> []" "length ms' + 1 = length xs" by simp_all
    from Cons.IH [OF this, of "Resume (In_Fiber 1 (turns xs))" "out @ [x, m]"] obtain n s
      where rest: "fiber_run n (duo (Resume (In_Main (driver ms'))) STATE_EXEC (Resume (In_Fiber 1 (turns xs))) cb sz 1
          (In_Fiber 1 (turns xs)) (out @ [x, m]) conf) = Inr s"
        and fin: "finished_duo s ((out @ [x, m]) @ hd xs # alternate ms' (tl xs))" by blast
    let ?s1 = "duo ?main STATE_EXEC c1 cb sz 1 (In_Fiber 1 (YieldToHold_call # turns xs)) (out @ [x]) conf"
    let ?s2 = "duo ?main STATE_HOLD (Resume (In_Fiber 1 (turns xs))) cb sz 0 (In_Main (Emit m # SwapIn 1 # driver ms')) (out @ [x]) conf"
    let ?s3 = "duo ?main STATE_HOLD (Resume (In_Fiber 1 (turns xs))) cb sz 0 (In_Main (SwapIn 1 # driver ms')) (out @ [x, m]) conf"
    have e: "fiber_step (duo ?main STATE_EXEC c1 cb sz 1 (In_Fiber 1 (turns (x # xs))) out conf) = Inr ?s1"
      using Cons duo_emit_fiber by simp
    have h: "fiber_step ?s1 = Inr ?s2" using duo_hold ms by simp
    have m: "fiber_step ?s2 = Inr ?s3" using duo_emit_main [of ?main] by simp
    have sw: "fiber_step ?s3 = Inr (duo (Resume (In_Main (driver ms'))) STATE_EXEC (Resume (In_Fiber 1 (turns xs))) cb sz 1
          (In_Fiber 1 (turns xs)) (out @ [x, m]) conf)" by (rule duo_swapIn) simp
    have "fiber_run (Suc (Suc (Suc (Suc n)))) (duo ?main STATE_EXEC c1 cb sz 1 (In_Fiber 1 (turns (x # xs))) out conf) = Inr s"
      by (rule fiber_run_Suc [OF e fiber_run_Suc [OF h fiber_run_Suc [OF m fiber_run_Suc [OF sw rest]]]])
    moreover have "finished_duo s (out @ hd (x # xs) # alternate ms (tl (x # xs)))"
      using fin Cons ms by simp
    ultimately show ?thesis by blast
  qed
qed simp

lemma turn_taking_lemma:
  assumes "xs \<noteq> []" and "length ms = length xs"
  shows "\<exists>n s. fiber_run n (thread_start (GetThis_call # New_Fiber (Some (turns xs)) sz # driver ms) conf) = Inr s \<and>
    finished_duo s (alternate ms xs)"
proof -
  from assms obtain m ms' where ms: "ms = m # ms'" by (cases ms) auto
  from assms ms have len: "length ms' + 1 = length xs" by simp
  let ?sz = "if sz \<noteq> 0 then ucast sz else conf"
  let ?cb = "Some (turns xs)"
  from run_turns [OF assms(1) len, of "Resume At_MainFunc" ?cb ?sz "[m]" conf] obtain n s
    where rest: "fiber_run n (duo (Resume (In_Main (driver ms'))) STATE_EXEC (Resume At_MainFunc) ?cb ?sz 1 (In_Fiber 1 (turns xs)) [m] conf) = Inr s"
      and fin: "finished_duo s ([m] @ hd xs # alternate ms' (tl xs))" by blast
  have e: "fiber_step (duo In_Ctor STATE_INIT (Resume At_MainFunc) ?cb ?sz 0 (In_Main (Emit m # SwapIn 1 # driver ms')) [] conf) =
      Inr (duo In_Ctor STATE_INIT (Resume At_MainFunc) ?cb ?sz 0 (In_Main (SwapIn 1 # driver ms')) [m] conf)"
    using duo_emit_main by simp
  have sw: "fiber_step (duo In_Ctor STATE_INIT (Resume At_MainFunc) ?cb ?sz 0 (In_Main (SwapIn 1 # driver ms')) [m] conf) =
      Inr (duo (Resume (In_Main (driver ms'))) STATE_EXEC (Resume At_MainFunc) ?cb ?sz 1 At_MainFunc [m] conf)"
    by (rule duo_swapIn) simp
  have "fiber_run (Suc (Suc (Suc n))) (duo In_Ctor STATE_INIT (Resume At_MainFunc) ?cb ?sz 0 (In_Main (driver ms)) [] conf) = Inr s"
    unfolding ms driver.simps by (rule fiber_run_Suc [OF e fiber_run_Suc [OF sw fiber_run_Suc [OF duo_enter rest]]])
  then have "fiber_run (2 + Suc (Suc (Suc n))) (thread_start (GetThis_call # New_Fiber ?cb sz # driver ms) conf) = Inr s"
    by (subst fiber_run_add) (simp only: duo_start rbind_Inr)
  moreover have "finished_duo s (alternate ms xs)" using fin ms assms(1) by (cases xs) simp_all
  ultimately show ?thesis by blast
qed


section \<open>The number of fibers\<close>

definition alive :: "fstate \<Rightarrow> nat" where
  "alive s = length (filter (\<lambda>x. x \<noteq> None) (fs_fibers s))"

text \<open>The counter is \<open>d\<close> ahead of the fibers of this thread; with one thread d is 0.\<close>

definition count_ok :: "64 word \<Rightarrow> fstate \<Rightarrow> bool" where
  "count_ok d s \<longleftrightarrow> fs_fiber_count s = of_nat (alive s) + d"

lemma filter_update_same:
  "i < length xs \<Longrightarrow> P (xs ! i) \<Longrightarrow> P y \<Longrightarrow> length (filter P (xs[i := y])) = length (filter P xs)"
proof (induction xs arbitrary: i)
  case (Cons x xs)
  then show ?case by (cases i) auto
qed simp

lemma filter_update_drop:
  "i < length xs \<Longrightarrow> P (xs ! i) \<Longrightarrow> \<not> P y \<Longrightarrow> Suc (length (filter P (xs[i := y]))) = length (filter P xs)"
proof (induction xs arbitrary: i)
  case (Cons x xs)
  then show ?case by (cases i) auto
qed simp

lemma alive_put_Some: "fiber_at s n = Some g \<Longrightarrow> alive (put_fiber n (Some f) s) = alive s"
  by (auto simp: alive_def put_fiber_def fiber_at_def intro!: filter_update_same split: if_splits)

lemma alive_put_None: "fiber_at s n = Some g \<Longrightarrow> Suc (alive (put_fiber n None s)) = alive s"
  by (auto simp: alive_def put_fiber_def fiber_at_def intro!: filter_update_drop split: if_splits)

lemma alive_fields [simp]:
  "alive (s\<lparr>fs_t_fiber := t\<rparr>) = alive s" "alive (s\<lparr>fs_threadFiber := u\<rparr>) = alive s"
  "alive (s\<lparr>fs_control := k\<rparr>) = alive s" "alive (s\<lparr>fs_out := xs\<rparr>) = alive s"
  "alive (s\<lparr>fs_fiber_count := c\<rparr>) = alive s" "alive (s\<lparr>fs_fiber_id := i\<rparr>) = alive s"
  by (simp_all add: alive_def)

lemma count_fields [simp]:
  "count_ok d (s\<lparr>fs_t_fiber := t\<rparr>) = count_ok d s" "count_ok d (s\<lparr>fs_threadFiber := u\<rparr>) = count_ok d s"
  "count_ok d (s\<lparr>fs_control := k\<rparr>) = count_ok d s" "count_ok d (s\<lparr>fs_out := xs\<rparr>) = count_ok d s"
  "count_ok d (SetThis t s) = count_ok d s"
  by (simp_all add: count_ok_def SetThis_def)

lemma count_put_Some: "fiber_at s n = Some g \<Longrightarrow> count_ok d (put_fiber n (Some f) s) = count_ok d s"
  by (simp add: count_ok_def alive_put_Some)

lemma count_swapcontext: "swapcontext a b k s = Inr s' \<Longrightarrow> count_ok d s \<Longrightarrow> count_ok d s'"
  by (auto simp: swapcontext_def Let_def count_put_Some split: option.splits context_t.splits)

lemma fiber_at_SetThis [simp]: "fiber_at (SetThis t s) n = fiber_at s n"
  by (simp add: SetThis_def)

lemma count_swapIn: "swapIn n k s = Inr s' \<Longrightarrow> count_ok d s \<Longrightarrow> count_ok d s'"
  by (auto simp: swapIn_def Let_def count_put_Some split: option.splits if_splits dest!: count_swapcontext)

lemma count_swapOut: "swapOut n k s = Inr s' \<Longrightarrow> count_ok d s \<Longrightarrow> count_ok d s'"
  by (auto simp: swapOut_def Let_def split: option.splits dest!: count_swapcontext)

lemma count_GetThis: "GetThis s = (n, s') \<Longrightarrow> count_ok d s \<Longrightarrow> count_ok d s'"
  by (auto simp: GetThis_def Fiber_main_def Let_def count_ok_def alive_def SetThis_def split: option.splits)

lemma count_Fiber_new: "count_ok d s \<Longrightarrow> count_ok d (Fiber_new cb sz s)"
  by (simp add: Fiber_new_def Let_def count_ok_def alive_def)

lemma count_dtor: "Fiber_dtor n s = Inr s' \<Longrightarrow> count_ok d s \<Longrightarrow> count_ok d s'"
proof -
  assume run: "Fiber_dtor n s = Inr s'" and ok: "count_ok d s"
  then obtain f where f: "fiber_at s n = Some f" by (auto simp: Fiber_dtor_def Let_def split: option.splits)
  from run f have "alive s' = alive (put_fiber n None s)" "fs_fiber_count s' = fs_fiber_count s - 1"
    by (auto simp: Fiber_dtor_def Let_def alive_def put_fiber_def SetThis_def split: if_splits)
  moreover have "of_nat (alive s) = (of_nat (alive (put_fiber n None s)) + 1 :: 64 word)"
    by (simp flip: alive_put_None [OF f])
  ultimately show ?thesis using ok by (simp add: count_ok_def)
qed

lemma count_Yield: "Yield st k s = Inr s' \<Longrightarrow> count_ok d s \<Longrightarrow> count_ok d s'"
  by (auto simp: Yield_def count_put_Some split: prod.splits option.splits if_splits dest!: count_swapOut count_GetThis)

lemma count_leave: "MainFunc_leave n s = Inr s' \<Longrightarrow> count_ok d s \<Longrightarrow> count_ok d s'"
  by (auto simp: MainFunc_leave_def rbind_eq_Inr split: option.splits if_splits dest!: count_swapOut count_dtor)

lemma count_catch: "MainFunc_catch n s = Inr s' \<Longrightarrow> count_ok d s \<Longrightarrow> count_ok d s'"
  by (auto simp: MainFunc_catch_def count_put_Some split: option.splits dest!: count_leave)

lemma count_return: "MainFunc_return n s = Inr s' \<Longrightarrow> count_ok d s \<Longrightarrow> count_ok d s'"
  by (auto simp: MainFunc_return_def count_put_Some split: option.splits dest!: count_leave)

lemma count_enter: "MainFunc_enter s = Inr s' \<Longrightarrow> count_ok d s \<Longrightarrow> count_ok d s'"
  by (auto simp: MainFunc_enter_def split: prod.splits option.splits dest!: count_catch count_GetThis)

lemma count_reset: "Fiber_reset n cb s = Inr s' \<Longrightarrow> count_ok d s \<Longrightarrow> count_ok d s'"
  by (auto simp: Fiber_reset_def count_put_Some split: option.splits if_splits)

lemma count_drop: "drop_fiber n s = Inr s' \<Longrightarrow> count_ok d s \<Longrightarrow> count_ok d s'"
  by (auto simp: drop_fiber_def count_put_Some split: option.splits if_splits dest!: count_dtor)

lemma count_perform: "perform a k s = Inr s' \<Longrightarrow> count_ok d s \<Longrightarrow> count_ok d s'"
  by (cases a) (auto simp: YieldToHold_def YieldToReady_def rbind_eq_Inr count_Fiber_new split: cont.splits
      dest: count_swapIn count_Yield count_reset count_drop count_catch count_GetThis [OF prod.collapse [symmetric]])

lemma count_step: "fiber_step s = Inr s' \<Longrightarrow> count_ok d s \<Longrightarrow> count_ok d s'"
  by (auto simp: fiber_step_def split: cont.splits list.splits dest: count_perform count_enter count_return)

lemma count_run: "fiber_run n s = Inr s' \<Longrightarrow> count_ok d s \<Longrightarrow> count_ok d s'"
  by (induction n arbitrary: s) (auto simp: rbind_eq_Inr dest: count_step)

section \<open>What happens outside the discipline\<close>

text \<open>swapIn of a finished fiber passes its assertion and runs into the one at the end of MainFunc.\<close>

lemma swapIn_finished:
  assumes inv: "fiber_inv s" and ctl: "fs_control s = In_Main (SwapIn n # as)"
    and n: "n \<noteq> 0" "fiber_at s n = Some f" "fb_state f = STATE_TERM \<or> fb_state f = STATE_EXCEPT"
  shows "fiber_run 2 s = Inl (Assert_Fail ''never reach here'')"
proof -
  from fiber_inv_sub [OF inv n(1,2)] n(3) have ctx: "fb_ctx f = Resume (After_Out n)" by (auto simp: ctx_fits_def)
  from fiber_inv_main [OF inv] obtain m where m: "fiber_at s 0 = Some m" by blast
  have ne: "fb_state f \<noteq> STATE_EXEC" using n(3) by auto
  obtain s' where "fiber_step s = Inr s'" "fs_control s' = After_Out n"
    using ctl n m ctx ne fiber_inv_thread [OF inv]
    by (simp add: fiber_step_def swapIn_def swapcontext_def Let_def SetThis_def)
  then show ?thesis by (simp add: numeral_2_eq_2 fiber_step_def [of s'])
qed

text \<open>A yield in the thread's own code leaves the main fiber in another state: the next one fails.\<close>

lemma yield_main_twice:
  assumes inv: "fiber_inv s" and ctl: "fs_control s = In_Main (YieldToHold_call # YieldToHold_call # as)"
  shows "fiber_run 2 s = Inl (Assert_Fail ''cur->m_state == STATE_EXEC'')"
proof -
  have run: "fs_t_fiber s = Some 0" using inv ctl by (auto simp: fiber_inv_def runs_def)
  from fiber_inv_main [OF inv] obtain m where m: "fiber_at s 0 = Some m" "fb_state m = STATE_EXEC" by blast
  obtain s' where s': "fiber_step s = Inr s'" "fs_control s' = In_Main (YieldToHold_call # as)" "fs_t_fiber s' = Some 0"
    "\<exists>m'. fiber_at s' 0 = Some m' \<and> fb_state m' = STATE_HOLD"
    using ctl run m fiber_inv_thread [OF inv]
    by (simp add: fiber_step_def YieldToHold_def Yield_def GetThis_def swapOut_def swapcontext_def Let_def)
      (auto simp: SetThis_def)
  then have "fiber_step s' = Inl (Assert_Fail ''cur->m_state == STATE_EXEC'')"
    by (auto simp: fiber_step_def YieldToHold_def Yield_def GetThis_def)
  with s'(1) show ?thesis by (simp add: numeral_2_eq_2)
qed


text \<open>
  swapIn from inside a fiber overwrites the main fiber's context, the only one that leads back to the
  thread's own code: from then on that code never runs again.
\<close>

definition is_main :: "cont \<Rightarrow> bool" where
  "is_main k \<longleftrightarrow> (case k of In_Main _ \<Rightarrow> True | _ \<Rightarrow> False)"

definition no_main_ctx :: "fstate \<Rightarrow> bool" where
  "no_main_ctx s \<longleftrightarrow> (\<forall>n f k. fiber_at s n = Some f \<longrightarrow> fb_ctx f = Resume k \<longrightarrow> \<not> is_main k)"

definition main_lost :: "fstate \<Rightarrow> bool" where
  "main_lost s \<longleftrightarrow> \<not> is_main (fs_control s) \<and> no_main_ctx s"

lemma no_main_put:
  "no_main_ctx s \<Longrightarrow> fiber_at s n = Some g \<Longrightarrow> (\<And>k. fb_ctx f = Resume k \<Longrightarrow> \<not> is_main k) \<Longrightarrow>
     no_main_ctx (put_fiber n (Some f) s)"
  by (auto simp: no_main_ctx_def)

lemma no_main_same_ctx:
  "no_main_ctx s \<Longrightarrow> fiber_at s n = Some g \<Longrightarrow> fb_ctx f = fb_ctx g \<Longrightarrow> no_main_ctx (put_fiber n (Some f) s)"
  by (auto simp: no_main_ctx_def)

lemma no_main_fields [simp]:
  "no_main_ctx (s\<lparr>fs_t_fiber := t\<rparr>) = no_main_ctx s" "no_main_ctx (s\<lparr>fs_threadFiber := u\<rparr>) = no_main_ctx s"
  "no_main_ctx (s\<lparr>fs_control := k\<rparr>) = no_main_ctx s" "no_main_ctx (s\<lparr>fs_out := xs\<rparr>) = no_main_ctx s"
  "no_main_ctx (s\<lparr>fs_fiber_count := c\<rparr>) = no_main_ctx s" "no_main_ctx (SetThis t s) = no_main_ctx s"
  by (simp_all add: no_main_ctx_def)

lemma swapcontext_lost:
  "swapcontext a b k s = Inr s' \<Longrightarrow> no_main_ctx s \<Longrightarrow> \<not> is_main k \<Longrightarrow> main_lost s'"
  by (auto simp: swapcontext_def Let_def main_lost_def no_main_ctx_def split: option.splits context_t.splits if_splits)

lemma swapIn_lost: "swapIn n k s = Inr s' \<Longrightarrow> no_main_ctx s \<Longrightarrow> \<not> is_main k \<Longrightarrow> main_lost s'"
  by (auto simp: swapIn_def Let_def split: option.splits if_splits
      dest!: swapcontext_lost intro: no_main_same_ctx)

lemma swapOut_lost: "swapOut n k s = Inr s' \<Longrightarrow> no_main_ctx s \<Longrightarrow> \<not> is_main k \<Longrightarrow> main_lost s'"
  by (auto simp: swapOut_def Let_def split: option.splits dest: swapcontext_lost)

lemma GetThis_lost: "no_main_ctx s \<Longrightarrow> GetThis s = (n, s') \<Longrightarrow> no_main_ctx s' \<and> fs_control s' = fs_control s"
  by (auto simp: GetThis_def Fiber_main_def Let_def no_main_ctx_def SetThis_def fiber_at_def nth_append
      split: option.splits if_splits)

lemma Fiber_new_lost: "no_main_ctx s \<Longrightarrow> no_main_ctx (Fiber_new cb sz s)"
  by (auto simp: no_main_ctx_def fiber_at_new is_main_def)

lemma dtor_lost: "Fiber_dtor n s = Inr s' \<Longrightarrow> no_main_ctx s \<Longrightarrow> no_main_ctx s'"
proof -
  assume run: "Fiber_dtor n s = Inr s'" and no: "no_main_ctx s"
  then obtain f where f: "fiber_at s n = Some f" by (auto simp: Fiber_dtor_def Let_def split: option.splits)
  have "fiber_at s' m = (if m = n then None else fiber_at s m)" for m
    using run f by (auto simp: Fiber_dtor_def Let_def split: if_splits)
  with no show ?thesis by (auto simp: no_main_ctx_def split: if_splits)
qed

lemma Yield_lost:
  assumes run: "Yield st k s = Inr s'" and no: "no_main_ctx s" and k: "\<not> is_main k"
  shows "main_lost s'"
proof -
  obtain cur s1 where get: "GetThis s = (cur, s1)" by fastforce
  from GetThis_lost [OF no get] have no1: "no_main_ctx s1" by simp
  from run get obtain f where f: "fiber_at s1 cur = Some f"
    and out: "swapOut cur k (put_fiber cur (Some (f\<lparr>fb_state := st\<rparr>)) s1) = Inr s'"
    by (auto simp: Yield_def split: option.splits if_splits)
  from swapOut_lost [OF out no_main_same_ctx [OF no1 f] k] show ?thesis by simp
qed

lemma leave_lost:
  assumes run: "MainFunc_leave n s = Inr s'" and no: "no_main_ctx s"
  shows "main_lost s'"
proof -
  from run obtain f :: fiber where "rbind (if fb_owned f then Inr s else Fiber_dtor n s) (swapOut n (After_Out n)) = Inr s'"
    by (cases "fiber_at s n") (auto simp: MainFunc_leave_def)
  then obtain s1 where "(if fb_owned f then Inr s else Fiber_dtor n s) = Inr s1"
    and out: "swapOut n (After_Out n) s1 = Inr s'" unfolding rbind_eq_Inr by blast
  then have "no_main_ctx s1" using no dtor_lost by (cases "fb_owned f") auto
  from swapOut_lost [OF out this] show ?thesis by (simp add: is_main_def)
qed

lemma catch_lost:
  assumes run: "MainFunc_catch n s = Inr s'" and no: "no_main_ctx s"
  shows "main_lost s'"
proof -
  from run obtain f where f: "fiber_at s n = Some f"
    and out: "MainFunc_leave n (put_fiber n (Some (f\<lparr>fb_state := STATE_EXCEPT\<rparr>)) s) = Inr s'"
    by (auto simp: MainFunc_catch_def split: option.splits)
  from leave_lost [OF out no_main_same_ctx [OF no f]] show ?thesis by simp
qed

lemma return_lost:
  assumes run: "MainFunc_return n s = Inr s'" and no: "no_main_ctx s"
  shows "main_lost s'"
proof -
  from run obtain f where f: "fiber_at s n = Some f"
    and out: "MainFunc_leave n (put_fiber n (Some (f\<lparr>fb_cb := None, fb_state := STATE_TERM\<rparr>)) s) = Inr s'"
    by (auto simp: MainFunc_return_def split: option.splits)
  from leave_lost [OF out no_main_same_ctx [OF no f]] show ?thesis by simp
qed

lemma enter_lost:
  assumes run: "MainFunc_enter s = Inr s'" and no: "no_main_ctx s"
  shows "main_lost s'"
proof -
  obtain cur s1 where get: "GetThis s = (cur, s1)" by fastforce
  from GetThis_lost [OF no get] have no1: "no_main_ctx s1" by simp
  from run get obtain f where f: "fiber_at s1 cur = Some f"
    and out: "(case fb_cb f of Some acts \<Rightarrow> Inr (s1\<lparr>fs_control := In_Fiber cur acts\<rparr>) | None \<Rightarrow> MainFunc_catch cur s1) = Inr s'"
    by (auto simp: MainFunc_enter_def split: option.splits)
  show ?thesis
  proof (cases "fb_cb f")
    case None
    with out catch_lost [OF _ no1] show ?thesis by simp
  next
    case (Some acts)
    with out no1 show ?thesis by (auto simp: main_lost_def is_main_def)
  qed
qed

lemma reset_lost: "Fiber_reset n cb s = Inr s' \<Longrightarrow> no_main_ctx s \<Longrightarrow> no_main_ctx s'"
  by (auto simp: Fiber_reset_def is_main_def split: option.splits if_splits intro!: no_main_put)

lemma drop_lost: "drop_fiber n s = Inr s' \<Longrightarrow> no_main_ctx s \<Longrightarrow> no_main_ctx s'"
  by (auto simp: drop_fiber_def split: option.splits if_splits intro: no_main_same_ctx dest: dtor_lost)

lemma perform_lost:
  assumes run: "perform a k s = Inr s'" and no: "no_main_ctx s" and k: "\<not> is_main k"
  shows "main_lost s'"
proof -
  have ctl: "main_lost (s1\<lparr>fs_control := k\<rparr>)" if "no_main_ctx s1" for s1
    using that k by (simp add: main_lost_def)
  show ?thesis
  proof (cases a)
    case (Emit x)
    with run no ctl [of "s\<lparr>fs_out := fs_out s @ [x]\<rparr>"] show ?thesis by auto
  next
    case GetThis_call
    with run ctl GetThis_lost [OF no, of "fst (GetThis s)" "snd (GetThis s)"] show ?thesis by auto
  next
    case (New_Fiber cb sz)
    with run ctl [OF Fiber_new_lost [OF no]] show ?thesis by auto
  next
    case (SwapIn n)
    with run swapIn_lost [OF _ no k] show ?thesis by simp
  next
    case YieldToHold_call
    with run Yield_lost [OF _ no k] show ?thesis by (simp add: YieldToHold_def)
  next
    case YieldToReady_call
    with run Yield_lost [OF _ no k] show ?thesis by (simp add: YieldToReady_def)
  next
    case (Reset n cb)
    with run ctl reset_lost [OF _ no] show ?thesis by (auto simp: rbind_eq_Inr)
  next
    case (Drop n)
    with run ctl drop_lost [OF _ no] show ?thesis by (auto simp: rbind_eq_Inr)
  next
    case (Raise e)
    with run catch_lost [OF _ no] show ?thesis by (cases k) auto
  qed
qed

lemma main_lost_step: "fiber_step s = Inr s' \<Longrightarrow> main_lost s \<Longrightarrow> main_lost s'"
proof -
  assume run: "fiber_step s = Inr s'" and lost: "main_lost s"
  then have no: "no_main_ctx s" by (simp add: main_lost_def)
  show ?thesis
  proof (cases "fs_control s")
    case (In_Main as)
    with lost show ?thesis by (simp add: main_lost_def is_main_def)
  next
    case At_MainFunc
    with run no show ?thesis by (simp add: fiber_step_def enter_lost)
  next
    case (In_Fiber n as)
    with run no show ?thesis
      by (cases as) (auto simp: fiber_step_def is_main_def dest: return_lost intro: perform_lost)
  next
    case (After_Out n)
    with run show ?thesis by (simp add: fiber_step_def)
  qed
qed

lemma main_lost_run: "fiber_run n s = Inr s' \<Longrightarrow> main_lost s \<Longrightarrow> main_lost s'"
  by (induction n arbitrary: s) (auto simp: rbind_eq_Inr dest: main_lost_step)

lemma nested_swapIn:
  assumes inv: "fiber_inv s" and ctl: "fs_control s = In_Fiber n (SwapIn m # as)" and run: "fiber_step s = Inr s'"
  shows "main_lost s'"
proof -
  let ?k = "In_Fiber n as"
  have sub: "\<not> is_main k" if "j \<noteq> 0" "fiber_at s j = Some f" "fb_ctx f = Resume k" for j f k
    using fiber_inv_sub [OF inv that(1,2)] that(3) by (auto simp: ctx_fits_def is_main_def split: cont.splits)
  from run ctl have sw: "swapIn m ?k s = Inr s'" by (simp add: fiber_step_def)
  then obtain f where f: "fiber_at s m = Some f" "fb_state f \<noteq> STATE_EXEC"
    and sc: "swapcontext 0 m ?k (put_fiber m (Some (f\<lparr>fb_state := STATE_EXEC\<rparr>)) (SetThis (Some m) s)) = Inr s'"
    using fiber_inv_thread [OF inv]
    by (auto simp: swapIn_def Let_def SetThis_def split: option.splits if_splits)
  from fiber_inv_main [OF inv] obtain mf where mf: "fiber_at s 0 = Some mf" "fb_state mf = STATE_EXEC" by blast
  have m0: "m \<noteq> 0"
  proof
    assume "m = 0"
    with f mf show False by simp
  qed
  let ?s1 = "put_fiber m (Some (f\<lparr>fb_state := STATE_EXEC\<rparr>)) (SetThis (Some m) s)"
  let ?s2 = "put_fiber 0 (Some (mf\<lparr>fb_ctx := Resume ?k\<rparr>)) ?s1"
  have at1: "fiber_at ?s1 0 = Some mf" using f mf m0 by simp
  have at2: "fiber_at ?s2 j = (if j = 0 then Some (mf\<lparr>fb_ctx := Resume ?k\<rparr>)
      else if j = m then Some (f\<lparr>fb_state := STATE_EXEC\<rparr>) else fiber_at s j)" for j
    using at1 f by simp
  have "no_main_ctx ?s2"
    unfolding no_main_ctx_def at2 using sub f(1) m0 by (auto simp: is_main_def)
  moreover obtain k' where k': "fb_ctx f = Resume k'" "s' = ?s2\<lparr>fs_control := k'\<rparr>"
    using sc at1 at2 [of m] m0 by (auto simp: swapcontext_def Let_def split: context_t.splits)
  ultimately show ?thesis using sub [OF m0 f(1) k'(1)] by (simp add: main_lost_def)
qed

section \<open>Properties\<close>

text \<open>
  States for the witnesses: a sub-fiber that has ended, with the thread about to swap into it again,
  and a sub-fiber that is about to swap into a second one.
\<close>

definition demo_ended :: fstate where
  "demo_ended = duo (Resume (In_Main [])) STATE_TERM (Resume (After_Out 1)) None 4096 0 (In_Main [SwapIn 1]) [] 4096"

definition demo_nested :: fstate where
  "demo_nested = \<lparr>
     fs_fibers = [Some \<lparr>fb_id = 0, fb_stack_size = 0, fb_state = STATE_EXEC, fb_ctx = Resume (In_Main []), fb_stack = False,
         fb_cb = None, fb_owned = True\<rparr>,
       Some \<lparr>fb_id = 1, fb_stack_size = 4096, fb_state = STATE_EXEC, fb_ctx = Resume At_MainFunc, fb_stack = True,
         fb_cb = Some [SwapIn 2], fb_owned = True\<rparr>,
       Some \<lparr>fb_id = 2, fb_stack_size = 4096, fb_state = STATE_INIT, fb_ctx = Resume At_MainFunc, fb_stack = True,
         fb_cb = Some [], fb_owned = True\<rparr>],
     fs_t_fiber = Some 1, fs_threadFiber = Some 0, fs_fiber_id = 2, fs_fiber_count = 3, fs_conf_size = 4096,
     fs_control = In_Fiber 1 [SwapIn 2], fs_out = []\<rparr>"

lemma demo_ended_inv: "fiber_inv demo_ended"
  by (auto simp: demo_ended_def duo_def fiber_inv_def fiber_at_def runs_def ctx_fits_def nth_Cons' split: if_splits)

lemma demo_nested_inv: "fiber_inv demo_nested"
  by (auto simp: demo_nested_def fiber_inv_def fiber_at_def runs_def ctx_fits_def nth_Cons' split: if_splits)

text \<open>
  Under the discipline the fiber machine is safe: from any state reached by a thread that has
  asked for its main fiber and keeps to the discipline, a disciplined step never fails an assertion,
  never follows a null or freed pointer and never resumes a stale context, and it keeps the
  invariant: the main fiber stays in execution and holds the way back to the thread's code, exactly
  the current sub-fiber is in state EXEC, and each suspended or finished fiber's context resumes
  where its state says.
\<close>

lemma disciplined_step_safe:
  assumes "fiber_reach code sz s" and "disciplined s"
  shows "\<exists>s'. fiber_step s = Inr s' \<and> fiber_inv s'"
  using fiber_step_inv [OF fiber_reach_inv [OF assms(1)] assms(2)] .

text \<open>
  C23. Fibers take turns: a thread that gives a fiber one turn after each text it emits, and a fiber
  that emits one text per turn and holds in between, produce exactly the alternation of the two
  texts, for any number of turns and any stack size; at the end the thread has run to its end and
  the fiber is in state TERM with its callback released.
\<close>

theorem fibers_take_turns:
  assumes "xs \<noteq> []" and "length ms = length xs"
  shows "\<exists>n s. fiber_run n (thread_start (GetThis_call # New_Fiber (Some (turns xs)) sz # driver ms) conf) = Inr s \<and>
    fs_control s = In_Main [] \<and> fs_out s = alternate ms xs \<and>
    (\<exists>f. fiber_at s 1 = Some f \<and> fb_state f = STATE_TERM \<and> fb_cb f = None)"
  using turn_taking_lemma [OF assms, of sz conf] by (simp add: finished_duo_def)

theorem fibers_take_turns_witness:
  "\<exists>n s. fiber_run n (thread_start (GetThis_call # New_Fiber (Some (turns [''b'', ''d'', ''f''])) 0 # driver [''a'', ''c'', ''e'']) 4096) = Inr s \<and>
     fs_out s = [''a'', ''b'', ''c'', ''d'', ''e'', ''f'']"
  using fibers_take_turns [of "[''b'', ''d'', ''f'']" "[''a'', ''c'', ''e'']" 0 4096] by auto

text \<open>
  TotalFibers counts the living: in every run, disciplined or not, as long as no step fails, the
  64-bit counter is the number of fiber objects that have been constructed and not destroyed.
\<close>

lemma TotalFibers_counts:
  assumes "fiber_run n (thread_start code sz) = Inr s"
  shows "TotalFibers s = of_nat (length (filter (\<lambda>x. x \<noteq> None) (fs_fibers s)))"
  using count_run [OF assms] by (simp add: count_ok_def alive_def thread_start_def TotalFibers_def)

text \<open>
  C38. swapIn of a fiber that has ended aborts the process: the documented precondition, state not
  EXEC, holds and its assertion passes, but the saved context resumes behind the last swapOut of
  MainFunc, where the next assertion fails.
\<close>

theorem swapIn_after_end_aborts:
  assumes "fiber_inv s" and "fs_control s = In_Main (SwapIn n # as)"
    and "n \<noteq> 0" and "fiber_at s n = Some f" and "fb_state f = STATE_TERM \<or> fb_state f = STATE_EXCEPT"
  shows "fiber_run 2 s = Inl (Assert_Fail ''never reach here'')"
  using assms by (rule swapIn_finished)

theorem swapIn_after_end_aborts_witness: "fiber_run 2 demo_ended = Inl (Assert_Fail ''never reach here'')"
proof -
  obtain f where f: "fiber_at demo_ended 1 = Some f" "fb_state f = STATE_TERM"
    by (simp add: demo_ended_def duo_def fiber_at_def)
  have "fs_control demo_ended = In_Main (SwapIn 1 # [])" by (simp add: demo_ended_def duo_def)
  from swapIn_after_end_aborts [OF demo_ended_inv this _ f(1)] f(2) show ?thesis by simp
qed

text \<open>
  C39. A fiber that swaps into another fiber cuts off the thread: the one context that led back to the
  thread's own code is overwritten by that call, and in no continuation of the run, disciplined or
  not, does that code run again.
\<close>

theorem nested_swapIn_loses_main:
  assumes "fiber_inv s" and "fs_control s = In_Fiber n (SwapIn m # as)" and "fiber_step s = Inr s'"
    and "fiber_run k s' = Inr s''"
  shows "fs_control s'' \<noteq> In_Main bs"
  using main_lost_run [OF assms(4) nested_swapIn [OF assms(1-3)]] by (auto simp: main_lost_def is_main_def)

theorem nested_swapIn_loses_main_witness:
  "\<exists>s'. fiber_step demo_nested = Inr s' \<and> (\<exists>s''. fiber_run 1 s' = Inr s'' \<and> fs_control s'' \<noteq> In_Main [])"
proof -
  have "\<exists>s'. fiber_step demo_nested = Inr s' \<and> (\<exists>s''. fiber_run 1 s' = Inr s'')"
    by (simp add: demo_nested_def fiber_step_def swapIn_def swapcontext_def Let_def SetThis_def fiber_at_def put_fiber_def
        MainFunc_enter_def GetThis_def)
  then obtain s' s'' where run: "fiber_step demo_nested = Inr s'" "fiber_run 1 s' = Inr s''" by blast
  have "fs_control demo_nested = In_Fiber 1 (SwapIn 2 # [])" by (simp add: demo_nested_def)
  from nested_swapIn_loses_main [OF demo_nested_inv this run] run show ?thesis by blast
qed

end
