(* ===== verification/Util.thy ===== *)
theory Util
  imports Config_Var
begin

text \<open>
  Backtrace and BacktraceToString (util.cpp), the assertion macros (macro.h) and the two singleton
  templates (singleton.h). What backtrace and backtrace_symbols return is an argument: the names of
  the frames, at most as many as asked for, or None for NULL. So are the loggers, as log interfaces
  over the program's state.
\<close>

section \<open>Backtrace\<close>

text \<open>
  The loop for(size_t i = skip; i < s; ++i): the int skip becomes a 64-bit size_t. The second
  component counts the blocks that malloc gave and that are not freed.
\<close>

definition Backtrace :: "'s log_api \<Rightarrow> (nat \<Rightarrow> string list option) \<Rightarrow> nat \<Rightarrow> int \<Rightarrow> string list \<times> nat \<Rightarrow>
    's \<Rightarrow> (string list \<times> nat, 's) outcome" where
  "Backtrace la symbols sz skip st s = (case st of (bt, blocks) \<Rightarrow>
     let blocks1 = blocks + 1 in
     (case symbols sz of
        None \<Rightarrow> obind (LOG la ERROR ''backtrace_symbols error'' s) (\<lambda>_. Returns (bt, blocks1))
      | Some strings \<Rightarrow>
          let blocks2 = blocks1 + 1; i0 = unat (word_of_int skip :: 64 word) in
          Returns (fold (\<lambda>i bt. bt @ [strings ! i]) [i0..<length strings] bt, blocks2 - 1 - 1) s))"

definition BacktraceToString :: "'s log_api \<Rightarrow> (nat \<Rightarrow> string list option) \<Rightarrow> nat \<Rightarrow> int \<Rightarrow> string \<Rightarrow>
    's \<Rightarrow> (string, 's) outcome" where
  "BacktraceToString la symbols sz skip prefix s = obind (Backtrace la symbols sz skip ([], 0) s)
     (\<lambda>(bt, blocks). Returns (fold (\<lambda>i ss. ss @ prefix @ bt ! i @ nl) [0..<length bt] []))"

lemma fold_nth: "fold (\<lambda>i acc. acc @ [xs ! i]) [k..<length xs] acc = acc @ drop k xs"
proof -
  have "fold (\<lambda>i acc. acc @ [xs ! i]) is acc = acc @ map (\<lambda>i. xs ! i) is" for "is"
    by (induction "is" arbitrary: acc) simp_all
  moreover have "map ((!) xs) [k..<length xs] = drop k xs" by (rule nth_equalityI) auto
  ultimately show ?thesis by simp
qed

lemma fold_lines: "fold (\<lambda>i ss. ss @ f (xs ! i)) [0..<length xs] acc = acc @ concat (map f xs)"
proof -
  have "fold (\<lambda>i ss. ss @ f (xs ! i)) is acc = acc @ concat (map (\<lambda>i. f (xs ! i)) is)" for "is"
    by (induction "is" arbitrary: acc) auto
  moreover have "map (\<lambda>i. f (xs ! i)) [0..<length xs] = map f xs"
    by (rule nth_equalityI) simp_all
  ultimately show ?thesis by simp
qed

text \<open>The skipped prefix is dropped and nothing stays allocated; a negative skip drops everything.\<close>

lemma Backtrace_symbols:
  assumes "symbols sz = Some strings"
  shows "Backtrace la symbols sz skip (bt, blocks) s =
    Returns (bt @ drop (unat (word_of_int skip :: 64 word)) strings, blocks) s"
  using assms by (simp add: Backtrace_def Let_def fold_nth)

lemma Backtrace_null: "symbols sz = None \<Longrightarrow>
    Backtrace la symbols sz skip (bt, blocks) s = obind (LOG la ERROR ''backtrace_symbols error'' s) (\<lambda>_. Returns (bt, blocks + 1))"
  by (simp add: Backtrace_def)

lemma skip_nonneg: "0 \<le> skip \<Longrightarrow> skip < 2 ^ 31 \<Longrightarrow> unat (word_of_int skip :: 64 word) = nat skip"
  by (simp add: unat_eq_nat_uint uint_word_of_int_eq take_bit_int_eq_self)

text \<open>The text: a line per frame that is not skipped; where the symbols fail, a report and no line.\<close>

lemma BacktraceToString_symbols:
  assumes "symbols sz = Some strings" and "0 \<le> skip" and "skip < 2 ^ 31"
  shows "BacktraceToString la symbols sz skip prefix s =
    Returns (concat (map (\<lambda>x. prefix @ x @ nl) (drop (nat skip) strings))) s"
  using assms by (simp add: BacktraceToString_def Backtrace_symbols skip_nonneg fold_lines [where f = "\<lambda>x. prefix @ x @ nl"])

lemma BacktraceToString_null:
  "symbols sz = None \<Longrightarrow> BacktraceToString la symbols sz skip prefix s =
     obind (LOG la ERROR ''backtrace_symbols error'' s) (\<lambda>_. Returns [])"
  by (cases "LOG la ERROR ''backtrace_symbols error'' s") (simp_all add: BacktraceToString_def Backtrace_null)

section \<open>Assertions\<close>

text \<open>
  ASSERT_MACRO and ASSERT_MACRO2, with assertions enabled as the build has them. The record goes to the
  root logger, \<open>root\<close>; \<open>la\<close> is the logger of util.cpp. The text is only made when the level is enabled.
\<close>

definition LOG_backtrace :: "'s log_api \<Rightarrow> Level \<Rightarrow> string \<Rightarrow> ('s \<Rightarrow> (string, 's) outcome) \<Rightarrow> 's \<Rightarrow> (unit, 's) outcome" where
  "LOG_backtrace root level msg bt s =
     (if la_enabled root level s then obind (bt s) (\<lambda>b. la_write root level (msg @ b)) else Returns () s)"

definition ASSERT_MACRO :: "'s log_api \<Rightarrow> 's log_api \<Rightarrow> (nat \<Rightarrow> string list option) \<Rightarrow> bool \<Rightarrow> string \<Rightarrow>
    's \<Rightarrow> (unit, 's) outcome" where
  "ASSERT_MACRO root la symbols x t s =
     (if \<not> x then
        obind (LOG_backtrace root ERROR (''ASSERTION: '' @ t @ nl @ ''backtrace:'' @ nl)
            (BacktraceToString la symbols 100 2 ''    '') s)
          (\<lambda>_ _. Crashes (Assert_Fail t))
      else Returns () s)"

definition ASSERT_MACRO2 :: "'s log_api \<Rightarrow> 's log_api \<Rightarrow> (nat \<Rightarrow> string list option) \<Rightarrow> bool \<Rightarrow> string \<Rightarrow> string \<Rightarrow>
    's \<Rightarrow> (unit, 's) outcome" where
  "ASSERT_MACRO2 root la symbols x t w s =
     (if \<not> x then
        obind (LOG_backtrace root ERROR (''ASSERTION: '' @ t @ nl @ w @ nl @ ''backtrace:'' @ nl)
            (BacktraceToString la symbols 100 2 ''    '') s)
          (\<lambda>_ _. Crashes (Assert_Fail t))
      else Returns () s)"

lemma ASSERT_MACRO_holds [simp]: "ASSERT_MACRO root la symbols True t s = Returns () s"
  by (simp add: ASSERT_MACRO_def)

section \<open>Singletons\<close>

text \<open>
  GetInstance: a function-local static, constructed on the first call. \<open>new\<close> is the constructor
  acting on the program's state; the instance is identified by what it returned.
\<close>

definition GetInstance :: "('s \<Rightarrow> 'p \<times> 's) \<Rightarrow> 'p option \<times> 's \<Rightarrow> 'p \<times> 'p option \<times> 's" where
  "GetInstance new st = (case st of
     (Some v, s) \<Rightarrow> (v, Some v, s)
   | (None, s) \<Rightarrow> (case new s of (v, s') \<Rightarrow> (v, Some v, s')))"

text \<open>SingletonPtr: the static is a shared pointer, so the instance is behind one more pointer.\<close>

definition SingletonPtr_GetInstance :: "('s \<Rightarrow> 'p \<times> 's) \<Rightarrow> 'p option \<times> 's \<Rightarrow> 'p \<times> 'p option \<times> 's" where
  "SingletonPtr_GetInstance new st = (case st of
     (Some v, s) \<Rightarrow> (v, Some v, s)
   | (None, s) \<Rightarrow> (case new s of (v, s') \<Rightarrow> (v, Some v, s')))"

lemma SingletonPtr_same: "SingletonPtr_GetInstance = GetInstance"
  by (simp add: fun_eq_iff SingletonPtr_GetInstance_def GetInstance_def)

fun GetInstances :: "nat \<Rightarrow> ('s \<Rightarrow> 'p \<times> 's) \<Rightarrow> 'p option \<times> 's \<Rightarrow> 'p list \<times> 'p option \<times> 's" where
  "GetInstances 0 new st = ([], st)"
| "GetInstances (Suc n) new st = (case GetInstance new st of (v, st1) \<Rightarrow>
     (case GetInstances n new st1 of (vs, st2) \<Rightarrow> (v # vs, st2)))"

lemma GetInstances_made: "GetInstances n new (Some v, s) = (replicate n v, Some v, s)"
  by (induction n) (simp_all add: GetInstance_def)

lemma GetInstances_first: "new s = (v, s') \<Longrightarrow> GetInstances (Suc n) new (None, s) = (replicate (Suc n) v, Some v, s')"
  by (simp add: GetInstance_def GetInstances_made)

end
