(* ===== verification/Runtime.thy ===== *)
theory Runtime
  imports Fiber Program Util
begin

text \<open>
  Fibers in the running program: fiber.cpp with its calls into the other components, which Fiber
  leaves out. The constructors, the destructor and MainFunc log through the logger "system", the
  assertions through the root logger, the stack size comes from the variable "fiber.stack_size", and
  every record carries the id of the running fiber. The machine refines the one of Fiber.
\<close>

section \<open>State\<close>

text \<open>
  \<open>rt_logger\<close> and \<open>rt_size\<close> are the globals g_logger and g_fiber_stack_size; \<open>rt_symbols\<close> stands for
  backtrace and backtrace_symbols. The field \<open>fs_conf_size\<close> of the fibers' state is what getValue
  returned last.
\<close>

record runtime =
  rt_fib :: fstate
  rt_conf :: "(conf_value, world) config"
  rt_world :: world
  rt_logger :: nat
  rt_size :: "nat option"
  rt_symbols :: "nat \<Rightarrow> string list option"

definition on_fib :: "(fstate \<Rightarrow> fstate) \<Rightarrow> runtime \<Rightarrow> runtime" where
  "on_fib f r = r\<lparr>rt_fib := f (rt_fib r)\<rparr>"

definition lift_fib :: "(fstate \<Rightarrow> fstate res) \<Rightarrow> runtime \<Rightarrow> (unit, runtime) outcome" where
  "lift_fib f r = (case f (rt_fib r) of
     Inr s \<Rightarrow> Returns () (r\<lparr>rt_fib := s\<rparr>) | Inl (Throw e) \<Rightarrow> Raises e r | Inl c \<Rightarrow> Crashes c)"

lemma on_fib_simps [simp]:
  "rt_fib (on_fib f r) = f (rt_fib r)" "rt_conf (on_fib f r) = rt_conf r" "rt_world (on_fib f r) = rt_world r"
  "rt_logger (on_fib f r) = rt_logger r" "rt_size (on_fib f r) = rt_size r" "rt_symbols (on_fib f r) = rt_symbols r"
  by (simp_all add: on_fib_def)

section \<open>Logging from a fiber\<close>

text \<open>GetFiberId of util.cpp: the 64-bit id of the fiber in 32 bits.\<close>

definition util_GetFiberId :: "fstate \<Rightarrow> 32 word" where
  "util_GetFiberId s = ucast (GetFiberId s)"

text \<open>A logger as the macros use it, at a line of a file.\<close>

definition rt_log_api :: "nat \<Rightarrow> string \<Rightarrow> 32 word \<Rightarrow> runtime log_api" where
  "rt_log_api l file line = \<lparr>
     la_enabled = (\<lambda>level r. case get_logger (rt_world r) l of None \<Rightarrow> True | Some lg \<Rightarrow> lg_level lg \<le> level),
     la_write = (\<lambda>level msg r.
       case LOG_LEVEL l level file line msg ((rt_world r)\<lparr>w_fid := util_GetFiberId (rt_fib r)\<rparr>) of
         Inr w \<Rightarrow> Returns () (r\<lparr>rt_world := w\<rparr>) | Inl f \<Rightarrow> Crashes f)\<rparr>"

abbreviation system_log :: "32 word \<Rightarrow> runtime \<Rightarrow> runtime log_api" where
  "system_log line r \<equiv> rt_log_api (rt_logger r) ''fiber.cpp'' line"

abbreviation main_log :: "string \<Rightarrow> 32 word \<Rightarrow> runtime \<Rightarrow> runtime log_api" where
  "main_log file line r \<equiv> rt_log_api (LoggerManager_getRoot (rt_world r)) file line"

abbreviation util_log :: "runtime \<Rightarrow> runtime log_api" where
  "util_log r \<equiv> rt_log_api (rt_logger r) ''util.cpp'' 32"

text \<open>An assertion of fiber.cpp; LOG_ROOT() and the backtrace are as in macro.h.\<close>

definition rt_assert :: "32 word \<Rightarrow> bool \<Rightarrow> string \<Rightarrow> runtime \<Rightarrow> (unit, runtime) outcome" where
  "rt_assert line x t r = ASSERT_MACRO (main_log ''fiber.cpp'' line r) (util_log r) (rt_symbols r) x t r"

section \<open>Operations\<close>

definition rt_Fiber_main :: "runtime \<Rightarrow> (nat, runtime) outcome" where
  "rt_Fiber_main r = (case Fiber_main (rt_fib r) of (n, s) \<Rightarrow>
     obind (LOG (system_log 108 r) DEBUG ''Fiber::Fiber main'' (r\<lparr>rt_fib := s\<rparr>)) (\<lambda>_. Returns n))"

text \<open>g_fiber_stack_size->getValue().\<close>

definition stack_size_value :: "runtime \<Rightarrow> (32 word, runtime) outcome" where
  "stack_size_value r = (case rt_size r of
     None \<Rightarrow> Crashes (Null_Deref ''g_fiber_stack_size'')
   | Some p \<Rightarrow> (case on_var p getValue (rt_conf r, rt_world r) of
       Returns v (c, w) \<Rightarrow> (case v of
         Stack_Size k \<Rightarrow> Returns k (r\<lparr>rt_conf := c, rt_world := w\<rparr>)
       | _ \<Rightarrow> Crashes (Unspecified ''type''))
     | Raises e (c, w) \<Rightarrow> Raises e (r\<lparr>rt_conf := c, rt_world := w\<rparr>)
     | Crashes f \<Rightarrow> Crashes f))"

definition rt_Fiber_new :: "cb \<Rightarrow> 64 word \<Rightarrow> runtime \<Rightarrow> (unit, runtime) outcome" where
  "rt_Fiber_new cb stack_size r0 =
     obind (if stack_size \<noteq> 0 then Returns 0 r0 else stack_size_value r0) (\<lambda>k r.
       let s = Fiber_new cb stack_size ((rt_fib r)\<lparr>fs_conf_size := k\<rparr>) in
       LOG (system_log 137 r) DEBUG (''Fiber::Fiber id='' @ show_nat (unat (fs_fiber_id s))) (r\<lparr>rt_fib := s\<rparr>))"

definition rt_Fiber_dtor :: "nat \<Rightarrow> runtime \<Rightarrow> (unit, runtime) outcome" where
  "rt_Fiber_dtor n r0 = (let r = on_fib (\<lambda>s. s\<lparr>fs_fiber_count := fs_fiber_count s - 1\<rparr>) r0 in
     case fiber_at (rt_fib r) n of
       None \<Rightarrow> Crashes (Unspecified ''use after free'')
     | Some f \<Rightarrow>
         obind (if fb_stack f then
                  rt_assert 148 (finished (fb_state f))
                    ''m_state == STATE_TERM || m_state == STATE_EXCEPT || m_state == STATE_INIT'' r
                else
                  obind (rt_assert 153 (fb_cb f = None) ''!m_cb'' r) (\<lambda>_ r.
                  obind (rt_assert 154 (fb_state f = STATE_EXEC) ''m_state == STATE_EXEC'' r) (\<lambda>_ r.
                    Returns () (if fs_t_fiber (rt_fib r) = Some n then on_fib (SetThis None) r else r))))
           (\<lambda>_ r. obind (LOG (system_log 162 r) DEBUG (''Fiber::~Fiber id='' @ show_nat (unat (fb_id f)) @
                    '' total='' @ show_nat (unat (fs_fiber_count (rt_fib r)))) r)
             (\<lambda>_ r. Returns () (on_fib (put_fiber n None) r))))"

definition rt_Fiber_reset :: "nat \<Rightarrow> cb \<Rightarrow> runtime \<Rightarrow> (unit, runtime) outcome" where
  "rt_Fiber_reset n cb r = (case fiber_at (rt_fib r) n of
     None \<Rightarrow> Crashes (Unspecified ''use after free'')
   | Some f \<Rightarrow>
       obind (rt_assert 172 (fb_stack f) ''m_stack'' r) (\<lambda>_ r.
       obind (rt_assert 173 (finished (fb_state f))
           ''m_state == STATE_TERM || m_state == STATE_EXCEPT || m_state == STATE_INIT'' r) (\<lambda>_ r.
         Returns () (on_fib (put_fiber n
           (Some (f\<lparr>fb_cb := cb, fb_ctx := Resume At_MainFunc, fb_state := STATE_INIT\<rparr>))) r))))"

definition rt_swapIn :: "nat \<Rightarrow> cont \<Rightarrow> runtime \<Rightarrow> (unit, runtime) outcome" where
  "rt_swapIn n k r0 = (let r = on_fib (SetThis (Some n)) r0 in
     case fiber_at (rt_fib r) n of
       None \<Rightarrow> Crashes (Unspecified ''use after free'')
     | Some f \<Rightarrow>
         obind (rt_assert 195 (fb_state f \<noteq> STATE_EXEC) ''m_state != STATE_EXEC'' r) (\<lambda>_.
           lift_fib (\<lambda>s. case fs_threadFiber s of
             None \<Rightarrow> Inl (Null_Deref ''t_threadFiber'')
           | Some m \<Rightarrow> swapcontext m n k (put_fiber n (Some (f\<lparr>fb_state := STATE_EXEC\<rparr>)) s))))"

definition rt_GetThis :: "runtime \<Rightarrow> (nat, runtime) outcome" where
  "rt_GetThis r0 = (case fs_t_fiber (rt_fib r0) of
     Some n \<Rightarrow> Returns n r0
   | None \<Rightarrow> obind (rt_Fiber_main r0) (\<lambda>n r.
       obind (rt_assert 227 (fs_t_fiber (rt_fib r) = Some n) ''t_fiber == main_fiber.get()'' r) (\<lambda>_ r.
         Returns n (on_fib (\<lambda>s. s\<lparr>fs_threadFiber := Some n\<rparr>) r))))"

definition rt_Yield :: "32 word \<Rightarrow> State \<Rightarrow> cont \<Rightarrow> runtime \<Rightarrow> (unit, runtime) outcome" where
  "rt_Yield line st k r0 = obind (rt_GetThis r0) (\<lambda>cur r. case fiber_at (rt_fib r) cur of
     None \<Rightarrow> Crashes (Unspecified ''use after free'')
   | Some f \<Rightarrow>
       obind (rt_assert line (fb_state f = STATE_EXEC) ''cur->m_state == STATE_EXEC'' r) (\<lambda>_.
         lift_fib (\<lambda>s. swapOut cur k (put_fiber cur (Some (f\<lparr>fb_state := st\<rparr>)) s))))"

definition rt_MainFunc_leave :: "nat \<Rightarrow> runtime \<Rightarrow> (unit, runtime) outcome" where
  "rt_MainFunc_leave cur r = (case fiber_at (rt_fib r) cur of
     None \<Rightarrow> Crashes (Unspecified ''use after free'')
   | Some f \<Rightarrow> obind (if fb_owned f then Returns () r else rt_Fiber_dtor cur r) (\<lambda>_. lift_fib (swapOut cur (After_Out cur))))"

definition rt_MainFunc_return :: "nat \<Rightarrow> runtime \<Rightarrow> (unit, runtime) outcome" where
  "rt_MainFunc_return cur r = (case fiber_at (rt_fib r) cur of
     None \<Rightarrow> Crashes (Unspecified ''use after free'')
   | Some f \<Rightarrow> rt_MainFunc_leave cur (on_fib (put_fiber cur (Some (f\<lparr>fb_cb := None, fb_state := STATE_TERM\<rparr>))) r))"

text \<open>The two handlers: for a std::exception with its text, and for anything else.\<close>

definition except_line :: "exn \<Rightarrow> 32 word" where
  "except_line e = (case e of Std_Exception _ \<Rightarrow> 275 | Other_Exception \<Rightarrow> 281)"

definition except_text :: "exn \<Rightarrow> 64 word \<Rightarrow> string" where
  "except_text e i = (case e of Std_Exception what \<Rightarrow> ''Fiber Except: '' @ what | Other_Exception \<Rightarrow> ''Fiber Except'') @
     '' fiber_id='' @ show_nat (unat i) @ nl"

definition rt_MainFunc_catch :: "exn \<Rightarrow> nat \<Rightarrow> runtime \<Rightarrow> (unit, runtime) outcome" where
  "rt_MainFunc_catch e cur r0 = (case fiber_at (rt_fib r0) cur of
     None \<Rightarrow> Crashes (Unspecified ''use after free'')
   | Some f \<Rightarrow> (let r = on_fib (put_fiber cur (Some (f\<lparr>fb_state := STATE_EXCEPT\<rparr>))) r0 in
       obind (LOG_backtrace (system_log (except_line e) r) ERROR (except_text e (fb_id f))
           (BacktraceToString (util_log r) (rt_symbols r) 64 2 '''') r) (\<lambda>_. rt_MainFunc_leave cur)))"

definition rt_MainFunc_enter :: "runtime \<Rightarrow> (unit, runtime) outcome" where
  "rt_MainFunc_enter r0 = obind (rt_GetThis r0) (\<lambda>cur r. case fiber_at (rt_fib r) cur of
     None \<Rightarrow> Crashes (Unspecified ''use after free'')
   | Some f \<Rightarrow> (case fb_cb f of
       Some acts \<Rightarrow> Returns () (on_fib (\<lambda>s. s\<lparr>fs_control := In_Fiber cur acts\<rparr>) r)
     | None \<Rightarrow> rt_MainFunc_catch (Std_Exception ''bad_function_call'') cur r))"

definition rt_drop :: "nat \<Rightarrow> runtime \<Rightarrow> (unit, runtime) outcome" where
  "rt_drop n r = (case fiber_at (rt_fib r) n of
     None \<Rightarrow> Crashes (Unspecified ''use after free'')
   | Some f \<Rightarrow>
       if finished (fb_state f) then rt_Fiber_dtor n r
       else Returns () (on_fib (put_fiber n (Some (f\<lparr>fb_owned := False\<rparr>))) r))"

text \<open>
  The client's code. A text it emits is a record at level INFO of the root logger, from line 1 of its
  own file.
\<close>

definition go_on :: "cont \<Rightarrow> 'a \<Rightarrow> runtime \<Rightarrow> (unit, runtime) outcome" where
  "go_on k _ r = Returns () (on_fib (\<lambda>s. s\<lparr>fs_control := k\<rparr>) r)"

fun rt_perform :: "action \<Rightarrow> cont \<Rightarrow> runtime \<Rightarrow> (unit, runtime) outcome" where
  "rt_perform (Emit x) k r =
     obind (LOG (main_log ''client.cpp'' 1 r) INFO x (on_fib (\<lambda>s. s\<lparr>fs_out := fs_out s @ [x]\<rparr>) r)) (go_on k)"
| "rt_perform GetThis_call k r = obind (rt_GetThis r) (go_on k)"
| "rt_perform (New_Fiber cb sz) k r = obind (rt_Fiber_new cb sz r) (go_on k)"
| "rt_perform (SwapIn n) k r = rt_swapIn n k r"
| "rt_perform YieldToHold_call k r = rt_Yield 250 STATE_HOLD k r"
| "rt_perform YieldToReady_call k r = rt_Yield 239 STATE_READY k r"
| "rt_perform (Reset n cb) k r = obind (rt_Fiber_reset n cb r) (go_on k)"
| "rt_perform (Drop n) k r = obind (rt_drop n r) (go_on k)"
| "rt_perform (Raise e) k r = (case k of In_Fiber n _ \<Rightarrow> rt_MainFunc_catch e n r | _ \<Rightarrow> Raises e r)"

definition rt_step :: "runtime \<Rightarrow> (unit, runtime) outcome" where
  "rt_step r = (case fs_control (rt_fib r) of
     In_Main [] \<Rightarrow> Returns () r
   | In_Main (a # as) \<Rightarrow> rt_perform a (In_Main as) r
   | At_MainFunc \<Rightarrow> rt_MainFunc_enter r
   | In_Fiber n [] \<Rightarrow> rt_MainFunc_return n r
   | In_Fiber n (a # as) \<Rightarrow> rt_perform a (In_Fiber n as) r
   | After_Out n \<Rightarrow> ASSERT_MACRO2 (main_log ''fiber.cpp'' 292 r) (util_log r) (rt_symbols r)
       False ''false'' ([CHR 0x22] @ ''never reach here'' @ [CHR 0x22]) r)"

fun rt_run :: "nat \<Rightarrow> runtime \<Rightarrow> (unit, runtime) outcome" where
  "rt_run 0 r = Returns () r"
| "rt_run (Suc n) r = obind (rt_step r) (\<lambda>_. rt_run n)"

section \<open>What logging leaves alone\<close>

definition conf_size :: "runtime \<Rightarrow> 32 word" where
  "conf_size r = (case rt_size r of
     Some p \<Rightarrow> (case cv_val (cf_vars (rt_conf r) ! p) of Stack_Size k \<Rightarrow> k | _ \<Rightarrow> 0) | None \<Rightarrow> 0)"

text \<open>The state of the abstract machine: there the configured size is a constant of the thread.\<close>

definition fibers_of :: "runtime \<Rightarrow> fstate" where
  "fibers_of r = (rt_fib r)\<lparr>fs_conf_size := conf_size r\<rparr>"

definition rt_ok :: "runtime \<Rightarrow> bool" where
  "rt_ok r \<longleftrightarrow> world_ok (rt_world r) \<and> get_logger (rt_world r) (rt_logger r) \<noteq> None \<and> config_ok (rt_conf r) \<and>
     (\<exists>p k. rt_size r = Some p \<and> p < length (cf_vars (rt_conf r)) \<and> cv_val (cf_vars (rt_conf r) ! p) = Stack_Size k)"

text \<open>A step that only logs: it may only stop at the date buffer.\<close>

definition only_logs :: "runtime \<Rightarrow> ('a, runtime) outcome \<Rightarrow> bool" where
  "only_logs r y = (case y of
     Returns a r' \<Rightarrow> (\<exists>w. r' = r\<lparr>rt_world := w\<rparr> \<and> w_loggers w = w_loggers (rt_world r)) \<and> rt_ok r' | Raises e r' \<Rightarrow> False | Crashes f \<Rightarrow> f = date_fault)"

lemma only_logs_Returns: "rt_ok r \<Longrightarrow> only_logs r (Returns a r)"
  by (cases r) (auto simp: only_logs_def intro: exI [of _ "rt_world r"])

lemma only_logs_obind:
  assumes "only_logs r y" and "\<And>a w. rt_ok (r\<lparr>rt_world := w\<rparr>) \<Longrightarrow> w_loggers w = w_loggers (rt_world r) \<Longrightarrow>
      only_logs (r\<lparr>rt_world := w\<rparr>) (f a (r\<lparr>rt_world := w\<rparr>))"
  shows "only_logs r (obind y f)"
proof (cases y)
  case (Returns a r')
  with assms(1) obtain w where w: "r' = r\<lparr>rt_world := w\<rparr>" "rt_ok r'" "w_loggers w = w_loggers (rt_world r)" by (auto simp: only_logs_def)
  with assms(2) [of w a] have "only_logs r' (f a r')" by simp
  with Returns w(1,3) show ?thesis by (cases "f a r'") (auto simp: only_logs_def)
qed (use assms(1) in \<open>simp_all add: only_logs_def\<close>)

lemma fid_fields [simp]:
  "get_logger (w\<lparr>w_fid := i\<rparr>) l = get_logger w l" "get_appender (w\<lparr>w_fid := i\<rparr>) a = get_appender w a"
  by (simp_all add: get_logger_def get_appender_def)

lemma world_ok_fid: "world_ok w \<Longrightarrow> world_ok (w\<lparr>w_fid := i\<rparr>)"
  by (simp add: world_ok_def logger_ok_def registry_ok_def ready_def)

lemma same_loggers: "w_loggers w = w_loggers w' \<Longrightarrow> get_logger w = get_logger w'"
  by (simp add: get_logger_def fun_eq_iff)

lemma LOG_only_logs:
  assumes ok: "rt_ok r" and lg: "get_logger (rt_world r) l \<noteq> None"
  shows "only_logs r (la_write (rt_log_api l file line) level msg r)"
proof -
  let ?w = "(rt_world r)\<lparr>w_fid := util_GetFiberId (rt_fib r)\<rparr>"
  have wok: "world_ok ?w" using ok by (simp add: rt_ok_def world_ok_fid)
  from lg obtain lg' where lg': "get_logger ?w l = Some lg'" by auto
  have fine: "fine (LOG_LEVEL l level file line msg ?w)"
    unfolding LOG_LEVEL_eq [OF lg'] by (rule fine_log [OF wok lg']) simp
  show ?thesis
  proof (cases "LOG_LEVEL l level file line msg ?w")
    case (Inl f)
    with fine Inl show ?thesis by (simp add: rt_log_api_def only_logs_def fine_def safe_def)
  next
    case (Inr w)
    then have same: "w_loggers w = w_loggers (rt_world r)"
      using Logger_log_frame [of l level _ ?w w] by (simp add: LOG_LEVEL_eq [OF lg'] frame_def)
    moreover have "world_ok w" using fine Inr by (simp add: fine_def)
    ultimately have "rt_ok (r\<lparr>rt_world := w\<rparr>)"
      using ok same_loggers [OF same] by (simp add: rt_ok_def)
    with Inr same show ?thesis by (auto simp: rt_log_api_def only_logs_def)
  qed
qed

lemma rt_ok_root: "rt_ok r \<Longrightarrow> get_logger (rt_world r) (LoggerManager_getRoot (rt_world r)) \<noteq> None"
  using world_ok_registry [of "rt_world r"] by (auto simp: rt_ok_def registry_ok_def LoggerManager_getRoot_def)

lemma rt_ok_system: "rt_ok r \<Longrightarrow> get_logger (rt_world r) (rt_logger r) \<noteq> None"
  by (simp add: rt_ok_def)

lemma LOG_macro_only_logs: "rt_ok r \<Longrightarrow> get_logger (rt_world r) l \<noteq> None \<Longrightarrow> only_logs r (LOG (rt_log_api l file line) level msg r)"
  by (simp add: LOG_def LOG_only_logs only_logs_Returns)

lemma backtrace_only_logs: "rt_ok r \<Longrightarrow> only_logs r (BacktraceToString (util_log r) (rt_symbols r) sz skip prefix r)"
proof (cases "rt_symbols r sz")
  case None
  assume ok: "rt_ok r"
  show ?thesis
    by (subst BacktraceToString_null, rule None,
      rule only_logs_obind [OF LOG_macro_only_logs [OF ok rt_ok_system [OF ok]]]) (simp add: only_logs_Returns)
next
  case (Some strings)
  assume ok: "rt_ok r"
  then show ?thesis by (simp add: BacktraceToString_def Backtrace_def Some Let_def only_logs_Returns)
qed

lemma LOG_backtrace_only_logs:
  assumes ok: "rt_ok r" and lg: "get_logger (rt_world r) l \<noteq> None"
  shows "only_logs r (LOG_backtrace (rt_log_api l file line) level msg (BacktraceToString (util_log r) (rt_symbols r) sz skip prefix) r)"
proof (cases "la_enabled (rt_log_api l file line) level r")
  case True
  have "only_logs (r\<lparr>rt_world := w\<rparr>) (la_write (rt_log_api l file line) level m (r\<lparr>rt_world := w\<rparr>))"
    if "rt_ok (r\<lparr>rt_world := w\<rparr>)" "w_loggers w = w_loggers (rt_world r)" for w m
    using that lg same_loggers [OF that(2)] by (simp add: LOG_only_logs)
  with True show ?thesis
    unfolding LOG_backtrace_def by (simp add: only_logs_obind [OF backtrace_only_logs [OF ok]])
qed (simp add: LOG_backtrace_def only_logs_Returns ok)

section \<open>The machine refines the machine of fibers\<close>

text \<open>
  A result of the runtime and one of the abstract machine agree: both return and reach the same state
  of the fibers, or both throw the same, or both end in the same fault, where the text of a failed
  assertion may differ; the runtime may also stop at the date buffer of a record.
\<close>

definition same_fault :: "fault \<Rightarrow> fault \<Rightarrow> bool" where
  "same_fault f f' \<longleftrightarrow> f = f' \<or> (\<exists>t t'. f = Assert_Fail t \<and> f' = Assert_Fail t')"

definition agrees :: "('a \<Rightarrow> fstate \<Rightarrow> 'b) \<Rightarrow> 'b res \<Rightarrow> ('a, runtime) outcome \<Rightarrow> bool" where
  "agrees g x y = (case y of
     Returns a r \<Rightarrow> rt_ok r \<and> x = Inr (g a (fibers_of r))
   | Raises e r \<Rightarrow> x = Inl (Throw e)
   | Crashes f \<Rightarrow> f = date_fault \<or> (\<exists>f'. x = Inl f' \<and> same_fault f' f))"

abbreviation agree :: "fstate res \<Rightarrow> (unit, runtime) outcome \<Rightarrow> bool" where
  "agree \<equiv> agrees (\<lambda>_ s. s)"

lemma agrees_simps [simp]:
  "agrees g x (Returns a r) = (rt_ok r \<and> x = Inr (g a (fibers_of r)))"
  "agrees g x (Raises e r) = (x = Inl (Throw e))"
  "agrees g (Inl f) (Crashes f)" "agrees g x (Crashes date_fault)" "agrees g (Inr s) (Crashes f) = (f = date_fault)"
  by (simp_all add: agrees_def same_fault_def)

lemma rt_updates [simp]:
  "conf_size (on_fib f r) = conf_size r" "conf_size (r\<lparr>rt_fib := s\<rparr>) = conf_size r"
  "conf_size (r\<lparr>rt_world := w\<rparr>) = conf_size r" "rt_ok (on_fib f r) = rt_ok r" "rt_ok (r\<lparr>rt_fib := s\<rparr>) = rt_ok r"
  "fibers_of (r\<lparr>rt_world := w\<rparr>) = fibers_of r"
  by (simp_all add: conf_size_def rt_ok_def fibers_of_def on_fib_def split: option.split conf_value.split)

lemma agrees_logs:
  assumes "only_logs r y" and "\<And>a w. rt_ok (r\<lparr>rt_world := w\<rparr>) \<Longrightarrow> agrees g x (f a (r\<lparr>rt_world := w\<rparr>))"
  shows "agrees g x (obind y f)"
proof (cases y)
  case (Returns a r')
  with assms(1) obtain w where "r' = r\<lparr>rt_world := w\<rparr>" "rt_ok r'" by (auto simp: only_logs_def)
  with assms(2) [of w a] Returns show ?thesis by simp
qed (use assms(1) in \<open>auto simp: only_logs_def agrees_def\<close>)

lemma agrees_LOG:
  assumes "rt_ok r" and "get_logger (rt_world r) l \<noteq> None"
    and "\<And>w. rt_ok (r\<lparr>rt_world := w\<rparr>) \<Longrightarrow> agrees g x (f () (r\<lparr>rt_world := w\<rparr>))"
  shows "agrees g x (obind (LOG (rt_log_api l file line) level msg r) f)"
  by (rule agrees_logs [OF LOG_macro_only_logs [OF assms(1,2)]]) (simp add: assms(3))

lemma agrees_bind:
  assumes "agrees h x y" and "\<And>a r. rt_ok r \<Longrightarrow> x = Inr (h a (fibers_of r)) \<Longrightarrow> agrees g (F (h a (fibers_of r))) (f a r)"
  shows "agrees g (rbind x F) (obind y f)"
  using assms by (cases y) (auto simp: agrees_def)

lemma assert_fails:
  assumes ok: "rt_ok r"
  shows "rt_assert line False t r = Crashes date_fault \<or> rt_assert line False t r = Crashes (Assert_Fail t)"
proof -
  have "only_logs r (LOG_backtrace (main_log ''fiber.cpp'' line r) ERROR (''ASSERTION: '' @ t @ nl @ ''backtrace:'' @ nl)
      (BacktraceToString (util_log r) (rt_symbols r) 100 2 ''    '') r)"
    by (rule LOG_backtrace_only_logs [OF ok rt_ok_root [OF ok]])
  then show ?thesis
    unfolding rt_assert_def ASSERT_MACRO_def
    by (cases "LOG_backtrace (main_log ''fiber.cpp'' line r) ERROR (''ASSERTION: '' @ t @ nl @ ''backtrace:'' @ nl)
      (BacktraceToString (util_log r) (rt_symbols r) 100 2 ''    '') r") (auto simp: only_logs_def)
qed

lemma agrees_assert:
  assumes "rt_ok r" and "c \<Longrightarrow> agrees g x (f () r)" and "\<not> c \<Longrightarrow> \<exists>e. x = Inl (Assert_Fail e)"
  shows "agrees g x (obind (rt_assert line c t r) f)"
proof (cases c)
  case True
  with assms(2) show ?thesis by (simp add: rt_assert_def)
next
  case False
  with assms(3) assert_fails [OF assms(1), of line t] show ?thesis by (auto simp: agrees_def same_fault_def)
qed

text \<open>The abstract operations do not depend on the configured size, but for the constructor.\<close>

abbreviation sized :: "32 word \<Rightarrow> fstate \<Rightarrow> fstate" where
  "sized c s \<equiv> s\<lparr>fs_conf_size := c\<rparr>"

definition sized_res :: "32 word \<Rightarrow> fstate res \<Rightarrow> fstate res" where
  "sized_res c x = rbind x (\<lambda>s. Inr (sized c s))"

lemma sized_simps [simp]:
  "fiber_at (sized c s) n = fiber_at s n" "put_fiber n f (sized c s) = sized c (put_fiber n f s)"
  "SetThis t (sized c s) = sized c (SetThis t s)"
  by (simp_all add: fiber_at_def put_fiber_def SetThis_def)

lemma sized_swap: "swapcontext n m k (sized c s) = sized_res c (swapcontext n m k s)"
  by (simp add: swapcontext_def sized_res_def Let_def split: option.split context_t.split)

lemma sized_swapOut: "swapOut n k (sized c s) = sized_res c (swapOut n k s)"
  by (simp add: swapOut_def Let_def sized_swap split: option.split) (simp add: sized_res_def)

lemma agrees_lift: "rt_ok r \<Longrightarrow> agree (sized_res (conf_size r) (f (rt_fib r))) (lift_fib f r)"
  by (cases "f (rt_fib r)") (auto simp: lift_fib_def sized_res_def fibers_of_def agrees_def same_fault_def split: fault.split)

lemma fibers_of_on_fib: "fibers_of (on_fib f r) = sized (conf_size r) (f (rt_fib r))"
  by (simp add: fibers_of_def)

lemma agree_Fiber_main: "rt_ok r \<Longrightarrow> agrees Pair (Inr (Fiber_main (fibers_of r))) (rt_Fiber_main r)"
proof -
  assume ok: "rt_ok r"
  obtain n s where ns: "Fiber_main (rt_fib r) = (n, s)" by (cases "Fiber_main (rt_fib r)")
  then have "Fiber_main (fibers_of r) = (n, sized (conf_size r) s)"
    by (auto simp: Fiber_main_def Let_def fibers_of_def SetThis_def)
  then show ?thesis
    unfolding rt_Fiber_main_def ns prod.case
    by (intro agrees_LOG) (use ok rt_ok_system [OF ok] in \<open>simp_all add: fibers_of_def\<close>)
qed

lemma agree_GetThis: "rt_ok r \<Longrightarrow> agrees Pair (Inr (GetThis (fibers_of r))) (rt_GetThis r)"
proof (cases "fs_t_fiber (rt_fib r)")
  case None
  assume ok: "rt_ok r"
  have "agrees Pair (rbind (Inr (Fiber_main (fibers_of r))) (\<lambda>(n, s). Inr (n, s\<lparr>fs_threadFiber := Some n\<rparr>))) (rt_GetThis r)"
    unfolding rt_GetThis_def None option.case
  proof (rule agrees_bind [OF agree_Fiber_main [OF ok]])
    fix n r'
    assume ok': "rt_ok r'" and "Inr (Fiber_main (fibers_of r)) = Inr (n, fibers_of r')"
    then have "Fiber_main (fibers_of r) = (n, fibers_of r')" by simp
    moreover have "fs_t_fiber (snd (Fiber_main s)) = Some (fst (Fiber_main s))" for s
      by (simp add: Fiber_main_def Let_def SetThis_def)
    ultimately have "fs_t_fiber (fibers_of r') = Some n" by (metis fst_conv snd_conv)
    then have "fs_t_fiber (rt_fib r') = Some n" by (simp add: fibers_of_def)
    then show "agrees Pair (case (n, fibers_of r') of (n, s) \<Rightarrow> Inr (n, s\<lparr>fs_threadFiber := Some n\<rparr>))
      (obind (rt_assert 227 (fs_t_fiber (rt_fib r') = Some n) ''t_fiber == main_fiber.get()'' r')
        (\<lambda>_ r. Returns n (on_fib (\<lambda>s. s\<lparr>fs_threadFiber := Some n\<rparr>) r)))"
      using ok' by (intro agrees_assert) (simp_all add: fibers_of_def)
  qed
  moreover have "fs_t_fiber (fibers_of r) = None" using None by (simp add: fibers_of_def)
  ultimately show ?thesis by (cases "Fiber_main (fibers_of r)") (simp add: GetThis_def)
qed (simp add: rt_GetThis_def GetThis_def fibers_of_def)

lemma stack_size_read: "rt_ok r \<Longrightarrow> stack_size_value r = Returns (conf_size r) r"
proof -
  assume ok: "rt_ok r"
  then obtain p k where p: "rt_size r = Some p" "p < length (cf_vars (rt_conf r))" "cv_val (cf_vars (rt_conf r) ! p) = Stack_Size k"
    by (auto simp: rt_ok_def)
  have "cv_idle (cf_vars (rt_conf r) ! p)" using ok p(2) by (auto simp: rt_ok_def intro: config_ok_idle)
  from getValue_eq [OF this] p show ?thesis
    by (cases "rt_conf r") (simp add: stack_size_value_def conf_size_def on_var_def)
qed

lemma agree_Fiber_new: "rt_ok r \<Longrightarrow> agree (Inr (Fiber_new cb sz (fibers_of r))) (rt_Fiber_new cb sz r)"
proof -
  assume ok: "rt_ok r"
  have "Fiber_new cb sz (sized (if sz \<noteq> 0 then 0 else conf_size r) (rt_fib r)) = sized (if sz \<noteq> 0 then 0 else conf_size r) (Fiber_new cb sz (fibers_of r))"
    by (simp add: Fiber_new_def Let_def fibers_of_def)
  then have eq: "sized c (Fiber_new cb sz (sized (if sz \<noteq> 0 then 0 else conf_size r) (rt_fib r))) = sized c (Fiber_new cb sz (fibers_of r))" for c
    by simp
  have self: "sized (conf_size r) (Fiber_new cb sz (fibers_of r)) = Fiber_new cb sz (fibers_of r)"
    by (simp add: Fiber_new_def Let_def fibers_of_def)
  have "rt_Fiber_new cb sz r = (let s = Fiber_new cb sz (sized (if sz \<noteq> 0 then 0 else conf_size r) (rt_fib r)) in
      obind (LOG (system_log 137 r) DEBUG (''Fiber::Fiber id='' @ show_nat (unat (fs_fiber_id s))) (r\<lparr>rt_fib := s\<rparr>)) Returns)"
    by (simp add: rt_Fiber_new_def stack_size_read [OF ok])
  then show ?thesis
    unfolding Let_def
    by (simp only:) (intro agrees_LOG, use ok rt_ok_system [OF ok] eq [of "conf_size r"] self in \<open>simp_all add: fibers_of_def\<close>)
qed

lemma fiber_at_fibers_of [simp]: "fiber_at (fibers_of r) n = fiber_at (rt_fib r) n"
  by (simp add: fibers_of_def)

lemma agrees_last_LOG:
  assumes "rt_ok r" and "get_logger (rt_world r) l \<noteq> None" and "x = Inr (g () (fibers_of r))"
  shows "agrees g x (LOG (rt_log_api l file line) level msg r)"
  using agrees_LOG [OF assms(1,2), where f = Returns and x = x and g = g] assms(3) by simp

lemma agree_Fiber_dtor: "rt_ok r \<Longrightarrow> agree (Fiber_dtor n (fibers_of r)) (rt_Fiber_dtor n r)"
proof -
  assume ok: "rt_ok r"
  let ?r = "on_fib (\<lambda>s. s\<lparr>fs_fiber_count := fs_fiber_count s - 1\<rparr>) r"
  have last: "agree (Inr (put_fiber n None (fibers_of r'))) (obind (LOG (rt_log_api l fl line) DEBUG msg r')
      (\<lambda>_ r. Returns () (on_fib (put_fiber n None) r)))" if "rt_ok r'" "rt_logger r' = l" for r' l fl line msg
    by (rule agrees_LOG) (use that rt_ok_system [OF that(1)] in \<open>simp_all add: fibers_of_def\<close>)
  show ?thesis
  proof (cases "fiber_at (rt_fib r) n")
    case None
    then show ?thesis by (simp add: Fiber_dtor_def rt_Fiber_dtor_def Let_def)
  next
    case (Some f)
    then have at: "fiber_at (rt_fib ?r) n = Some f" by simp
    show ?thesis
    proof (cases "fb_stack f")
      case True
      have "Fiber_dtor n (fibers_of r) = (if \<not> finished (fb_state f) then Inl (Assert_Fail ''~Fiber: m_state'') else Inr (put_fiber n None (fibers_of ?r)))"
        using Some True by (simp add: Fiber_dtor_def Let_def fibers_of_def put_fiber_def)
      then show ?thesis
        unfolding rt_Fiber_dtor_def Let_def at option.case
        using True ok by (simp only: if_True) (rule agrees_assert; simp add: last)
    next
      case False
      have "Fiber_dtor n (fibers_of r) = (if fb_cb f \<noteq> None then Inl (Assert_Fail ''!m_cb'')
          else if fb_state f \<noteq> STATE_EXEC then Inl (Assert_Fail ''m_state == STATE_EXEC'')
          else Inr (put_fiber n None (fibers_of (if fs_t_fiber (rt_fib ?r) = Some n then on_fib (SetThis None) ?r else ?r))))"
        using Some False by (simp add: Fiber_dtor_def Let_def fibers_of_def put_fiber_def SetThis_def)
      moreover have "rt_ok (if fs_t_fiber (rt_fib ?r) = Some n then on_fib (SetThis None) ?r else ?r)"
        using ok by simp
      ultimately show ?thesis
        unfolding rt_Fiber_dtor_def Let_def at option.case
        using False ok by (simp only: if_False obind_assoc) (intro agrees_assert; simp add: last)
    qed
  qed
qed

lemma agree_Fiber_reset: "rt_ok r \<Longrightarrow> agree (Fiber_reset n cb (fibers_of r)) (rt_Fiber_reset n cb r)"
proof (cases "fiber_at (rt_fib r) n")
  case (Some f)
  assume ok: "rt_ok r"
  show ?thesis
    unfolding rt_Fiber_reset_def Fiber_reset_def fiber_at_fibers_of Some option.case
    by (intro agrees_assert) (use ok in \<open>simp_all add: fibers_of_def\<close>)
qed (simp add: rt_Fiber_reset_def Fiber_reset_def)

lemma agree_lift:
  "rt_ok r \<Longrightarrow> (\<And>c s. f (sized c s) = sized_res c (f s)) \<Longrightarrow> agree (f (fibers_of r)) (lift_fib f r)"
  using agrees_lift [of r f] by (simp add: fibers_of_def)

lemma agree_swapIn: "rt_ok r \<Longrightarrow> agree (swapIn n k (fibers_of r)) (rt_swapIn n k r)"
proof -
  assume ok: "rt_ok r"
  let ?r = "on_fib (SetThis (Some n)) r"
  have fo: "SetThis (Some n) (fibers_of r) = fibers_of ?r" by (simp add: fibers_of_def)
  show ?thesis
  proof (cases "fiber_at (rt_fib ?r) n")
    case None
    then have "fiber_at (fibers_of ?r) n = None" by simp
    then show ?thesis unfolding swapIn_def rt_swapIn_def Let_def fo None by simp
  next
    case (Some f)
    then have "fiber_at (fibers_of ?r) n = Some f" by simp
    note at = Some this
    show ?thesis
      unfolding swapIn_def rt_swapIn_def Let_def fo at option.case
    proof (rule agrees_assert)
      let ?f = "\<lambda>s. case fs_threadFiber s of None \<Rightarrow> Inl (Null_Deref ''t_threadFiber'')
        | Some m \<Rightarrow> swapcontext m n k (put_fiber n (Some (f\<lparr>fb_state := STATE_EXEC\<rparr>)) s)"
      assume "fb_state f \<noteq> STATE_EXEC"
      moreover have "agree (?f (fibers_of ?r)) (lift_fib ?f ?r)"
        by (rule agree_lift) (simp_all add: ok sized_swap sized_res_def split: option.split)
      ultimately show "agree (if fb_state f = STATE_EXEC then Inl (Assert_Fail ''m_state != STATE_EXEC'') else ?f (fibers_of ?r)) (lift_fib ?f ?r)"
        by simp
    qed (use ok in simp_all)
  qed
qed

lemma agree_swapOut: "rt_ok r \<Longrightarrow> agree (swapOut n k (fibers_of r)) (lift_fib (swapOut n k) r)"
  by (rule agree_lift) (simp_all add: sized_swapOut)

lemma agree_Yield: "rt_ok r \<Longrightarrow> agree (Yield st k (fibers_of r)) (rt_Yield line st k r)"
proof -
  assume ok: "rt_ok r"
  let ?F = "\<lambda>(cur, s). case fiber_at s cur of None \<Rightarrow> Inl (Unspecified ''use after free'')
     | Some f \<Rightarrow> if fb_state f \<noteq> STATE_EXEC then Inl (Assert_Fail ''cur->m_state == STATE_EXEC'')
       else swapOut cur k (put_fiber cur (Some (f\<lparr>fb_state := st\<rparr>)) s)"
  have "agree (rbind (Inr (GetThis (fibers_of r))) ?F) (rt_Yield line st k r)"
    unfolding rt_Yield_def
  proof (rule agrees_bind [OF agree_GetThis [OF ok]])
    fix cur r'
    assume ok': "rt_ok r'"
    show "agree (?F (cur, fibers_of r')) (case fiber_at (rt_fib r') cur of None \<Rightarrow> Crashes (Unspecified ''use after free'')
       | Some f \<Rightarrow> obind (rt_assert line (fb_state f = STATE_EXEC) ''cur->m_state == STATE_EXEC'' r') (\<lambda>_.
           lift_fib (\<lambda>s. swapOut cur k (put_fiber cur (Some (f\<lparr>fb_state := st\<rparr>)) s))))"
    proof (cases "fiber_at (rt_fib r') cur")
      case (Some f)
      have "agree (swapOut cur k (put_fiber cur (Some (f\<lparr>fb_state := st\<rparr>)) (fibers_of r')))
          (lift_fib (\<lambda>s. swapOut cur k (put_fiber cur (Some (f\<lparr>fb_state := st\<rparr>)) s)) r')"
        by (rule agree_lift) (simp_all add: ok' sized_swapOut)
      then show ?thesis unfolding prod.case fiber_at_fibers_of Some option.case
        by (intro agrees_assert [OF ok']) simp_all
    qed simp
  qed
  then show ?thesis by (simp add: Yield_def)
qed

lemma agree_leave: "rt_ok r \<Longrightarrow> agree (MainFunc_leave cur (fibers_of r)) (rt_MainFunc_leave cur r)"
proof (cases "fiber_at (rt_fib r) cur")
  case (Some f)
  assume ok: "rt_ok r"
  have "agree (if fb_owned f then Inr (fibers_of r) else Fiber_dtor cur (fibers_of r)) (if fb_owned f then Returns () r else rt_Fiber_dtor cur r)"
    using ok agree_Fiber_dtor [OF ok] by simp
  then show ?thesis
    unfolding MainFunc_leave_def rt_MainFunc_leave_def fiber_at_fibers_of Some option.case
    by (rule agrees_bind) (rule agree_swapOut)
qed (simp add: MainFunc_leave_def rt_MainFunc_leave_def)

lemma put_fibers_of: "put_fiber n f (fibers_of r) = fibers_of (on_fib (put_fiber n f) r)"
  by (simp add: fibers_of_def)

lemma agree_return: "rt_ok r \<Longrightarrow> agree (MainFunc_return cur (fibers_of r)) (rt_MainFunc_return cur r)"
  by (simp add: MainFunc_return_def rt_MainFunc_return_def put_fibers_of agree_leave split: option.split)

lemma agree_catch: "rt_ok r \<Longrightarrow> agree (MainFunc_catch cur (fibers_of r)) (rt_MainFunc_catch e cur r)"
proof (cases "fiber_at (rt_fib r) cur")
  case (Some f)
  assume ok: "rt_ok r"
  let ?r = "on_fib (put_fiber cur (Some (f\<lparr>fb_state := STATE_EXCEPT\<rparr>))) r"
  have ok': "rt_ok ?r" using ok by simp
  show ?thesis
    unfolding MainFunc_catch_def rt_MainFunc_catch_def Let_def fiber_at_fibers_of Some option.case put_fibers_of
  proof (rule agrees_logs [OF LOG_backtrace_only_logs [OF ok' rt_ok_system [OF ok']]])
    fix a :: unit and w
    assume "rt_ok (?r\<lparr>rt_world := w\<rparr>)"
    from agree_leave [OF this, of cur]
    show "agree (MainFunc_leave cur (fibers_of ?r)) (rt_MainFunc_leave cur (?r\<lparr>rt_world := w\<rparr>))" by simp
  qed
qed (simp add: MainFunc_catch_def rt_MainFunc_catch_def)

lemma agree_enter: "rt_ok r \<Longrightarrow> agree (MainFunc_enter (fibers_of r)) (rt_MainFunc_enter r)"
proof -
  assume ok: "rt_ok r"
  let ?F = "\<lambda>(cur, s). case fiber_at s cur of None \<Rightarrow> Inl (Unspecified ''use after free'')
     | Some f \<Rightarrow> (case fb_cb f of Some acts \<Rightarrow> Inr (s\<lparr>fs_control := In_Fiber cur acts\<rparr>) | None \<Rightarrow> MainFunc_catch cur s)"
  have "agree (rbind (Inr (GetThis (fibers_of r))) ?F) (rt_MainFunc_enter r)"
    unfolding rt_MainFunc_enter_def
  proof (rule agrees_bind [OF agree_GetThis [OF ok]])
    fix cur r'
    assume "rt_ok r'"
    then show "agree (?F (cur, fibers_of r')) (case fiber_at (rt_fib r') cur of None \<Rightarrow> Crashes (Unspecified ''use after free'')
       | Some f \<Rightarrow> (case fb_cb f of Some acts \<Rightarrow> Returns () (on_fib (\<lambda>s. s\<lparr>fs_control := In_Fiber cur acts\<rparr>) r')
         | None \<Rightarrow> rt_MainFunc_catch (Std_Exception ''bad_function_call'') cur r'))"
      using agree_catch [of r' cur] by (auto simp: fibers_of_def split: option.split)
  qed
  then show ?thesis by (simp add: MainFunc_enter_def)
qed

lemma agree_drop: "rt_ok r \<Longrightarrow> agree (drop_fiber n (fibers_of r)) (rt_drop n r)"
  using agree_Fiber_dtor [of r n] by (auto simp: drop_fiber_def rt_drop_def put_fibers_of split: option.split)

lemma agrees_go_on:
  "agrees h x y \<Longrightarrow> x' = rbind x (\<lambda>b. Inr ((p b)\<lparr>fs_control := k\<rparr>)) \<Longrightarrow> (\<And>a s. p (h a s) = s) \<Longrightarrow> agree x' (obind y (go_on k))"
  by (simp, rule agrees_bind) (auto simp: go_on_def fibers_of_def)

lemma agree_perform: "rt_ok r \<Longrightarrow> agree (perform a k (fibers_of r)) (rt_perform a k r)"
proof (cases a)
  case (Emit x)
  assume ok: "rt_ok r"
  let ?r = "on_fib (\<lambda>s. s\<lparr>fs_out := fs_out s @ [x]\<rparr>) r"
  have "agree (Inr (fibers_of ?r)) (LOG (main_log ''client.cpp'' 1 r) INFO x ?r)"
    by (rule agrees_last_LOG) (use ok rt_ok_root [OF ok] in simp_all)
  from agrees_go_on [OF this, where k = k and p = id]
  have "agree (Inr ((fibers_of ?r)\<lparr>fs_control := k\<rparr>)) (rt_perform a k r)" by (simp add: Emit)
  moreover have "perform a k (fibers_of r) = Inr ((fibers_of ?r)\<lparr>fs_control := k\<rparr>)" by (simp add: Emit fibers_of_def)
  ultimately show ?thesis by simp
next
  case GetThis_call
  assume ok: "rt_ok r"
  from agrees_go_on [OF agree_GetThis [OF ok], where k = k and p = snd] show ?thesis by (simp add: GetThis_call)
next
  case (New_Fiber cb sz)
  assume ok: "rt_ok r"
  from agrees_go_on [OF agree_Fiber_new [OF ok, of cb sz], where k = k and p = id] show ?thesis by (simp add: New_Fiber)
next
  case (Reset n cb)
  assume ok: "rt_ok r"
  from agrees_go_on [OF agree_Fiber_reset [OF ok, of n cb], where k = k and p = id] show ?thesis by (simp add: Reset)
next
  case (Drop n)
  assume ok: "rt_ok r"
  from agrees_go_on [OF agree_drop [OF ok, of n], where k = k and p = id] show ?thesis by (simp add: Drop)
qed (simp_all add: agree_swapIn agree_Yield YieldToHold_def YieldToReady_def agree_catch split: cont.split)

lemma assert2_fails:
  assumes ok: "rt_ok r"
  shows "ASSERT_MACRO2 (main_log f line r) (util_log r) (rt_symbols r) False t x r \<in> {Crashes date_fault, Crashes (Assert_Fail t)}"
proof -
  let ?log = "LOG_backtrace (main_log f line r) ERROR (''ASSERTION: '' @ t @ nl @ x @ nl @ ''backtrace:'' @ nl)
      (BacktraceToString (util_log r) (rt_symbols r) 100 2 ''    '') r"
  have "only_logs r ?log" by (rule LOG_backtrace_only_logs [OF ok rt_ok_root [OF ok]])
  then show ?thesis unfolding ASSERT_MACRO2_def by (cases ?log) (auto simp: only_logs_def)
qed

lemma agree_step: "rt_ok r \<Longrightarrow> agree (fiber_step (fibers_of r)) (rt_step r)"
proof -
  assume ok: "rt_ok r"
  have ctl: "fs_control (fibers_of r) = fs_control (rt_fib r)" by (simp add: fibers_of_def)
  show ?thesis
  proof (cases "fs_control (rt_fib r)")
    case (In_Main as)
    then show ?thesis using ok by (cases as) (simp_all add: fiber_step_def rt_step_def ctl agree_perform)
  next
    case At_MainFunc
    then show ?thesis using ok by (simp add: fiber_step_def rt_step_def ctl agree_enter)
  next
    case (In_Fiber n as)
    then show ?thesis using ok by (cases as) (simp_all add: fiber_step_def rt_step_def ctl agree_perform agree_return)
  next
    case (After_Out n)
    then show ?thesis
      using assert2_fails [OF ok, of "''fiber.cpp''" 292 "''false''" "[CHR 0x22] @ ''never reach here'' @ [CHR 0x22]"]
      by (auto simp: fiber_step_def rt_step_def ctl agrees_def same_fault_def)
  qed
qed

lemma agree_run: "rt_ok r \<Longrightarrow> agree (fiber_run n (fibers_of r)) (rt_run n r)"
proof (induction n arbitrary: r)
  case (Suc n)
  show ?case unfolding fiber_run.simps rt_run.simps
    by (rule agrees_bind [OF agree_step [OF Suc.prems]]) (rule Suc.IH)
qed simp

text \<open>The size of a new fiber's stack.\<close>

lemma new_fiber_size:
  assumes "rt_ok r"
  shows "(\<exists>r' fb. rt_Fiber_new cb 0 r = Returns () r' \<and>
      fiber_at (rt_fib r') (length (fs_fibers (rt_fib r))) = Some fb \<and> fb_stack_size fb = conf_size r) \<or>
    rt_Fiber_new cb 0 r = Crashes date_fault"
proof (cases "rt_Fiber_new cb 0 r")
  case (Returns u r')
  with agree_Fiber_new [OF assms, of cb 0] have "fibers_of r' = Fiber_new cb 0 (fibers_of r)" by simp
  moreover have "fiber_at (fibers_of r') n = fiber_at (rt_fib r') n" for n by simp
  ultimately have "fiber_at (rt_fib r') (length (fs_fibers (rt_fib r))) = fiber_at (Fiber_new cb 0 (fibers_of r)) (length (fs_fibers (rt_fib r)))"
    by metis
  with Returns show ?thesis by (simp add: fiber_at_new) (simp add: fibers_of_def)
next
  case (Raises e r')
  with agree_Fiber_new [OF assms, of cb 0] show ?thesis by simp
next
  case (Crashes f)
  with agree_Fiber_new [OF assms, of cb 0] show ?thesis by simp
qed

end
