(* ===== verification/Runtime_Start.thy ===== *)
theory Runtime_Start
  imports Runtime
begin

text \<open>
  The fibers of a started program: threads of the program whose global objects program_start has
  initialised, what their records print on the console, and the stack size a document sets.
\<close>

section \<open>The started program\<close>

text \<open>A thread of a program with the configuration \<open>c\<close> and the world \<open>w\<close>, before its first step.\<close>

definition program_thread :: "action list \<Rightarrow> (conf_value, world) config \<Rightarrow> world \<Rightarrow> nat \<Rightarrow> nat option \<Rightarrow>
    (nat \<Rightarrow> string list option) \<Rightarrow> runtime" where
  "program_thread code c w l q symbols = \<lparr>rt_fib = thread_start code 0, rt_conf = c, rt_world = w, rt_logger = l,
     rt_size = q, rt_symbols = symbols\<rparr>"

lemma program_thread_ok:
  assumes "program_ok place f line p c w" and "get_logger w l \<noteq> None" and "cf_datas c = [(''fiber.stack_size'', 1), (''logs'', 0)]"
    and "cf_vars c ! 1 = ConfigVar size_type ''fiber.stack_size'' (Stack_Size k) descr"
  shows "rt_ok (program_thread code c w l (Some 1) symbols)"
    and "fibers_of (program_thread code c w l (Some 1) symbols) = thread_start code k"
proof -
  have "om_find (cf_datas c) ''fiber.stack_size'' = Some 1" using assms(3) by (simp add: om_find_def)
  then have "1 < length (cf_vars c)" using config_ok_find assms(1) by (auto simp: program_ok_def)
  with assms show "rt_ok (program_thread code c w l (Some 1) symbols)"
    by (auto simp: rt_ok_def program_ok_def program_thread_def ConfigVar_eq)
  show "fibers_of (program_thread code c w l (Some 1) symbols) = thread_start code k"
    using assms by (simp add: program_thread_def fibers_of_def conf_size_def thread_start_def ConfigVar_eq)
qed

text \<open>
  The states of a disciplined thread. Between its steps the rest of the program may log, reconfigure its
  loggers or let time pass, as long as it leaves the loggers well-formed.
\<close>

inductive rt_reach :: "runtime \<Rightarrow> runtime \<Rightarrow> bool" for r0 where
  rt_begin: "rt_step r0 = Returns () r \<Longrightarrow> rt_reach r0 r"
| rt_next: "rt_reach r0 r \<Longrightarrow> disciplined (rt_fib r) \<Longrightarrow> rt_step r = Returns () r' \<Longrightarrow> rt_reach r0 r'"
| rt_others: "rt_reach r0 r \<Longrightarrow> world_ok w \<Longrightarrow> get_logger w (rt_logger r) \<noteq> None \<Longrightarrow> rt_reach r0 (r\<lparr>rt_world := w\<rparr>)"

lemma disciplined_fibers_of: "disciplined (fibers_of r) = disciplined (rt_fib r)"
proof -
  have "allowed_main (fibers_of r) a = allowed_main (rt_fib r) a" "allowed_fiber (fibers_of r) a = allowed_fiber (rt_fib r) a" for a
    by (cases a; simp add: sub_fiber_def)+
  then show ?thesis by (simp add: disciplined_def fibers_of_def split: cont.split list.split)
qed

lemma rt_reach_fibers:
  assumes "rt_reach r0 r" and "rt_ok r0" and "fibers_of r0 = thread_start (GetThis_call # code) k"
  shows "rt_ok r \<and> fiber_reach code k (fibers_of r)"
  using assms(1)
proof (induction rule: rt_reach.induct)
  case (rt_begin r)
  with agree_step [OF assms(2)] assms(3) show ?case by (auto intro: fiber_begin)
next
  case (rt_next r r')
  then have "rt_ok r'" "fiber_step (fibers_of r) = Inr (fibers_of r')" using agree_step [of r] by auto
  with rt_next show ?case by (auto intro: fiber_next simp: disciplined_fibers_of)
next
  case (rt_others r w)
  then show ?case by (simp add: rt_ok_def)
qed

section \<open>The console\<close>

text \<open>Loggers as the program starts with them: "system" writes through the root, the root to the console.\<close>

definition console_logging :: "nat \<Rightarrow> world \<Rightarrow> bool" where
  "console_logging l w \<longleftrightarrow> world_ok w \<and> w_appenders w = [root_console] \<and> take 1 (w_loggers w) = [root_logger_object] \<and>
     (\<exists>lg. get_logger w l = Some lg \<and> lg_name lg = ''system'' \<and> lg_level lg = DEBUG \<and> lg_appenders lg = [] \<and> lg_root lg = Some 0)"

lemma console_logging_start: "w_loggers w0 = [] \<Longrightarrow> w_appenders w0 = [] \<Longrightarrow> console_logging 1 (system_world w0)"
  using system_world_ok [of w0]
  by (simp add: console_logging_def system_world_def managed_def get_logger_def fresh_logger_def)

lemma console_line:
  assumes con: "console_logging l w" and date: "length (w_strftime w default_date (w_now w)) < 64" and lv: "DEBUG \<le> level"
  shows "LOG_LEVEL l level f line msg w = Inr (print (default_line_text w ''system'' level f line msg) w)"
proof -
  from con obtain lg where ok: "world_ok w" and lg: "get_logger w l = Some lg" "lg_name lg = ''system''" "lg_level lg = DEBUG"
      "lg_appenders lg = []" "lg_root lg = Some 0" by (auto simp: console_logging_def)
  from con obtain ls where ls: "w_loggers w = root_logger_object # ls" "w_appenders w = [root_console]"
    by (cases "w_loggers w") (auto simp: console_logging_def)
  let ?e = "ev_write msg (macro_event l level f line w)"
  have "Logger_log 0 level ?e w = Inr (print (default_line_text w ''system'' level f line msg) w)"
    by (rule managed_root_log [OF ls]) (use default_format [OF lg(1) date] lg(2) lv in simp_all)
  moreover have "Logger_log l level ?e w = Logger_log 0 level ?e w"
    using Logger_log_fallback_root [OF ok lg(1) _ lg(4,5), of level ?e] lg(3) lv by simp
  ultimately show ?thesis by (simp add: LOG_LEVEL_eq [OF lg(1)])
qed

lemma console_logging_fid [simp]: "console_logging l (w\<lparr>w_fid := i\<rparr>) = console_logging l w"
proof -
  have "w\<lparr>w_fid := w_fid w\<rparr> = w" by simp
  then have "world_ok (w\<lparr>w_fid := i\<rparr>) = world_ok w"
    using world_ok_fid [of w i] world_ok_fid [of "w\<lparr>w_fid := i\<rparr>" "w_fid w"] by auto
  then show ?thesis by (simp add: console_logging_def)
qed

text \<open>A record of the fibers, with the low 32 bits of the running fiber's id.\<close>

lemma console_record:
  assumes "console_logging l (rt_world r)" and "length (w_strftime (rt_world r) default_date (w_now (rt_world r))) < 64"
    and "DEBUG \<le> level"
  shows "la_write (rt_log_api l f line) level msg r =
    (let w = (rt_world r)\<lparr>w_fid := util_GetFiberId (rt_fib r)\<rparr> in
     Returns () (r\<lparr>rt_world := print (default_line_text w ''system'' level f line msg) w\<rparr>))"
  using console_line [of l "(rt_world r)\<lparr>w_fid := util_GetFiberId (rt_fib r)\<rparr>" level f line msg] assms
  by (simp add: rt_log_api_def Let_def)

lemma console_enabled: "console_logging l (rt_world r) \<Longrightarrow> DEBUG \<le> level \<Longrightarrow> la_enabled (rt_log_api l f line) level r"
  by (auto simp: console_logging_def rt_log_api_def)

text \<open>The handlers of MainFunc, on the console.\<close>

lemma catch_on_console:
  assumes con: "console_logging (rt_logger r) (rt_world r)"
    and date: "length (w_strftime (rt_world r) default_date (w_now (rt_world r))) < 64"
    and inv: "fiber_inv (fibers_of r)" and run: "fs_t_fiber (rt_fib r) = Some n" "n \<noteq> 0" and f: "fiber_at (rt_fib r) n = Some f"
    and frames: "rt_symbols r 64 = Some frames"
  shows "\<exists>r' as. rt_MainFunc_catch e n r = Returns () r' \<and> fs_control (rt_fib r') = In_Main as \<and>
    fiber_at (rt_fib r') n = Some (f\<lparr>fb_state := STATE_EXCEPT, fb_ctx := Resume (After_Out n)\<rparr>) \<and>
    w_stdout (rt_world r') = w_stdout (rt_world r) @
      default_line_text ((rt_world r)\<lparr>w_fid := ucast (fb_id f)\<rparr>) ''system'' ERROR ''fiber.cpp'' (except_line e)
        (except_text e (fb_id f) @ concat (map (\<lambda>x. x @ nl) (drop 2 frames)))"
proof -
  let ?r = "on_fib (put_fiber n (Some (f\<lparr>fb_state := STATE_EXCEPT\<rparr>))) r"
  let ?line = "default_line_text ((rt_world r)\<lparr>w_fid := ucast (fb_id f)\<rparr>) ''system'' ERROR ''fiber.cpp'' (except_line e)
      (except_text e (fb_id f) @ concat (map (\<lambda>x. x @ nl) (drop 2 frames)))"
  let ?r1 = "?r\<lparr>rt_world := print ?line ((rt_world r)\<lparr>w_fid := ucast (fb_id f)\<rparr>)\<rparr>"
  have con': "console_logging (rt_logger r) (rt_world ?r)" and date': "length (w_strftime (rt_world ?r) default_date (w_now (rt_world ?r))) < 64"
    using con date by simp_all
  have lv: "DEBUG \<le> ERROR" by (simp add: less_eq_Level_def)
  have id: "util_GetFiberId (rt_fib ?r) = ucast (fb_id f)" using run f by (simp add: util_GetFiberId_def GetFiberId_def)
  have "BacktraceToString (util_log ?r) (rt_symbols ?r) 64 2 '''' ?r = Returns (concat (map (\<lambda>x. x @ nl) (drop 2 frames))) ?r"
    by (simp add: BacktraceToString_symbols [where strings = frames] frames)
  then have log: "LOG_backtrace (system_log (except_line e) ?r) ERROR (except_text e (fb_id f))
      (BacktraceToString (util_log ?r) (rt_symbols ?r) 64 2 '''') ?r = Returns () ?r1"
    using console_record [OF con' date' lv] console_enabled [OF con' lv] id by (simp add: LOG_backtrace_def Let_def)
  from fiber_inv_sub [OF inv run(2)] f have own: "fb_owned f" by simp
  have run': "fs_t_fiber (fibers_of r) = Some n" and f': "fiber_at (fibers_of r) n = Some f"
    using run f by (simp_all add: fibers_of_def)
  from leave_ends [OF inv run' run(2) f', of STATE_EXCEPT "fb_cb f"] obtain s' as where
    s': "MainFunc_leave n (put_fiber n (Some (f\<lparr>fb_state := STATE_EXCEPT\<rparr>)) (fibers_of r)) = Inr s'" "fs_control s' = In_Main as"
      "fiber_at s' n = Some (f\<lparr>fb_state := STATE_EXCEPT, fb_ctx := Resume (After_Out n)\<rparr>)" by auto
  let ?X = "put_fiber n (Some (f\<lparr>fb_state := STATE_EXCEPT\<rparr>)) (rt_fib r)"
  have "sized_res (conf_size r) (swapOut n (After_Out n) ?X) = Inr s'"
    using s'(1) own f by (simp add: MainFunc_leave_def fibers_of_def sized_swapOut)
  then obtain s where s: "swapOut n (After_Out n) ?X = Inr s" "s' = sized (conf_size r) s"
    by (auto simp: sized_res_def rbind_eq_Inr)
  have "rt_MainFunc_leave n ?r1 = Returns () (?r1\<lparr>rt_fib := s\<rparr>)"
    using own f s(1) by (simp add: rt_MainFunc_leave_def lift_fib_def)
  then have "rt_MainFunc_catch e n r = Returns () (?r1\<lparr>rt_fib := s\<rparr>)"
    using f log by (simp add: rt_MainFunc_catch_def Let_def)
  moreover have "fs_control s = In_Main as" "fiber_at s n = Some (f\<lparr>fb_state := STATE_EXCEPT, fb_ctx := Resume (After_Out n)\<rparr>)"
    using s'(2,3) s(2) by simp_all
  ultimately show ?thesis by (intro exI [of _ "?r1\<lparr>rt_fib := s\<rparr>"]) simp
qed

section \<open>Properties\<close>

text \<open>A started program whose thread takes its first step.\<close>

lemma first_step:
  assumes "console_logging l w" and "length (w_strftime w default_date (w_now w)) < 64"
  shows "\<exists>r. rt_step (program_thread (GetThis_call # code) c w l q symbols) = Returns () r \<and> fs_control (rt_fib r) = In_Main code"
proof -
  have "DEBUG \<le> DEBUG" by simp
  then show ?thesis
    using assms console_enabled console_record
    by (simp add: rt_step_def program_thread_def thread_start_def rt_GetThis_def rt_Fiber_main_def Fiber_main_def Let_def SetThis_def
        LOG_def console_record console_enabled rt_assert_def go_on_def)
qed

text \<open>A fiber about to throw, in a thread that has nothing left to do after it.\<close>

definition demo_thrower :: fstate where
  "demo_thrower = duo (Resume (In_Main [])) STATE_EXEC (Resume At_MainFunc) (Some []) 4096 1
     (In_Fiber 1 [Raise (Std_Exception ''stop'')]) [] 4096"


text \<open>
  C7. Fibers in the running program behave as the fibers of the machine: whatever the operations log on
  their way, each run of the program's machine over operations with their records, assertions and
  backtraces returns exactly when the run of the abstract machine does, with the same fibers, control
  and output; it throws the same exceptions and ends in the same faults. The one other outcome is the
  unspecified date buffer of a record. The loggers and the configuration stay well-formed.
\<close>

theorem runtime_refines_fibers:
  assumes "rt_ok r"
  shows "case rt_run n r of
      Returns _ r' \<Rightarrow> rt_ok r' \<and> fiber_run n (fibers_of r) = Inr (fibers_of r')
    | Raises e _ \<Rightarrow> fiber_run n (fibers_of r) = Inl (Throw e)
    | Crashes f \<Rightarrow> f = date_fault \<or> (\<exists>f'. fiber_run n (fibers_of r) = Inl f' \<and> same_fault f' f)"
  using agree_run [OF assms, of n] unfolding agrees_def .

theorem runtime_refines_fibers_witness:
  "\<exists>c. case rt_run 2 (program_thread [GetThis_call, Emit ''a''] c (system_world blank_world) 1 (Some 1) (\<lambda>_. None)) of
      Returns _ r' \<Rightarrow> rt_ok r' \<and> fiber_run 2 (thread_start [GetThis_call, Emit ''a''] 1048576) = Inr (fibers_of r')
    | Raises e _ \<Rightarrow> fiber_run 2 (thread_start [GetThis_call, Emit ''a''] 1048576) = Inl (Throw e)
    | Crashes f \<Rightarrow> f = date_fault \<or> (\<exists>f'. fiber_run 2 (thread_start [GetThis_call, Emit ''a''] 1048576) = Inl f' \<and> same_fault f' f)"
proof -
  obtain c where po: "program_ok ''log.cpp905'' ''log.cpp'' 861 0 c (system_world blank_world)"
    and data: "cf_datas c = [(''fiber.stack_size'', 1), (''logs'', 0)]"
    and sz: "cf_vars c ! 1 = ConfigVar size_type ''fiber.stack_size'' (Stack_Size 1048576) ''fiber stack size''"
    using program_start_eq [OF blank_simps(1,2)] by blast
  have "get_logger (system_world blank_world) 1 \<noteq> None"
    using console_logging_start [OF blank_simps(1,2)] by (auto simp: console_logging_def)
  note start = program_thread_ok [OF po this data sz, of "[GetThis_call, Emit ''a'']" "\<lambda>_. None"]
  from runtime_refines_fibers [OF start(1), of 2] show ?thesis unfolding start(2) by (rule exI)
qed

text \<open>
  C6. Fibers in a started program are safe: in a thread of a program whose global objects have been
  initialised, which has asked for its main fiber and keeps to the discipline, whatever the rest of the
  program does to the loggers in between, every step returns with loggers, configuration and fibers
  well-formed: no assertion fails and no null, freed or stale pointer is followed. The one other
  outcome is the unspecified date buffer of a record.
\<close>

theorem program_fibers_safe:
  assumes "w_loggers w0 = []" and "w_appenders w0 = []"
    and "program_start conv place f line w0 = Returns (p, q) (c, w)" and "LoggerManager_getLogger ''system'' w = Inr (l, w')"
    and "rt_reach (program_thread (GetThis_call # code) c w l q symbols) r" and "disciplined (rt_fib r)"
  shows "(\<exists>r'. rt_step r = Returns () r' \<and> rt_ok r' \<and> fiber_inv (fibers_of r')) \<or> rt_step r = Crashes date_fault"
proof -
  from program_start_eq [OF assms(1,2), of conv place f line] assms(3) have eq: "q = Some 1" "w = system_world w0"
    and po: "program_ok place f line 0 c (system_world w0)" and len: "cf_datas c = [(''fiber.stack_size'', 1), (''logs'', 0)]"
    and sz: "cf_vars c ! 1 = ConfigVar size_type ''fiber.stack_size'' (Stack_Size 1048576) ''fiber stack size''"
    and sys: "LoggerManager_getLogger ''system'' (system_world w0) = Inr (1, system_world w0)" by auto
  have lg: "l = 1" "get_logger (system_world w0) 1 \<noteq> None"
    using assms(4) sys console_logging_start [OF assms(1,2)] by (auto simp: eq console_logging_def)
  note start = program_thread_ok [OF po lg(2) len sz, of "GetThis_call # code" symbols]
  from rt_reach_fibers [OF assms(5) [unfolded eq lg(1)] start]
  have ok: "rt_ok r" and reach: "fiber_reach code 1048576 (fibers_of r)" by simp_all
  from fiber_step_inv [OF fiber_reach_inv [OF reach]] assms(6) obtain s' where
    "fiber_step (fibers_of r) = Inr s'" "fiber_inv s'" by (auto simp: disciplined_fibers_of)
  with agree_step [OF ok] show ?thesis by (cases "rt_step r") auto
qed

theorem program_fibers_safe_witness:
  "\<exists>c w r. program_start (program_casts demo_tree (\<lambda>t. Inr 0)) ''log.cpp905'' ''log.cpp'' 861 blank_world =
      Returns (Some 0, Some 1) (c, w) \<and>
    rt_step (program_thread [GetThis_call, New_Fiber (Some []) 0] c w 1 (Some 1) (\<lambda>_. None)) = Returns () r \<and>
    ((\<exists>r'. rt_step r = Returns () r' \<and> rt_ok r' \<and> fiber_inv (fibers_of r')) \<or> rt_step r = Crashes date_fault)"
proof -
  obtain c where start: "program_start (program_casts demo_tree (\<lambda>t. Inr 0)) ''log.cpp905'' ''log.cpp'' 861 blank_world =
      Returns (Some 0, Some 1) (c, system_world blank_world)"
    and sys: "LoggerManager_getLogger ''system'' (system_world blank_world) = Inr (1, system_world blank_world)"
    using program_start_eq [OF blank_simps(1,2)] by blast
  have "length (w_strftime (system_world blank_world) default_date (w_now (system_world blank_world))) < 64"
    by (simp add: system_world_def managed_def blank_simps)
  from first_step [OF console_logging_start [OF blank_simps(1,2)] this] obtain r where
    r: "rt_step (program_thread [GetThis_call, New_Fiber (Some []) 0] c (system_world blank_world) 1 (Some 1) (\<lambda>_. None)) = Returns () r"
    "fs_control (rt_fib r) = In_Main [New_Fiber (Some []) 0]" by blast
  then have "disciplined (rt_fib r)" by (simp add: disciplined_def)
  from program_fibers_safe [OF blank_simps(1,2) start sys rt_begin [OF r(1)] this] start r(1) show ?thesis by blast
qed

text \<open>
  C25. A fiber's exception is caught and reported: when the fibers of the thread are well-formed and the
  callback of the running one throws, while the loggers are as the program starts with them ("system" at
  level DEBUG without appenders of its own, the root at level DEBUG with the one console appender and
  the default pattern), dates fit the formatter's buffer and backtrace_symbols answers with the names of
  the frames, the step returns; the console has gained exactly one line, at level ERROR of the logger
  "system", with the low 32 bits of the fiber's id as the fiber of the record, the text of a standard
  exception, the whole id, and the backtrace without its first two frames; the fiber is in state EXCEPT
  and control is back in the thread's own code.
\<close>

theorem fiber_exception_reported:
  assumes "console_logging (rt_logger r) (rt_world r)" and "length (w_strftime (rt_world r) default_date (w_now (rt_world r))) < 64"
    and "fiber_inv (fibers_of r)" and "fs_control (rt_fib r) = In_Fiber n (Raise e # as)"
    and "fiber_at (rt_fib r) n = Some f" and "rt_symbols r 64 = Some frames"
  shows "\<exists>r' bs. rt_step r = Returns () r' \<and> fs_control (rt_fib r') = In_Main bs \<and>
    fiber_at (rt_fib r') n = Some (f\<lparr>fb_state := STATE_EXCEPT, fb_ctx := Resume (After_Out n)\<rparr>) \<and>
    w_stdout (rt_world r') = w_stdout (rt_world r) @
      default_line_text ((rt_world r)\<lparr>w_fid := ucast (fb_id f)\<rparr>) ''system'' ERROR ''fiber.cpp''
        (case e of Std_Exception _ \<Rightarrow> 275 | Other_Exception \<Rightarrow> 281)
        ((case e of Std_Exception what \<Rightarrow> ''Fiber Except: '' @ what | Other_Exception \<Rightarrow> ''Fiber Except'') @
          '' fiber_id='' @ show_nat (unat (fb_id f)) @ nl @ concat (map (\<lambda>x. x @ nl) (drop 2 frames)))"
proof -
  have "fs_control (fibers_of r) = In_Fiber n (Raise e # as)" using assms(4) by (simp add: fibers_of_def)
  with assms(3) have "fs_t_fiber (fibers_of r) = Some n" "n \<noteq> 0" by (auto simp: fiber_inv_def runs_def)
  then have "fs_t_fiber (rt_fib r) = Some n" "n \<noteq> 0" by (simp_all add: fibers_of_def)
  from catch_on_console [OF assms(1-3) this assms(5,6), of e] assms(4) show ?thesis
    by (auto simp: rt_step_def except_line_def except_text_def)
qed

lemma demo_numbers:
  "show_nat 12 = ''12''" "show_nat (Suc 0) = ''1''" "show_int 275 = ''275''"
  by code_simp+

theorem fiber_exception_reported_witness:
  "\<exists>c r'. rt_step \<lparr>rt_fib = demo_thrower, rt_conf = c, rt_world = system_world blank_world, rt_logger = 1, rt_size = Some 1,
        rt_symbols = (\<lambda>_. Some [''f0'', ''f1'', ''f2''])\<rparr> = Returns () r' \<and> (\<exists>bs. fs_control (rt_fib r') = In_Main bs) \<and>
     w_stdout (rt_world r') = ''start 2022'' @ tab @ ''12'' @ tab @ ''main'' @ tab @ ''1'' @ tab @ ''[ERROR]'' @ tab @
       ''[system]'' @ tab @ ''fiber.cpp:275'' @ tab @ ''Fiber Except: stop fiber_id=1'' @ nl @ ''f2'' @ nl @ nl"
proof -
  let ?r = "\<lparr>rt_fib = demo_thrower, rt_conf = new_config, rt_world = system_world blank_world, rt_logger = 1, rt_size = Some 1,
      rt_symbols = (\<lambda>_. Some [''f0'', ''f1'', ''f2''])\<rparr>"
  have at: "fiber_at (rt_fib ?r) 1 = Some \<lparr>fb_id = 1, fb_stack_size = 4096, fb_state = STATE_EXEC, fb_ctx = Resume At_MainFunc,
      fb_stack = True, fb_cb = Some [], fb_owned = True\<rparr>" by (simp add: demo_thrower_def duo_def fiber_at_def)
  have inv: "fiber_inv (fibers_of ?r)"
    by (auto simp: fibers_of_def demo_thrower_def duo_def fiber_inv_def fiber_at_def runs_def ctx_fits_def nth_Cons' split: if_splits)
  have ctl: "fs_control (rt_fib ?r) = In_Fiber 1 (Raise (Std_Exception ''stop'') # [])" by (simp add: demo_thrower_def duo_def)
  have con: "console_logging (rt_logger ?r) (rt_world ?r)" using console_logging_start [OF blank_simps(1,2)] by simp
  have date: "length (w_strftime (rt_world ?r) default_date (w_now (rt_world ?r))) < 64"
    by (simp add: system_world_def managed_def blank_simps)
  have line: "default_line_text ((system_world blank_world)\<lparr>w_fid := 1\<rparr>) ''system'' ERROR ''fiber.cpp'' 275 msg =
      ''2022'' @ tab @ ''12'' @ tab @ ''main'' @ tab @ ''1'' @ tab @ ''[ERROR]'' @ tab @ ''[system]'' @ tab @ ''fiber.cpp:275'' @ tab @ msg @ nl" for msg
    by (simp add: default_line_text_def system_world_def managed_def blank_simps ToString_def demo_numbers)
  have out: "w_stdout (system_world blank_world) = ''start ''" by (simp add: system_world_def managed_def blank_simps)
  from fiber_exception_reported [OF con date inv ctl at] show ?thesis
    by (intro exI [of _ new_config]) (auto simp: line out demo_numbers)
qed

text \<open>
  C5. A document sets the stack size of the fibers to come: in a started program, loading a document that
  names "fiber.stack_size", last with a text that casts to k, and does not name "logs", returns, and
  every fiber that a thread then makes without a size of its own has a stack of k bytes. The one other
  outcome is the unspecified date buffer of a report or a record.
\<close>

theorem document_sets_stack_size:
  assumes "program_ok place f line p c w" and "get_logger w l \<noteq> None"
    and "om_find (cf_datas c) ''fiber.stack_size'' = Some q" and "cv_type (cf_vars c ! q) = size_type"
    and "\<forall>t. throws (to_uint t)" and "nested d Y root"
    and "members d Y [] root = xs @ (''fiber.stack_size'', node) # ys" and "''fiber.stack_size'' \<notin> fst ` set ys"
    and "''logs'' \<notin> fst ` set (xs @ ys)" and "to_uint (node_text Y node) = Inr k"
  shows "(\<exists>c' w'. LoadFromYaml d (program_casts Y to_uint) Y (root_log g m) root (c, w) = Returns () (c', w') \<and>
      (\<forall>r cb. rt_conf r = c' \<longrightarrow> rt_world r = w' \<longrightarrow> rt_logger r = l \<longrightarrow> rt_size r = Some q \<longrightarrow>
        (\<exists>r' fb. rt_Fiber_new cb 0 r = Returns () r' \<and>
          fiber_at (rt_fib r') (length (fs_fibers (rt_fib r))) = Some fb \<and> fb_stack_size fb = k) \<or>
        rt_Fiber_new cb 0 r = Crashes date_fault)) \<or>
    LoadFromYaml d (program_casts Y to_uint) Y (root_log g m) root (c, w) = Crashes date_fault"
proof -
  have no: "''logs'' \<notin> fst ` set (members d Y [] root)" using assms(9) by (simp add: assms(7))
  note load = load_without_logs [where f = g and l = m and to_uint = to_uint, OF assms(1) assms(5) [rule_format] assms(6) no]
  show ?thesis
  proof (cases "LoadFromYaml d (program_casts Y to_uint) Y (root_log g m) root (c, w)")
    case (Returns u cs)
    obtain c' w' where cs: "cs = (c', w')" by (cases cs)
    note run = Returns [unfolded cs]
    with load have po: "program_ok place f line p c' w'" and fr: "frame w w'" by simp_all
    have ok: "config_ok c" using assms(1) by (simp add: program_ok_def)
    from config_ok_find [OF ok assms(3)] have q: "q < length (cf_vars c)" "cv_name (cf_vars c ! q) = ''fiber.stack_size''" by simp_all
    have "om_find (cf_datas c) ''logs'' = Some p" using assms(1) by (simp add: program_ok_def)
    with config_ok_find [OF ok this] q(2) have "q \<noteq> p" by auto
    with assms(1) q(1) have nr: "never_raises (cf_vars c ! q)" by (simp add: program_ok_def never_raises_def)
    have conv: "casts (fst (program_casts Y to_uint (cv_type (cf_vars c ! q)))) (node_text Y node) (Stack_Size k)"
      using assms(10) by (simp add: assms(4) program_casts_def size_type_def logs_type_def casts_def pure_cast_def)
    have val: "cv_val (cf_vars c' ! q) = Stack_Size k"
      by (rule load_value [OF ok assms(7,8) _ assms(3) nr conv run]) simp
    have "q < length (cf_vars c')"
      using LoadFromYaml_ends [OF ok, of d Y root "program_casts Y to_uint" "root_log g m" w] run q(1) loads_length by fastforce
    then have "rt_ok r \<and> conf_size r = k" if "rt_conf r = c'" "rt_world r = w'" "rt_logger r = l" "rt_size r = Some q" for r
      using that po val assms(2) frame_get_logger [OF fr] by (simp add: rt_ok_def conf_size_def program_ok_def)
    with new_fiber_size have "(\<exists>r' fb. rt_Fiber_new cb 0 r = Returns () r' \<and>
          fiber_at (rt_fib r') (length (fs_fibers (rt_fib r))) = Some fb \<and> fb_stack_size fb = k) \<or>
        rt_Fiber_new cb 0 r = Crashes date_fault"
      if "rt_conf r = c'" "rt_world r = w'" "rt_logger r = l" "rt_size r = Some q" for r cb using that by metis
    with run show ?thesis by (intro disjI1 exI [of _ c'] exI [of _ w']) simp
  qed (use load in simp_all)
qed

text \<open>The document, and the cast of its number.\<close>

definition size_document :: ynode where
  "size_document = YMap [(YScalar ''fiber'', YMap [(YScalar ''stack_size'', YScalar ''65536'')])]"

definition to_u32 :: "string \<Rightarrow> 32 word res" where
  "to_u32 s = (if s = ''65536'' then Inr 65536 else Inl (Throw (Std_Exception ''bad_lexical_cast'')))"

lemma size_members:
  "members 3 demo_tree [] size_document =
     [([], size_document), (''fiber'', YMap [(YScalar ''stack_size'', YScalar ''65536'')])] @ (''fiber.stack_size'', YScalar ''65536'') # []"
  "nested 3 demo_tree size_document"
  by (simp_all add: numeral_3_eq_3 size_document_def tree_yaml_def find_first_not_of_None member_chars_def)

theorem document_sets_stack_size_witness:
  "\<exists>c w. program_start (program_casts demo_tree to_u32) ''log.cpp905'' ''log.cpp'' 861 blank_world = Returns (Some 0, Some 1) (c, w) \<and>
    ((\<exists>c' w'. LoadFromYaml 3 (program_casts demo_tree to_u32) demo_tree (root_log ''config.cpp'' 50) size_document (c, w) =
        Returns () (c', w') \<and>
        (let r = program_thread [New_Fiber None 0] c' w' 1 (Some 1) (\<lambda>_. None) in
         (\<exists>r' fb. rt_Fiber_new None 0 r = Returns () r' \<and> fiber_at (rt_fib r') 0 = Some fb \<and> fb_stack_size fb = 65536) \<or>
         rt_Fiber_new None 0 r = Crashes date_fault)) \<or>
     LoadFromYaml 3 (program_casts demo_tree to_u32) demo_tree (root_log ''config.cpp'' 50) size_document (c, w) = Crashes date_fault)"
proof -
  obtain c where start: "program_start (program_casts demo_tree to_u32) ''log.cpp905'' ''log.cpp'' 861 blank_world =
      Returns (Some 0, Some 1) (c, system_world blank_world)"
    and po: "program_ok ''log.cpp905'' ''log.cpp'' 861 0 c (system_world blank_world)"
    and sz: "cf_vars c ! 1 = ConfigVar size_type ''fiber.stack_size'' (Stack_Size 1048576) ''fiber stack size''"
    and data: "cf_datas c = [(''fiber.stack_size'', 1), (''logs'', 0)]"
    using program_start_eq [OF blank_simps(1,2)] by blast
  have lg: "get_logger (system_world blank_world) 1 \<noteq> None"
    using console_logging_start [OF blank_simps(1,2)] by (auto simp: console_logging_def)
  have q: "om_find (cf_datas c) ''fiber.stack_size'' = Some 1" "cv_type (cf_vars c ! 1) = size_type"
    using data sz by (simp_all add: om_find_def ConfigVar_eq)
  have u: "\<forall>t. throws (to_u32 t)" "to_u32 (node_text demo_tree (YScalar ''65536'')) = Inr 65536"
    by (simp_all add: to_u32_def throws_def node_text_def tree_yaml_def)
  have last: "''fiber.stack_size'' \<notin> fst ` set []"
    "''logs'' \<notin> fst ` set ([([], size_document), (''fiber'', YMap [(YScalar ''stack_size'', YScalar ''65536'')])] @ [])" by simp_all
  let ?load = "LoadFromYaml 3 (program_casts demo_tree to_u32) demo_tree (root_log ''config.cpp'' 50) size_document (c, system_world blank_world)"
  from document_sets_stack_size [OF po lg q u(1) size_members(2,1) last u(2), of "''config.cpp''" 50] show ?thesis
  proof (elim disjE exE conjE)
    fix c' w'
    assume load: "?load = Returns () (c', w')" and sizes: "\<forall>r cb. rt_conf r = c' \<longrightarrow> rt_world r = w' \<longrightarrow> rt_logger r = 1 \<longrightarrow>
      rt_size r = Some 1 \<longrightarrow> (\<exists>r' fb. rt_Fiber_new cb 0 r = Returns () r' \<and>
        fiber_at (rt_fib r') (length (fs_fibers (rt_fib r))) = Some fb \<and> fb_stack_size fb = 65536) \<or> rt_Fiber_new cb 0 r = Crashes date_fault"
    let ?r = "program_thread [New_Fiber None 0] c' w' 1 (Some 1) (\<lambda>_. None)"
    have "length (fs_fibers (rt_fib ?r)) = 0" by (simp add: program_thread_def thread_start_def)
    with sizes [rule_format, of ?r None] start load show ?thesis
      by (intro exI [of _ c] exI [of _ "system_world blank_world"]) (simp add: program_thread_def Let_def)
  qed (use start in blast)
qed

end
