(* ===== verification/Fiber_Threads.thy ===== *)
theory Fiber_Threads
  imports Fiber
begin

text \<open>
  Fibers in several threads (fiber.cpp): t_fiber and t_threadFiber are thread_local, and a fiber stays
  with the thread that made it; the atomics s_fiber_id and s_fiber_count are shared. A step of a thread
  changes each of the two at most once, so a step is the unit of the interleaving. The theory relates
  an interleaved run to the runs of the threads on their own.
\<close>

section \<open>The machine\<close>

record fthreads =
  ft_threads :: "fstate list"
  ft_fiber_id :: "64 word"
  ft_fiber_count :: "64 word"

text \<open>A thread as it sees the shared counters.\<close>

definition seen_by :: "fthreads \<Rightarrow> fstate \<Rightarrow> fstate" where
  "seen_by m s = s\<lparr>fs_fiber_id := ft_fiber_id m, fs_fiber_count := ft_fiber_count m\<rparr>"

definition threads_start :: "action list list \<Rightarrow> 32 word \<Rightarrow> fthreads" where
  "threads_start codes conf_size = \<lparr>ft_threads = map (\<lambda>code. thread_start code conf_size) codes,
     ft_fiber_id = 0, ft_fiber_count = 0\<rparr>"

text \<open>One step of thread \<open>i\<close>; a fault ends the process, whichever thread it is in.\<close>

definition threads_step :: "nat \<Rightarrow> fthreads \<Rightarrow> fthreads res" where
  "threads_step i m = (if i < length (ft_threads m)
     then rbind (fiber_step (seen_by m (ft_threads m ! i))) (\<lambda>s. Inr (m\<lparr>ft_threads := (ft_threads m)[i := s],
        ft_fiber_id := fs_fiber_id s, ft_fiber_count := fs_fiber_count s\<rparr>))
     else Inr m)"

fun threads_run :: "nat list \<Rightarrow> fthreads \<Rightarrow> fthreads res" where
  "threads_run [] m = Inr m"
| "threads_run (i # sched) m = rbind (threads_step i m) (threads_run sched)"

section \<open>What a step does not depend on\<close>

text \<open>Two states that differ in the ids of fibers and in the two counters.\<close>

definition strip_id :: "fiber \<Rightarrow> fiber" where
  "strip_id f = f\<lparr>fb_id := 0\<rparr>"

definition erase_ids :: "fstate \<Rightarrow> fstate" where
  "erase_ids s = s\<lparr>fs_fibers := map (map_option strip_id) (fs_fibers s), fs_fiber_id := 0, fs_fiber_count := 0\<rparr>"

definition alike :: "fstate \<Rightarrow> fstate \<Rightarrow> bool" where
  "alike s t \<longleftrightarrow> erase_ids s = erase_ids t"

abbreviation alike_res :: "fstate res \<Rightarrow> fstate res \<Rightarrow> bool" where
  "alike_res \<equiv> rel_sum (=) alike"

lemma alike_refl [simp]: "alike s s"
  by (simp add: alike_def)

lemma alike_sym: "alike s t \<Longrightarrow> alike t s"
  by (simp add: alike_def)

lemma alike_trans: "alike s t \<Longrightarrow> alike t u \<Longrightarrow> alike s u"
  by (simp add: alike_def)

lemma alike_iff: "alike s t \<longleftrightarrow> map (map_option strip_id) (fs_fibers s) = map (map_option strip_id) (fs_fibers t) \<and>
    fs_t_fiber s = fs_t_fiber t \<and> fs_threadFiber s = fs_threadFiber t \<and> fs_conf_size s = fs_conf_size t \<and>
    fs_control s = fs_control t \<and> fs_out s = fs_out t"
  by (cases s; cases t) (auto simp: alike_def erase_ids_def)

lemma alike_seen [simp]: "alike (seen_by m s) s"
  by (simp add: alike_iff seen_by_def)

lemma alike_fields:
  assumes "alike s t"
  shows "fs_t_fiber s = fs_t_fiber t" "fs_threadFiber s = fs_threadFiber t" "fs_control s = fs_control t"
    "fs_out s = fs_out t" "fs_conf_size s = fs_conf_size t" "length (fs_fibers s) = length (fs_fibers t)"
  using assms map_eq_imp_length_eq by (auto simp: alike_iff)

lemma alike_at:
  assumes "alike s t"
  obtains "fiber_at s n = None" "fiber_at t n = None"
  | f i where "fiber_at s n = Some f" "fiber_at t n = Some (f\<lparr>fb_id := i\<rparr>)"
proof -
  have len: "length (fs_fibers s) = length (fs_fibers t)" using alike_fields [OF assms] by simp
  have "map_option strip_id (fiber_at s n) = map_option strip_id (fiber_at t n)"
  proof (cases "n < length (fs_fibers s)")
    case True
    with assms have "map (map_option strip_id) (fs_fibers s) ! n = map (map_option strip_id) (fs_fibers t) ! n"
      by (simp add: alike_iff)
    with True len show ?thesis by (simp add: fiber_at_def)
  qed (use len in \<open>simp add: fiber_at_def\<close>)
  then show thesis
  proof (cases "fiber_at s n")
    case (Some f)
    with \<open>map_option strip_id (fiber_at s n) = _\<close> obtain g where "fiber_at t n = Some g" "strip_id f = strip_id g"
      by (cases "fiber_at t n") auto
    then have "fiber_at t n = Some (f\<lparr>fb_id := fb_id g\<rparr>)" by (cases f; cases g) (simp add: strip_id_def)
    with Some that(2) show thesis by blast
  qed (use that(1) in auto)
qed

lemma alike_put: "alike s t \<Longrightarrow> map_option strip_id f = map_option strip_id g \<Longrightarrow> alike (put_fiber n f s) (put_fiber n g t)"
  by (simp add: alike_iff put_fiber_def map_update)

lemma alike_updates:
  assumes "alike s t"
  shows "alike (s\<lparr>fs_t_fiber := a\<rparr>) (t\<lparr>fs_t_fiber := a\<rparr>)" "alike (s\<lparr>fs_threadFiber := b\<rparr>) (t\<lparr>fs_threadFiber := b\<rparr>)"
    "alike (s\<lparr>fs_control := k\<rparr>) (t\<lparr>fs_control := k\<rparr>)" "alike (s\<lparr>fs_out := xs\<rparr>) (t\<lparr>fs_out := xs\<rparr>)"
    "alike (s\<lparr>fs_fiber_count := c\<rparr>) (t\<lparr>fs_fiber_count := d\<rparr>)" "alike (SetThis a s) (SetThis a t)"
  using assms by (simp_all add: alike_iff SetThis_def)

lemma alike_rbind:
  assumes "alike_res r r'" and "\<And>s t. alike s t \<Longrightarrow> alike_res (f s) (g t)"
  shows "alike_res (rbind r f) (rbind r' g)"
  using assms by (cases r; cases r') auto

lemmas alike_intros = alike_put alike_updates

lemma alike_swapcontext:
  assumes "alike s t"
  shows "alike_res (swapcontext a b k s) (swapcontext a b k t)"
proof (cases rule: alike_at [OF assms, of a])
  case (2 f i)
  have put: "alike (put_fiber a (Some (f\<lparr>fb_ctx := Resume k\<rparr>)) s) (put_fiber a (Some (f\<lparr>fb_id := i, fb_ctx := Resume k\<rparr>)) t)"
    using assms by (intro alike_put) (simp_all add: strip_id_def)
  show ?thesis
    by (cases rule: alike_at [OF put, of b])
      (use 2 put in \<open>auto simp: swapcontext_def Let_def intro!: alike_updates split: context_t.split\<close>)
qed (simp add: swapcontext_def)

lemma alike_swapOut: "alike s t \<Longrightarrow> alike_res (swapOut n k s) (swapOut n k t)"
  by (auto simp: swapOut_def Let_def alike_fields intro!: alike_swapcontext alike_updates split: option.split)

lemma alike_swapIn:
  assumes "alike s t"
  shows "alike_res (swapIn n k s) (swapIn n k t)"
  by (cases rule: alike_at [OF assms, of n])
    (use assms in \<open>auto simp: swapIn_def Let_def SetThis_def strip_id_def alike_fields
      intro!: alike_swapcontext alike_intros split: option.split\<close>)

lemma alike_GetThis:
  assumes "alike s t"
  shows "fst (GetThis s) = fst (GetThis t)" "alike (snd (GetThis s)) (snd (GetThis t))"
  using assms alike_fields [OF assms]
  by (auto simp: GetThis_def Fiber_main_def Let_def SetThis_def alike_iff strip_id_def split: option.split)

lemma alike_Fiber_new:
  assumes "alike s t"
  shows "alike (Fiber_new cb sz s) (Fiber_new cb sz t)"
  using assms alike_fields [OF assms] by (auto simp: Fiber_new_def Let_def alike_iff strip_id_def)

lemma alike_dtor:
  assumes "alike s t"
  shows "alike_res (Fiber_dtor n s) (Fiber_dtor n t)"
proof -
  have count: "alike (s\<lparr>fs_fiber_count := fs_fiber_count s - 1\<rparr>) (t\<lparr>fs_fiber_count := fs_fiber_count t - 1\<rparr>)"
    using assms by (intro alike_updates)
  show ?thesis
    by (cases rule: alike_at [OF count, of n])
      (use count assms in \<open>auto simp: Fiber_dtor_def Let_def SetThis_def alike_fields intro!: alike_intros\<close>)
qed

lemma alike_reset:
  assumes "alike s t"
  shows "alike_res (Fiber_reset n cb s) (Fiber_reset n cb t)"
  by (cases rule: alike_at [OF assms, of n])
    (use assms in \<open>auto simp: Fiber_reset_def strip_id_def intro!: alike_intros\<close>)

lemma alike_Yield:
  assumes "alike s t"
  shows "alike_res (Yield st k s) (Yield st k t)"
proof -
  obtain a s1 t1 where this1: "GetThis s = (a, s1)" "GetThis t = (a, t1)" "alike s1 t1"
    using alike_GetThis [OF assms] by (metis prod.collapse)
  show ?thesis
    by (cases rule: alike_at [OF this1(3), of a])
      (use this1 in \<open>auto simp: Yield_def strip_id_def intro!: alike_swapOut alike_intros\<close>)
qed

lemma alike_leave:
  assumes "alike s t"
  shows "alike_res (MainFunc_leave n s) (MainFunc_leave n t)"
  by (cases rule: alike_at [OF assms, of n])
    (use assms in \<open>auto simp: MainFunc_leave_def intro!: alike_rbind alike_swapOut alike_dtor\<close>)

lemma alike_return:
  assumes "alike s t"
  shows "alike_res (MainFunc_return n s) (MainFunc_return n t)"
  by (cases rule: alike_at [OF assms, of n])
    (use assms in \<open>auto simp: MainFunc_return_def strip_id_def intro!: alike_leave alike_intros\<close>)

lemma alike_catch:
  assumes "alike s t"
  shows "alike_res (MainFunc_catch n s) (MainFunc_catch n t)"
  by (cases rule: alike_at [OF assms, of n])
    (use assms in \<open>auto simp: MainFunc_catch_def strip_id_def intro!: alike_leave alike_intros\<close>)

lemma alike_enter:
  assumes "alike s t"
  shows "alike_res (MainFunc_enter s) (MainFunc_enter t)"
proof -
  obtain a s1 t1 where this1: "GetThis s = (a, s1)" "GetThis t = (a, t1)" "alike s1 t1"
    using alike_GetThis [OF assms] by (metis prod.collapse)
  show ?thesis
    by (cases rule: alike_at [OF this1(3), of a])
      (use this1 in \<open>auto simp: MainFunc_enter_def intro!: alike_catch alike_intros split: option.split\<close>)
qed

lemma alike_drop:
  assumes "alike s t"
  shows "alike_res (drop_fiber n s) (drop_fiber n t)"
  by (cases rule: alike_at [OF assms, of n])
    (use assms in \<open>auto simp: drop_fiber_def strip_id_def intro!: alike_dtor alike_intros\<close>)

lemma alike_perform:
  assumes "alike s t"
  shows "alike_res (perform a k s) (perform a k t)"
proof (cases a)
  case (Emit x)
  then show ?thesis using assms by (simp add: alike_iff)
next
  case (Raise e)
  then show ?thesis using alike_catch [OF assms] by (auto split: cont.split)
qed (use assms in \<open>auto simp: YieldToHold_def YieldToReady_def
    intro!: alike_updates alike_rbind alike_reset alike_drop alike_swapIn alike_Yield alike_Fiber_new alike_GetThis(2)\<close>)

lemma alike_step:
  assumes "alike s t"
  shows "alike_res (fiber_step s) (fiber_step t)"
  using alike_fields(3) [OF assms] assms
  by (auto simp: fiber_step_def intro: alike_perform alike_return alike_enter split: cont.split list.split)

lemma alike_run: "alike s t \<Longrightarrow> alike_res (fiber_run n s) (fiber_run n t)"
  by (induction n arbitrary: s t) (auto intro!: alike_rbind alike_step)

section \<open>An interleaved run and the runs of its threads alone\<close>

lemma step_alike_Inr: "fiber_step s = Inr s' \<Longrightarrow> alike s t \<Longrightarrow> \<exists>t'. fiber_step t = Inr t' \<and> alike s' t'"
  using alike_step [of s t] by (cases "fiber_step t") auto

lemma step_alike_Inl: "fiber_step s = Inl e \<Longrightarrow> alike s t \<Longrightarrow> fiber_step t = Inl e"
  using alike_step [of s t] by (cases "fiber_step t") auto

lemma run_alike_Inr: "fiber_run n s = Inr s' \<Longrightarrow> alike s t \<Longrightarrow> \<exists>t'. fiber_run n t = Inr t' \<and> alike s' t'"
  using alike_run [of s t n] by (cases "fiber_run n t") auto

lemma run_alike_Inl: "fiber_run n s = Inl e \<Longrightarrow> alike s t \<Longrightarrow> fiber_run n t = Inl e"
  using alike_run [of s t n] by (cases "fiber_run n t") auto

lemma threads_step_out: "\<not> i < length (ft_threads m) \<Longrightarrow> threads_step i m = Inr m"
  by (simp add: threads_step_def)

lemma threads_step_Inr:
  assumes "threads_step i m = Inr m'" and "i < length (ft_threads m)"
  obtains s where "fiber_step (seen_by m (ft_threads m ! i)) = Inr s" "ft_threads m' = (ft_threads m)[i := s]"
    "ft_fiber_id m' = fs_fiber_id s" "ft_fiber_count m' = fs_fiber_count s"
  using assms by (auto simp: threads_step_def rbind_eq_Inr)

lemma threads_step_Inl:
  assumes "threads_step i m = Inl e"
  shows "i < length (ft_threads m)" "fiber_step (ft_threads m ! i) = Inl e"
proof -
  show "i < length (ft_threads m)" using assms by (auto simp: threads_step_def split: if_splits)
  then have "fiber_step (seen_by m (ft_threads m ! i)) = Inl e"
    using assms by (cases "fiber_step (seen_by m (ft_threads m ! i))") (simp_all add: threads_step_def)
  then show "fiber_step (ft_threads m ! i) = Inl e" using alike_seen by (rule step_alike_Inl)
qed

lemma run_alone:
  "threads_run sched m = Inr m' \<Longrightarrow> length (ft_threads m') = length (ft_threads m) \<and>
     (\<forall>j < length (ft_threads m). \<exists>s. fiber_run (count_list sched j) (ft_threads m ! j) = Inr s \<and> alike (ft_threads m' ! j) s)"
proof (induction sched arbitrary: m)
  case (Cons i sched)
  then obtain m1 where m1: "threads_step i m = Inr m1" and run: "threads_run sched m1 = Inr m'" by (auto simp: rbind_eq_Inr)
  show ?case
  proof (cases "i < length (ft_threads m)")
    case False
    with m1 have "m1 = m" by (simp add: threads_step_out)
    with Cons.IH [OF run] False show ?thesis by auto
  next
    case True
    with m1 obtain s where s: "fiber_step (seen_by m (ft_threads m ! i)) = Inr s" "ft_threads m1 = (ft_threads m)[i := s]"
      by (rule threads_step_Inr)
    from step_alike_Inr [OF s(1) alike_seen] obtain t where t: "fiber_step (ft_threads m ! i) = Inr t" "alike s t" by blast
    have "\<exists>u. fiber_run (count_list (i # sched) j) (ft_threads m ! j) = Inr u \<and> alike (ft_threads m' ! j) u"
      if j: "j < length (ft_threads m)" for j
    proof -
      from Cons.IH [OF run] s(2) j obtain u where u: "fiber_run (count_list sched j) (ft_threads m1 ! j) = Inr u"
        "alike (ft_threads m' ! j) u" by auto
      show ?thesis
      proof (cases "j = i")
        case True
        with u(1) s(2) j have "fiber_run (count_list sched i) s = Inr u" by simp
        from run_alike_Inr [OF this t(2)] u(2) t(1) True show ?thesis by (auto intro: alike_trans)
      qed (use u s(2) in auto)
    qed
    with Cons.IH [OF run] s(2) show ?thesis by simp
  qed
qed simp

lemma run_fails_alone:
  "threads_run sched m = Inl e \<Longrightarrow> \<exists>j < length (ft_threads m). fiber_run (count_list sched j) (ft_threads m ! j) = Inl e"
proof (induction sched arbitrary: m)
  case (Cons i sched)
  show ?case
  proof (cases "threads_step i m")
    case (Inl e')
    with Cons.prems have "threads_step i m = Inl e" by simp
    from threads_step_Inl [OF this] show ?thesis by (intro exI [of _ i]) simp
  next
    case (Inr m1)
    with Cons.prems have run: "threads_run sched m1 = Inl e" by simp
    show ?thesis
    proof (cases "i < length (ft_threads m)")
      case False
      with Inr have "m1 = m" by (simp add: threads_step_out)
      with Cons.IH [OF run] False show ?thesis by (metis count_list.simps(2))
    next
      case True
      with Inr obtain s where s: "fiber_step (seen_by m (ft_threads m ! i)) = Inr s" "ft_threads m1 = (ft_threads m)[i := s]"
        by (rule threads_step_Inr)
      from step_alike_Inr [OF s(1) alike_seen] obtain t where t: "fiber_step (ft_threads m ! i) = Inr t" "alike s t" by blast
      from Cons.IH [OF run] s(2) obtain j where j: "j < length (ft_threads m)" "fiber_run (count_list sched j) (ft_threads m1 ! j) = Inl e"
        by auto
      show ?thesis
      proof (cases "j = i")
        case True
        with j s(2) have "fiber_run (count_list sched i) s = Inl e" by simp
        from run_alike_Inl [OF this t(2)] t(1) j(1) True show ?thesis by (intro exI [of _ i]) simp
      qed (use j s(2) in \<open>auto intro!: exI [of _ j]\<close>)
    qed
  qed
qed simp

section \<open>The shared counter\<close>

definition alive_all :: "fthreads \<Rightarrow> nat" where
  "alive_all m = sum_list (map alive (ft_threads m))"

lemma alive_seen [simp]: "alive (seen_by m s) = alive s"
  by (simp add: alive_def seen_by_def)

lemma alive_all_update: "i < length (ft_threads m) \<Longrightarrow> ft_threads m' = (ft_threads m)[i := s] \<Longrightarrow>
    alive_all m' + alive (ft_threads m ! i) = alive_all m + alive s"
proof -
  assume i: "i < length (ft_threads m)" and m': "ft_threads m' = (ft_threads m)[i := s]"
  have "alive (ft_threads m ! i) \<le> alive_all m"
    using i elem_le_sum_list [of i "map alive (ft_threads m)"] by (simp add: alive_all_def)
  moreover have "alive_all m' = alive_all m + alive s - alive (ft_threads m ! i)"
    using i m' unfolding alive_all_def by (simp add: map_update sum_list_update)
  ultimately show ?thesis by simp
qed

lemma count_threads_step:
  assumes "threads_step i m = Inr m'" and "ft_fiber_count m = of_nat (alive_all m)"
  shows "ft_fiber_count m' = of_nat (alive_all m')"
proof (cases "i < length (ft_threads m)")
  case True
  with assms(1) obtain s where s: "fiber_step (seen_by m (ft_threads m ! i)) = Inr s" "ft_threads m' = (ft_threads m)[i := s]"
    "ft_fiber_count m' = fs_fiber_count s" by (rule threads_step_Inr)
  let ?a = "alive (ft_threads m ! i)"
  have "count_ok (of_nat (alive_all m) - of_nat ?a) (seen_by m (ft_threads m ! i))"
    using assms(2) by (simp add: count_ok_def) (simp add: seen_by_def)
  from count_step [OF s(1) this] have "ft_fiber_count m' + of_nat ?a = of_nat (alive_all m + alive s)"
    using s(3) by (simp add: count_ok_def)
  also have "alive_all m + alive s = alive_all m' + ?a" using alive_all_update [OF True s(2)] by simp
  finally show ?thesis by simp
qed (use assms in \<open>simp add: threads_step_out\<close>)

lemma count_threads_run:
  "threads_run sched m = Inr m' \<Longrightarrow> ft_fiber_count m = of_nat (alive_all m) \<Longrightarrow> ft_fiber_count m' = of_nat (alive_all m')"
  by (induction sched arbitrary: m) (auto simp: rbind_eq_Inr dest: count_threads_step)

lemma alive_all_start: "alive_all (threads_start codes sz) = 0"
  by (simp add: alive_all_def threads_start_def alive_def thread_start_def comp_def)

section \<open>The ids of the fibers\<close>

text \<open>The id of the fiber with a stack in slot \<open>n\<close>; a main fiber has the id 0.\<close>

definition sub_id :: "fstate \<Rightarrow> nat \<Rightarrow> 64 word option" where
  "sub_id s n = (case fiber_at s n of Some f \<Rightarrow> if fb_stack f then Some (fb_id f) else None | None \<Rightarrow> None)"

definition keeps_ids :: "fstate \<Rightarrow> fstate \<Rightarrow> bool" where
  "keeps_ids s s' \<longleftrightarrow> fs_fiber_id s' = fs_fiber_id s \<and> sub_id s' \<subseteq>\<^sub>m sub_id s"

lemma keeps_refl [simp]: "keeps_ids s s"
  by (simp add: keeps_ids_def)

lemma keeps_trans: "keeps_ids s t \<Longrightarrow> keeps_ids t u \<Longrightarrow> keeps_ids s u"
  by (auto simp: keeps_ids_def intro: map_le_trans)

lemma sub_id_fields [simp]:
  "sub_id (s\<lparr>fs_t_fiber := t\<rparr>) = sub_id s" "sub_id (s\<lparr>fs_threadFiber := u\<rparr>) = sub_id s"
  "sub_id (s\<lparr>fs_control := k\<rparr>) = sub_id s" "sub_id (s\<lparr>fs_out := xs\<rparr>) = sub_id s"
  "sub_id (s\<lparr>fs_fiber_count := c\<rparr>) = sub_id s" "sub_id (SetThis t s) = sub_id s" "sub_id (seen_by m s) = sub_id s"
  by (simp_all add: sub_id_def fun_eq_iff seen_by_def)

lemma keeps_fields [simp]:
  "keeps_ids s (s'\<lparr>fs_control := k\<rparr>) = keeps_ids s s'" "keeps_ids s (s'\<lparr>fs_t_fiber := t\<rparr>) = keeps_ids s s'"
  "keeps_ids s (s'\<lparr>fs_threadFiber := u\<rparr>) = keeps_ids s s'" "keeps_ids s (s'\<lparr>fs_out := xs\<rparr>) = keeps_ids s s'"
  "keeps_ids s (s'\<lparr>fs_fiber_count := c\<rparr>) = keeps_ids s s'" "keeps_ids s (SetThis t s') = keeps_ids s s'"
  "keeps_ids (SetThis t s) s' = keeps_ids s s'" "keeps_ids (s\<lparr>fs_fiber_count := c\<rparr>) s' = keeps_ids s s'"
  by (simp_all add: keeps_ids_def) (simp_all add: SetThis_def)

lemma keeps_put:
  assumes "fiber_at s n = Some f" and "fb_stack g = fb_stack f" and "fb_id g = fb_id f"
  shows "keeps_ids s (put_fiber n (Some g) s)"
  using assms by (auto simp: keeps_ids_def map_le_def sub_id_def split: if_splits)

lemma keeps_put_then: "keeps_ids (put_fiber n (Some g) s) s' \<Longrightarrow> fiber_at s n = Some f \<Longrightarrow> fb_stack g = fb_stack f \<Longrightarrow>
    fb_id g = fb_id f \<Longrightarrow> keeps_ids s s'"
  using keeps_trans keeps_put by blast

lemma keeps_put_None: "fiber_at s n = Some f \<Longrightarrow> keeps_ids s (put_fiber n None s)"
  by (auto simp: keeps_ids_def map_le_def sub_id_def split: if_splits)

lemma keeps_swapcontext: "swapcontext a b k s = Inr s' \<Longrightarrow> keeps_ids s s'"
  by (auto simp: swapcontext_def Let_def keeps_put split: option.splits context_t.splits if_splits)

lemma keeps_GetThis: "GetThis s = (n, s') \<Longrightarrow> keeps_ids s s'"
  by (auto simp: GetThis_def Fiber_main_def Let_def keeps_ids_def map_le_def sub_id_def fiber_at_def SetThis_def nth_append
      split: option.splits if_splits)

lemma keeps_GetThis_snd: "keeps_ids s (snd (GetThis s))"
  using keeps_GetThis by (metis prod.collapse)

lemma keeps_swapIn: "swapIn n k s = Inr s' \<Longrightarrow> keeps_ids s s'"
  by (auto simp: swapIn_def Let_def split: option.splits if_splits dest!: keeps_swapcontext keeps_put_then)

lemma keeps_swapOut: "swapOut n k s = Inr s' \<Longrightarrow> keeps_ids s s'"
  by (auto simp: swapOut_def Let_def split: option.splits dest!: keeps_swapcontext)

lemma keeps_dtor: "Fiber_dtor n s = Inr s' \<Longrightarrow> keeps_ids s s'"
proof -
  assume run: "Fiber_dtor n s = Inr s'"
  then obtain f where f: "fiber_at s n = Some f" by (auto simp: Fiber_dtor_def Let_def split: option.splits)
  with run have "sub_id s' = sub_id (put_fiber n None s)" "fs_fiber_id s' = fs_fiber_id s"
    by (auto simp: Fiber_dtor_def Let_def SetThis_def sub_id_def fun_eq_iff split: if_splits)
  then show ?thesis using keeps_put_None [OF f] by (simp add: keeps_ids_def)
qed

lemma keeps_Yield: "Yield st k s = Inr s' \<Longrightarrow> keeps_ids s s'"
  by (auto simp: Yield_def split: prod.splits option.splits if_splits dest!: keeps_swapOut keeps_put_then keeps_GetThis
      intro: keeps_trans)

lemma keeps_leave: "MainFunc_leave n s = Inr s' \<Longrightarrow> keeps_ids s s'"
  by (auto simp: MainFunc_leave_def rbind_eq_Inr split: option.splits if_splits dest!: keeps_swapOut keeps_dtor intro: keeps_trans)

lemma keeps_catch: "MainFunc_catch n s = Inr s' \<Longrightarrow> keeps_ids s s'"
  by (auto simp: MainFunc_catch_def split: option.splits dest!: keeps_leave keeps_put_then)

lemma keeps_return: "MainFunc_return n s = Inr s' \<Longrightarrow> keeps_ids s s'"
  by (auto simp: MainFunc_return_def split: option.splits dest!: keeps_leave keeps_put_then)

lemma keeps_enter: "MainFunc_enter s = Inr s' \<Longrightarrow> keeps_ids s s'"
  by (auto simp: MainFunc_enter_def split: prod.splits option.splits dest!: keeps_catch keeps_GetThis intro: keeps_trans)

lemma keeps_reset: "Fiber_reset n cb s = Inr s' \<Longrightarrow> keeps_ids s s'"
  by (auto simp: Fiber_reset_def keeps_put split: option.splits if_splits)

lemma keeps_drop: "drop_fiber n s = Inr s' \<Longrightarrow> keeps_ids s s'"
  by (auto simp: drop_fiber_def keeps_put split: option.splits if_splits dest!: keeps_dtor)

text \<open>A step keeps the ids, or it gives the next id to a fiber of its own.\<close>

definition gives_id :: "fstate \<Rightarrow> fstate \<Rightarrow> bool" where
  "gives_id s s' \<longleftrightarrow> fs_fiber_id s' = fs_fiber_id s + 1 \<and>
     (\<exists>n. sub_id s n = None \<and> sub_id s' = (sub_id s)(n \<mapsto> fs_fiber_id s + 1))"

lemma gives_Fiber_new: "gives_id s (Fiber_new cb sz s)"
  unfolding gives_id_def
  by (intro conjI exI [of _ "length (fs_fibers s)"])
    (auto simp: Fiber_new_def Let_def sub_id_def fiber_at_def fun_eq_iff nth_append)

lemma ids_perform: "perform a k s = Inr s' \<Longrightarrow> keeps_ids s s' \<or> gives_id s s'"
proof (cases a)
  case (New_Fiber cb sz)
  assume "perform a k s = Inr s'"
  with New_Fiber gives_Fiber_new [of s cb sz] show ?thesis by (auto simp: gives_id_def)
qed (auto simp: YieldToHold_def YieldToReady_def rbind_eq_Inr split: cont.splits
    intro: keeps_GetThis_snd dest: keeps_swapIn keeps_Yield keeps_reset keeps_drop keeps_catch)

lemma ids_step: "fiber_step s = Inr s' \<Longrightarrow> keeps_ids s s' \<or> gives_id s s'"
  by (auto simp: fiber_step_def split: cont.splits list.splits dest: ids_perform keeps_enter keeps_return)

text \<open>After k steps the ids given out are the numbers from 1 to at most k, each to one fiber of one thread.\<close>

definition ids_inv :: "nat \<Rightarrow> fthreads \<Rightarrow> bool" where
  "ids_inv k m \<longleftrightarrow> unat (ft_fiber_id m) \<le> k \<and>
     (\<forall>i < length (ft_threads m). \<forall>n x. sub_id (ft_threads m ! i) n = Some x \<longrightarrow> 0 < x \<and> x \<le> ft_fiber_id m) \<and>
     (\<forall>i < length (ft_threads m). \<forall>j < length (ft_threads m). \<forall>n n' x.
        sub_id (ft_threads m ! i) n = Some x \<longrightarrow> sub_id (ft_threads m ! j) n' = Some x \<longrightarrow> i = j \<and> n = n')"

lemma ids_inv_mono: "ids_inv k m \<Longrightarrow> k \<le> k' \<Longrightarrow> ids_inv k' m"
  by (auto simp: ids_inv_def)

lemma ids_inv_keeps:
  assumes "ids_inv k m" and "length (ft_threads m') = length (ft_threads m)" and "ft_fiber_id m' = ft_fiber_id m"
    and old: "\<And>j n x. j < length (ft_threads m) \<Longrightarrow> sub_id (ft_threads m' ! j) n = Some x \<Longrightarrow> sub_id (ft_threads m ! j) n = Some x"
  shows "ids_inv k m'"
  using assms(1) unfolding ids_inv_def assms(2,3) by (meson old)

lemma ids_inv_gives:
  assumes "ids_inv k m" and "Suc k < 2 ^ 64" and "length (ft_threads m') = length (ft_threads m)"
    and "ft_fiber_id m' = ft_fiber_id m + 1"
    and new: "\<And>j n x. j < length (ft_threads m) \<Longrightarrow> sub_id (ft_threads m' ! j) n = Some x \<Longrightarrow>
        sub_id (ft_threads m ! j) n = Some x \<or> j = i \<and> n = n0 \<and> x = ft_fiber_id m + 1"
  shows "ids_inv (Suc k) m'"
proof -
  have "unat (ft_fiber_id m) \<le> k" using assms(1) by (simp add: ids_inv_def)
  with assms(2) have un: "unat (ft_fiber_id m + 1) = Suc (unat (ft_fiber_id m))"
    by (simp add: unat_word_ariths(1))
  then have less: "ft_fiber_id m < ft_fiber_id m + 1" by (simp add: word_less_nat_alt)
  have bound: "0 < x \<and> x \<le> ft_fiber_id m" if "j < length (ft_threads m)" "sub_id (ft_threads m ! j) n = Some x" for j n x
    using assms(1) that unfolding ids_inv_def by blast
  have one: "j = j' \<and> n = n'" if "j < length (ft_threads m)" "j' < length (ft_threads m)"
      "sub_id (ft_threads m ! j) n = Some x" "sub_id (ft_threads m ! j') n' = Some x" for j j' n n' x
    using assms(1) that unfolding ids_inv_def by blast
  have old: "x \<noteq> ft_fiber_id m + 1" if "j < length (ft_threads m)" "sub_id (ft_threads m ! j) n = Some x" for j n x
    using bound [OF that] less by auto
  show ?thesis
    unfolding ids_inv_def assms(3,4)
  proof (intro conjI allI impI)
    show "unat (ft_fiber_id m + 1) \<le> Suc k" using un \<open>unat (ft_fiber_id m) \<le> k\<close> by simp
  next
    fix j n x assume j: "j < length (ft_threads m)" "sub_id (ft_threads m' ! j) n = Some x"
    from new [OF j] bound [OF j(1)] less show "0 < x" "x \<le> ft_fiber_id m + 1"
      by (auto simp: word_less_nat_alt word_le_nat_alt un intro: le_SucI)
  next
    fix j j' n n' x assume j: "j < length (ft_threads m)" "j' < length (ft_threads m)"
      "sub_id (ft_threads m' ! j) n = Some x" "sub_id (ft_threads m' ! j') n' = Some x"
    show "j = j'" "n = n'"
      using new [OF j(1,3)] new [OF j(2,4)] one [OF j(1,2)] old [OF j(1)] old [OF j(2)] by blast+
  qed
qed

lemma ids_threads_step:
  assumes step: "threads_step i m = Inr m'" and inv: "ids_inv k m" and "Suc k < 2 ^ 64"
  shows "ids_inv (Suc k) m'"
proof (cases "i < length (ft_threads m)")
  case True
  with step obtain s where s: "fiber_step (seen_by m (ft_threads m ! i)) = Inr s" "ft_threads m' = (ft_threads m)[i := s]"
    "ft_fiber_id m' = fs_fiber_id s" by (rule threads_step_Inr)
  have seen: "fs_fiber_id (seen_by m t) = ft_fiber_id m" for t by (simp add: seen_by_def)
  from ids_step [OF s(1)] show ?thesis
  proof
    assume keeps: "keeps_ids (seen_by m (ft_threads m ! i)) s"
    have "ids_inv k m'"
      using inv
    proof (rule ids_inv_keeps)
      show "sub_id (ft_threads m ! j) n = Some x" if "j < length (ft_threads m)" "sub_id (ft_threads m' ! j) n = Some x" for j n x
        using that keeps s(2) by (cases "j = i") (auto simp: keeps_ids_def map_le_def dom_def)
    qed (use s keeps seen in \<open>simp_all add: keeps_ids_def\<close>)
    then show ?thesis by (rule ids_inv_mono) simp
  next
    assume "gives_id (seen_by m (ft_threads m ! i)) s"
    then obtain n0 where gives: "fs_fiber_id s = ft_fiber_id m + 1"
      "sub_id s = (sub_id (ft_threads m ! i))(n0 \<mapsto> ft_fiber_id m + 1)"
      by (auto simp: gives_id_def seen)
    show ?thesis
      using inv assms(3)
    proof (rule ids_inv_gives)
      show "sub_id (ft_threads m ! j) n = Some x \<or> j = i \<and> n = n0 \<and> x = ft_fiber_id m + 1"
        if "j < length (ft_threads m)" "sub_id (ft_threads m' ! j) n = Some x" for j n x
        using that gives(2) s(2) by (cases "j = i") (auto split: if_splits)
    qed (use s gives in simp_all)
  qed
qed (use step inv in \<open>auto simp: threads_step_out intro: ids_inv_mono\<close>)

lemma ids_threads_run:
  "threads_run sched m = Inr m' \<Longrightarrow> ids_inv k m \<Longrightarrow> k + length sched < 2 ^ 64 \<Longrightarrow> ids_inv (k + length sched) m'"
proof (induction sched arbitrary: m k)
  case (Cons i sched)
  then obtain m1 where "threads_step i m = Inr m1" "threads_run sched m1 = Inr m'" by (auto simp: rbind_eq_Inr)
  with ids_threads_step [of i m m1 k] Cons.IH [of m1 "Suc k"] Cons.prems show ?case by simp
qed simp

lemma ids_inv_start: "ids_inv 0 (threads_start codes sz)"
  by (simp add: ids_inv_def threads_start_def sub_id_def fiber_at_def thread_start_def)

section \<open>Properties\<close>

text \<open>
  C8. Threads with fibers do not disturb each other: in any interleaving of any number of threads, each
  thread does what it does alone in as many steps, with the same output, fibers, states and contexts,
  up to the ids of the fibers and the two counters; and the process ends in a fault only if one
  of the threads, alone, ends in that fault.
\<close>

theorem threads_isolated:
  "case threads_run sched (threads_start codes sz) of
     Inr m \<Rightarrow> length (ft_threads m) = length codes \<and> (\<forall>i < length codes.
       \<exists>s. fiber_run (count_list sched i) (thread_start (codes ! i) sz) = Inr s \<and> alike (ft_threads m ! i) s)
   | Inl e \<Rightarrow> \<exists>i < length codes. fiber_run (count_list sched i) (thread_start (codes ! i) sz) = Inl e"
proof (cases "threads_run sched (threads_start codes sz)")
  case (Inl e)
  from run_fails_alone [OF Inl] Inl show ?thesis by (auto simp: threads_start_def)
next
  case (Inr m)
  from run_alone [OF Inr] Inr show ?thesis by (auto simp: threads_start_def)
qed

text \<open>Two threads, each with a fiber that emits a text and holds.\<close>

definition one_turn :: "string \<Rightarrow> action list" where
  "one_turn x = [GetThis_call, New_Fiber (Some [Emit x, YieldToHold_call]) 0, SwapIn 1]"

lemma one_turn_alone: "\<exists>s. fiber_run 6 (thread_start (one_turn x) sz) = Inr s \<and> fs_out s = [x] \<and> fs_control s = In_Main []"
  by (simp add: one_turn_def eval_nat_numeral fiber_step_def thread_start_def GetThis_def Fiber_main_def SetThis_def Let_def
      Fiber_new_def swapIn_def swapcontext_def fiber_at_def put_fiber_def MainFunc_enter_def YieldToHold_def Yield_def swapOut_def)

theorem threads_isolated_witness:
  "\<exists>m. threads_run [0, 1, 1, 0, 0, 0, 1, 1, 0, 1, 1, 0] (threads_start [one_turn ''a'', one_turn ''b''] 4096) = Inr m \<and>
     fs_out (ft_threads m ! 0) = [''a''] \<and> fs_out (ft_threads m ! 1) = [''b'']"
proof -
  let ?codes = "[one_turn ''a'', one_turn ''b'']" and ?sched = "[0, 1, 1, 0, 0, 0, 1, 1, 0, 1, 1, 0 :: nat]"
  have turns: "count_list ?sched 0 = 6" "count_list ?sched 1 = 6" by simp_all
  have alone: "\<exists>s. fiber_run (count_list ?sched i) (thread_start (?codes ! i) 4096) = Inr s \<and> fs_out s = [[''a'', ''b''] ! i]"
    if "i < length ?codes" for i
  proof -
    from that have "i = 0 \<or> i = 1" by auto
    with turns have "count_list ?sched i = 6" "?codes ! i = one_turn ([''a'', ''b''] ! i)" by auto
    then show ?thesis using one_turn_alone [of "[''a'', ''b''] ! i" 4096] by metis
  qed
  show ?thesis
  proof (cases "threads_run ?sched (threads_start ?codes 4096)")
    case (Inl e)
    with threads_isolated [where sched = ?sched and codes = ?codes and sz = 4096] obtain i where "i < length ?codes"
      "fiber_run (count_list ?sched i) (thread_start (?codes ! i) 4096) = Inl e" by auto
    with alone [of i] show ?thesis by auto
  next
    case (Inr m)
    have out: "fs_out (ft_threads m ! i) = [[''a'', ''b''] ! i]" if "i < length ?codes" for i
    proof -
      from threads_isolated [where sched = ?sched and codes = ?codes and sz = 4096] Inr that obtain s where
        "fiber_run (count_list ?sched i) (thread_start (?codes ! i) 4096) = Inr s" "alike (ft_threads m ! i) s" by auto
      with alone [OF that] show ?thesis by (auto dest: alike_fields(4))
    qed
    with out [of 0] out [of 1] Inr show ?thesis by simp
  qed
qed

text \<open>
  TotalFibers counts the living: in any interleaving of threads, disciplined or not, as long as no
  step fails, the 64-bit counter that every thread reads is the number of the fiber objects of all
  threads, main fibers included, that have been constructed and not destroyed.
\<close>

lemma TotalFibers_counts_all:
  assumes "threads_run sched (threads_start codes sz) = Inr m"
  shows "TotalFibers (seen_by m s) = of_nat (sum_list (map (\<lambda>t. length (filter (\<lambda>x. x \<noteq> None) (fs_fibers t))) (ft_threads m)))"
proof -
  have "ft_fiber_count (threads_start codes sz) = of_nat (alive_all (threads_start codes sz))"
    unfolding alive_all_start by (simp add: threads_start_def)
  from count_threads_run [OF assms this] show ?thesis
    by (simp add: TotalFibers_def seen_by_def alive_all_def alive_def [abs_def])
qed

lemma rbind_first: "r = r' \<Longrightarrow> rbind r f = rbind r' f"
  by simp

lemma case_Inr: "(case r of Inl e \<Rightarrow> False | Inr x \<Rightarrow> P x) \<Longrightarrow> \<exists>x. r = Inr x \<and> P x"
  by (cases r) auto

lemma two_fibers: "\<exists>m f g. threads_run [0, 1, 0, 1] (threads_start [one_turn ''a'', one_turn ''b''] 4096) = Inr m \<and>
    map (\<lambda>t. length (filter (\<lambda>x. x \<noteq> None) (fs_fibers t))) (ft_threads m) = [2, 2] \<and>
    fiber_at (ft_threads m ! 0) 1 = Some f \<and> fb_stack f \<and> fiber_at (ft_threads m ! 1) 1 = Some g \<and> fb_stack g"
proof -
  have "case threads_run [0, 1, 0, 1] (threads_start [one_turn ''a'', one_turn ''b''] 4096) of
      Inl e \<Rightarrow> False | Inr m \<Rightarrow> map (\<lambda>t. length (filter (\<lambda>x. x \<noteq> None) (fs_fibers t))) (ft_threads m) = [2, 2] \<and>
        map (\<lambda>t. map_option fb_stack (fiber_at t 1)) (ft_threads m) = [Some True, Some True]"
    by (simp add: threads_start_def threads_step_def seen_by_def one_turn_def fiber_step_def thread_start_def GetThis_def
        Fiber_main_def SetThis_def Let_def Fiber_new_def fiber_at_def cong: rbind_first)
  from case_Inr [OF this] obtain m where
    run: "threads_run [0, 1, 0, 1] (threads_start [one_turn ''a'', one_turn ''b''] 4096) = Inr m" and
    n: "map (\<lambda>t. length (filter (\<lambda>x. x \<noteq> None) (fs_fibers t))) (ft_threads m) = [2, 2]" and
    st: "map (\<lambda>t. map_option fb_stack (fiber_at t 1)) (ft_threads m) = [Some True, Some True]"
    by (elim exE conjE) (rule that)
  from st obtain t u where ts: "ft_threads m = [t, u]" "map_option fb_stack (fiber_at t 1) = Some True"
    "map_option fb_stack (fiber_at u 1) = Some True" unfolding map_eq_Cons_conv by blast
  from ts(2,3) obtain f g where "fiber_at t 1 = Some f" "fb_stack f" "fiber_at u 1 = Some g" "fb_stack g"
    unfolding map_option_eq_Some by blast
  with run n ts(1) show ?thesis by (intro exI [of _ m] exI [of _ f] exI [of _ g]) (simp del: threads_run.simps)
qed

text \<open>
  C24. A fiber id names one fiber: in any interleaving of threads of fewer than 2 to the power of 64 steps,
  no fiber of any thread that runs on a stack of its own has the id 0, which main fibers have, and
  no two of them have the same id, whether they belong to one thread or to two.
\<close>

theorem fiber_ids_unique:
  assumes "threads_run sched (threads_start codes sz) = Inr m" and "length sched < 2 ^ 64"
    and "i < length codes" and "fiber_at (ft_threads m ! i) a = Some f" and "fb_stack f"
    and "j < length codes" and "fiber_at (ft_threads m ! j) b = Some g" and "fb_stack g"
  shows "fb_id f \<noteq> 0 \<and> (fb_id f = fb_id g \<longleftrightarrow> i = j \<and> a = b)"
proof -
  have inv: "ids_inv (length sched) m" using ids_threads_run [OF assms(1) ids_inv_start] assms(2) by simp
  have len: "length (ft_threads m) = length codes" using run_alone [OF assms(1)] by (simp add: threads_start_def)
  have ids: "sub_id (ft_threads m ! i) a = Some (fb_id f)" "sub_id (ft_threads m ! j) b = Some (fb_id g)"
    using assms by (simp_all add: sub_id_def)
  have "fb_id f \<noteq> 0" using inv ids(1) assms(3) unfolding ids_inv_def len by fastforce
  moreover have "fb_id f = fb_id g \<longleftrightarrow> i = j \<and> a = b"
    using inv ids assms(3,4,6,7) unfolding ids_inv_def len by (metis option.sel)
  ultimately show ?thesis ..
qed

theorem fiber_ids_unique_witness:
  "\<exists>m f g. threads_run [0, 1, 0, 1] (threads_start [one_turn ''a'', one_turn ''b''] 4096) = Inr m \<and>
     fiber_at (ft_threads m ! 0) 1 = Some f \<and> fiber_at (ft_threads m ! 1) 1 = Some g \<and> fb_id f \<noteq> fb_id g"
proof -
  from two_fibers obtain m f g where run: "threads_run [0, 1, 0, 1] (threads_start [one_turn ''a'', one_turn ''b''] 4096) = Inr m"
    and at: "fiber_at (ft_threads m ! 0) 1 = Some f" "fb_stack f" "fiber_at (ft_threads m ! 1) 1 = Some g" "fb_stack g"
    by (elim exE conjE) (rule that)
  from fiber_ids_unique [OF run _ _ at(1,2) _ at(3,4)] run at show ?thesis by (intro exI [of _ m] exI [of _ f] exI [of _ g]) simp
qed

end
