(* ===== verification/Spec2Isabelle.thy ===== *)
theory Spec2Isabelle
  imports Program Log_Dump Config_Race Log_Race File_Race Lexical_Cast Thread_Log Runtime_Start Fiber_Threads
begin

text \<open>
  A model of the IPMSG server framework (the directory src/src of the repository): its logging,
  configuration, lock, thread and fiber classes.

  \<^bold>\<open>The parts and how they interact.\<close> A client logs through macros that make an event and hand it to a
  logger; a logger filters by level and passes the event to its appenders, or to the root logger when
  it has none; an appender renders it with a formatter and writes it to the console or to a file. The
  singleton LoggerManager owns the loggers by name. Config owns named variables, each with a value,
  change listeners and a read-write lock; LoadFromYaml assigns the variables a document names, through
  casts from text. The variable "logs" ties the two together: its listener, added by LogIniter,
  rebuilds loggers from the definitions assigned to it, and Config reports its own errors through the
  root logger. Locks guard all of it; Thread and Fiber run the client's code.

  \<^bold>\<open>Theories and code.\<close>
  \<^item> Prelude, Outcome, Ordered_Map: faults and results, exceptions, loops over lists, std::string,
    std::map with the laws of a keyed store as a locale.
  \<^item> Log_Level: LogLevel (log.h, log.cpp) as a datatype in the class of linear orders.
  \<^item> Log_Format: LogEvent, the FormatItem classes and LogFormatter. \<open>scan\<close> and \<open>init_loop\<close> are the inner
    and outer loop of LogFormatter::init with its local variables as arguments, \<open>init_report\<close> what
    these loops print, \<open>LogFormatter\<close> the constructor, \<open>item_format\<close> the virtual format methods.
  \<^item> Locks: the lock classes and guards of thread.h, with the laws of a waiting lock as a locale; CASLock
    also as an interleaving of atomic steps.
  \<^item> World: the state of logging, which is the console, the disk, the clock and the heap of loggers and
    appenders. A shared pointer is an index into the heap.
  \<^item> Appender, Logger: the methods of LogAppender and its subclasses, of Logger and of LoggerManager,
    and the macros LOG_LEVEL and LOG_FMT_LEVEL; Log_Api: clients that call them in any order. Log_Race:
    threads that log through shared loggers while the lists of appenders change, with the locks that
    addAppender takes and the formatter it lends; File_Race: threads that
    log to one file appender, which reopens its file with m_lastTime outside its lock, while the clock
    advances and other processes move the file; Thread_Log: what a record shows of its thread.
  \<^item> Yaml_Api: the yaml-cpp operations the code uses, as an argument; Lexical_Cast: the specialisations
    of LexicalCast in config.h; Config_Var and Config: ConfigVar and Config;
    Config_Race: setValue and getValue of one variable by several threads.
  \<^item> Log_Config: LogDefine, LogAppenderDefine, their casts, the toYamlString methods and the listener of
    LogIniter (log.cpp); Log_Yaml, Log_Dump: what the text of the casts and of toYamlString reads back as.
  \<^item> Program: the global objects of log.cpp and fiber.cpp, their dynamic initialisation, and the path
    from a document through the casts and the listener to the loggers.
  \<^item> Thread: Semaphore and Thread (thread.cpp) as an interleaving of the creating and the created
    thread. Fiber: fiber.cpp as a machine whose control is a continuation. Util: util.cpp, macro.h and
    singleton.h. Fiber_Threads: the fibers of several threads, which share s_fiber_id and s_fiber_count.
    Runtime: fiber.cpp again, in the started program, with its records, assertions,
    backtraces and the configured stack size, which refines it; Runtime_Start: its threads once the
    global objects are initialised.
  \<^item> This theory: what holds of configuration and logging together.

  \<^bold>\<open>What is proved.\<close> The pattern parser equals a reference tokenizer, which gives
  the round trip of patterns and the two ways a pattern is in error that its comments do not announce.
  Any sequence of logging calls takes no spin lock twice, follows no bad pointer and leaves no lock
  held, as long as the client holds the objects it passes, sets no null formatter and logs directly only
  to appenders that have one; getLogger gives the same object for a name ever after; levels gate,
  loggers delegate and formatters are inherited as documented; a file appender survives the removal of
  its file and does not survive a write error. Threads that log at once never block each other for good,
  write whole lines per appender and lose none; deleting an appender meanwhile can free the node another
  thread is at. Threads that log to one file at once lose nothing as long as the disk works, and leave a
  removed file within a second. Assigning a variable calls each listener once on the old and the new
  value, and a listener sees exactly the changes, up to the first assignment that another listener's
  exception abandons; threads that share a variable are safe and end, as long as their listeners return
  or throw and do not use the variable, but the listener may miss a change between two that assign at
  once. Loading a document changes only what it names, and sets it, where the listeners of what it names
  keep the loggers in order. Containers and logger definitions survive their text, up to the fields the
  code loses, and the dump of the loggers reads as their definitions. The program starts well-formed; a
  document then puts its logger definitions in force, and one that repeats a definition in force ends
  the process. Guards are balanced for every lock class; CASLock excludes, loses no increment, and
  bounds the steps that are not failed attempts to take it. A constructed thread runs its callback from
  its own copy, and its records do not show the name given to it; a detached one, and one whose
  constructor a signal interrupts, may reach the destroyed object. Fibers are safe under a stated
  discipline, and take turns; in several threads each does what it does alone, up to ids, and an id
  names one fiber of all threads; two uses that the documentation allows abort or lose the thread. In
  the started program they behave the same, as a refinement, whatever they log, and an exception of a
  fiber is reported on the console; a document sets the stack size of the fibers made after it.

  \<^bold>\<open>Bounds.\<close> Widths are those of the code: 32-bit line numbers and ids, 64-bit times, listener ids and
  fiber ids. ListAllMember recurses on the depth of the document; its first argument is the number of
  stack frames left and running out is the fault Stack_Overflow, so the theorems ask for a document
  nested no deeper. strftime has a buffer of 64 bytes; a longer date is the fault \<open>date_fault\<close>.
  CASLock::lock is a partial function: None is a loop that does not end. Fiber ids are shown unique for
  runs of fewer than 2 to the power of 64 steps, which is before the 64-bit counter wraps. Logger::log, scan and
  init_loop end, by their termination proofs.

  \<^bold>\<open>Faults.\<close> An undefined or fatal event is a value: a null or dangling pointer, a lock taken twice by
  its owner (Deadlock), a failed assertion, an unspecified result, a stack overflow. An exception is a
  value too; \<open>outcome\<close> is used where the code catches exceptions, \<open>res\<close> where it does not.

  \<^bold>\<open>Not modelled.\<close> yaml-cpp, boost::lexical_cast, localtime_r/strftime, vasprintf,
  backtrace and the iteration order of unordered containers are arguments, and so are the values of
  __FILE__ and __LINE__ but in Runtime, which has the bare file name and the line of the macro; what a
  theorem needs of yaml-cpp is the hypothesis \<open>yaml_laws\<close>, or that a text is read back, and
  holds of the tree instance of Yaml_Api. The system call behind GetThreadId is a field of the world,
  and so is GetFiberId outside Runtime. Stream buffering, failures of memory allocation and of the
  context functions, and memory orders weaker than sequential consistency are left out. So are the
  LOG_ERROR calls of thread.cpp, on failures of pthread functions; they do not change the state of the
  threads. Outside Log_Race, File_Race and Config_Race, logging and configuration are modelled in one
  thread at a time, between the lock operations of which no other thread acts. In Log_Race an event is
  abstract, with what a formatter makes of it as an argument, levels and the formatters of loggers do
  not change, an appender gets a formatter from addAppender alone, delAppender is one step and a
  FileLogAppender does not reopen; File_Race has the reopen, of an appender whose level and formatter do
  not change. Listeners act on the world, not on the variable they listen to: Config_Var shows that
  writing it from there is a deadlock. A step of Fiber_Threads is an action of a thread, which changes
  each of the two shared counters at most once; a fiber is used by the thread that made it only. Of the
  failures of POSIX calls, that of sem_wait by a signal is modelled, with those of sem_init, sem_post,
  pthread_create and pthread_join. The language leaves the order of initialisation between source files
  open; \<open>program_start\<close> is one order. ipmsg.h and mutex.h hold no code; the test programs
  and the build files are not part of the library.
\<close>

section \<open>Configuration and logging together\<close>

lemma demo_conv_std: "converters_std good demo_conv"
  by (simp add: converters_std_def demo_conv_def pure_cast_def)

text \<open>
  C3. Loading a document sets the variables it names: with the logger of a well-formed program as the
  reporter, LoadFromYaml returns, with registry and loggers well-formed, for a document whose maps nest
  at most as deep as the stack allows, when every cast, and every listener of a variable that the
  document names, keeps the loggers well-formed and ends normally, in a standard exception or in the
  unspecified date buffer of a record of its own; what the listeners of other variables would do does
  not matter. A variable that the document names, whose listeners do not throw and whose cast makes a
  value of the last node listed under its name, then has that value. Reports about invalid names and
  failing casts go to the root logger; the one other outcome is the unspecified date buffer. The
  listener of "logs" may end the process (C37); for a document that names "logs" see C4.
\<close>

theorem document_sets_values:
  assumes "config_ok c" and "world_ok w" and "converters_std world_ok conv"
    and "\<forall>n q. n \<in> fst ` set (members d Y [] root) \<longrightarrow> om_find (cf_datas c) n = Some q \<longrightarrow> var_std world_ok (cf_vars c ! q)"
    and "nested d Y root" and "members d Y [] root = xs @ (k, node) # ys" and "k \<notin> fst ` set ys" and "k \<noteq> []"
    and "om_find (cf_datas c) k = Some p" and "never_raises (cf_vars c ! p)"
    and "casts (fst (conv (cv_type (cf_vars c ! p)))) (node_text Y node) v"
  shows "(\<exists>c' w'. LoadFromYaml d conv Y (root_log f l) root (c, w) = Returns () (c', w') \<and>
      config_ok c' \<and> world_ok w' \<and> cv_val (cf_vars c' ! p) = v) \<or>
    LoadFromYaml d conv Y (root_log f l) root (c, w) = Crashes date_fault"
proof -
  have reports: "reports (\<lambda>(c', w'). world_ok w') (LoadFromYaml d conv Y (root_log f l) root (c, w))"
    by (rule root_logger.load_reports [OF assms(1,3,5,2)]) (use assms(4) in blast)
  show ?thesis
  proof (cases "LoadFromYaml d conv Y (root_log f l) root (c, w)")
    case (Returns u cs')
    obtain c' w' where cs': "cs' = (c', w')" by (cases cs')
    note run = Returns [unfolded cs']
    have "world_ok w'" using reports run by simp
    moreover have "config_ok c'"
      using LoadFromYaml_ends [OF assms(1), of d Y root conv "root_log f l" w] run loads_config_ok [OF assms(1)] by auto
    moreover have "cv_val (cf_vars c' ! p) = v"
      using load_value [OF assms(1) assms(6,7,8,9,10,11) run] .
    ultimately show ?thesis using run by simp
  qed (use reports in simp_all)
qed

text \<open>
  A variable whose listener prints, and one whose listener would follow a null pointer and which the
  document does not name.
\<close>

definition watched_config :: "(int, world) config" where
  "watched_config = \<lparr>cf_vars =
     [(ConfigVar ''int'' ''port'' 8080 [])\<lparr>cv_cbs := [(1, Some (\<lambda>u v w. Returns () (print ''changed'' w)))]\<rparr>,
      (ConfigVar ''int'' ''host'' 0 [])\<lparr>cv_cbs := [(2, Some (\<lambda>u v w. Crashes (Null_Deref ''logger'')))]\<rparr>],
     cf_datas = [(''host'', 1), (''port'', 0)], cf_mutex = RWMutex_init\<rparr>"

theorem document_sets_values_witness:
  "(\<exists>c' w'. LoadFromYaml 2 demo_conv demo_tree (root_log ''config.cpp'' 50) demo_doc (watched_config, managed blank_world) =
      Returns () (c', w') \<and> cv_val (cf_vars c' ! 0) = 80) \<or>
    LoadFromYaml 2 demo_conv demo_tree (root_log ''config.cpp'' 50) demo_doc (watched_config, managed blank_world) =
      Crashes date_fault"
proof -
  let ?c = watched_config
  have ok: "config_ok ?c"
    using port_chars tolower_name [OF port_chars(1)] tolower_name [OF port_chars(3)]
    by (auto simp: config_ok_def watched_config_def cv_idle_def ConfigVar_eq om_ok_def om_find_def split: if_splits)
  have "world_ok (print s w)" if "world_ok w" for s w by (rule world_ok_frame [OF that frame_print])
  then have "var_std world_ok (cf_vars ?c ! 0)"
    by (simp add: watched_config_def ConfigVar_eq var_std_def listener_std_def call_back_def)
  then have named: "\<forall>n q. n \<in> fst ` set (members 2 demo_tree [] demo_doc) \<longrightarrow> om_find (cf_datas ?c) n = Some q \<longrightarrow> var_std world_ok (cf_vars ?c ! q)"
    by (simp add: demo_members) (simp add: watched_config_def om_find_def)
  have "nested 2 demo_tree demo_doc" by (simp add: numeral_2_eq_2 demo_doc_def tree_yaml_def)
  moreover have "om_find (cf_datas ?c) ''port'' = Some 0" "never_raises (cf_vars ?c ! 0)"
    "casts (fst (demo_conv (cv_type (cf_vars ?c ! 0)))) (node_text demo_tree (YScalar ''80'')) 80"
    by (simp_all add: watched_config_def om_find_def never_raises_def ConfigVar_eq demo_conv_def node_text_def tree_yaml_def
        casts_def pure_cast_def call_back_def)
  ultimately show ?thesis
    using document_sets_values [OF ok managed_ok [OF blank_simps(1,2)] demo_conv_std named _ demo_members]
    by fastforce
qed

text \<open>
  C34. The program's global objects start well-formed: in a process that has made no logger, the
  initialisers return, with the manager and the logger "system" made, the variables "logs", with no
  definitions and the listener of LogIniter, and "fiber.stack_size", of one mebibyte, registered, and
  every lock free.
\<close>

theorem program_starts:
  assumes "w_loggers w0 = []" and "w_appenders w0 = []"
  shows "\<exists>c w l. program_start conv place file line w0 = Returns (Some 0, Some 1) (c, w) \<and>
    program_ok place file line 0 c w \<and> cv_val (cf_vars c ! 0) = Log_Defines [] \<and>
    cf_vars c ! 1 = ConfigVar size_type ''fiber.stack_size'' (Stack_Size 1048576) ''fiber stack size'' \<and>
    cf_datas c = [(''fiber.stack_size'', 1), (''logs'', 0)] \<and> LoggerManager_getLogger ''system'' w = Inr (l, w)"
  using assms by (rule program_start_ok)

theorem program_starts_witness:
  "\<exists>c w. program_start (program_casts demo_tree (\<lambda>t. Inr 0)) ''log.cpp905'' ''log.cpp'' 861 blank_world = Returns (Some 0, Some 1) (c, w) \<and>
     cv_val (cf_vars c ! 0) = Log_Defines []"
  using program_starts [OF blank_simps(1,2), of "program_casts demo_tree (\<lambda>t. Inr 0)" "''log.cpp905''" "''log.cpp''" 861] by blast

text \<open>
  C4. A document configures the loggers: in a started program, loading a document that names "logs"
  once, with a node that casts to definitions each of which is new or changed, returns with those
  definitions as the value, and the manager then finds, for every definition, a logger of its name
  with its level and exactly its appenders, in order, each of its kind and level. What was in force
  for a name that the definitions do not mention stays in force. The program is again in the state of
  a started one. The one other outcome is the unspecified date buffer of a report.
\<close>

theorem document_configures_loggers:
  assumes "program_ok place file line p c w" and "cv_val (cf_vars c ! p) = Log_Defines old"
    and "\<forall>t. throws (to_uint t)" and "nested d Y root"
    and "members d Y [] root = xs @ (''logs'', node) # ys" and "''logs'' \<notin> fst ` set (xs @ ys)"
    and "LogDefines_from_string Y (node_text Y node) = Returns ds out" and "\<forall>i \<in> set ds. lds_find old i \<noteq> Some i"
  shows "(\<exists>c' w'. LoadFromYaml d (program_casts Y to_uint) Y (root_log f l) root (c, w) = Returns () (c', w') \<and>
      program_ok place file line p c' w' \<and> cv_val (cf_vars c' ! p) = Log_Defines ds \<and> (\<forall>i \<in> set ds. in_force w' i) \<and>
      (\<forall>j. ld_name j \<notin> ld_name ` set ds \<longrightarrow> in_force w j \<longrightarrow> in_force w' j)) \<or>
    LoadFromYaml d (program_casts Y to_uint) Y (root_log f l) root (c, w) = Crashes date_fault"
  using load_document [where to_uint = to_uint and f = f and l = l, OF assms(1,2) assms(3) [rule_format] assms(4-8)]
  by (cases "LoadFromYaml d (program_casts Y to_uint) Y (root_log f l) root (c, w)") (auto simp: loaded_def)

text \<open>The document with the two definitions, loaded by a program that has just started.\<close>

definition no_u32 :: "string \<Rightarrow> 32 word res" where
  "no_u32 s = Inl (Throw (Std_Exception ''bad_lexical_cast''))"

lemma logs_members:
  "members 2 document_yaml [] (YMap [(YScalar ''logs'', demo_document)]) =
     [([], YMap [(YScalar ''logs'', demo_document)])] @ (''logs'', demo_document) # []"
  "nested 2 document_yaml (YMap [(YScalar ''logs'', demo_document)])"
proof -
  obtain ns where ns: "demo_document = YSeq ns"
    unfolding demo_document_def using tree_seq_node by (metis list.simps(3) list.map(2))
  have "\<not> y_is_map document_yaml (YSeq ns)" by (simp add: tree_yaml_def)
  with ns have "\<not> y_is_map document_yaml demo_document" by (simp only: ns not_False_eq_True)
  then show "members 2 document_yaml [] (YMap [(YScalar ''logs'', demo_document)]) =
     [([], YMap [(YScalar ''logs'', demo_document)])] @ (''logs'', demo_document) # []"
    "nested 2 document_yaml (YMap [(YScalar ''logs'', demo_document)])"
    by (simp_all add: numeral_2_eq_2 find_first_not_of_None) (simp_all add: tree_yaml_def member_chars_def)
qed

theorem document_configures_loggers_witness:
  "\<exists>c w. program_start (program_casts document_yaml no_u32) ''log.cpp905'' ''log.cpp'' 861 blank_world =
      Returns (Some 0, Some 1) (c, w) \<and>
    ((\<exists>c' w'. LoadFromYaml 2 (program_casts document_yaml no_u32) document_yaml (root_log ''config.cpp'' 28)
        (YMap [(YScalar ''logs'', demo_document)]) (c, w) = Returns () (c', w') \<and>
        (\<forall>i \<in> {demo_app_define, demo_root_define}. in_force w' (forget_define i))) \<or>
     LoadFromYaml 2 (program_casts document_yaml no_u32) document_yaml (root_log ''config.cpp'' 28)
        (YMap [(YScalar ''logs'', demo_document)]) (c, w) = Crashes date_fault)"
proof -
  obtain c w where start: "program_start (program_casts document_yaml no_u32) ''log.cpp905'' ''log.cpp'' 861 blank_world =
      Returns (Some 0, Some 1) (c, w)"
    and po: "program_ok ''log.cpp905'' ''log.cpp'' 861 0 c w" and val: "cv_val (cf_vars c ! 0) = Log_Defines []"
    using program_start_ok [OF blank_simps(1,2)] by blast
  have u: "\<forall>t. throws (no_u32 t)" by (simp add: throws_def no_u32_def)
  have once: "''logs'' \<notin> fst ` set ([([], YMap [(YScalar ''logs'', demo_document)])] @ [])" by simp
  from document_configures_loggers [OF po val u logs_members(2,1) once document_casts, where f = "''config.cpp''" and l = 28] start
  show ?thesis by (intro exI [of _ c] exI [of _ w]) auto
qed

end
